(* ===== verification/Vdb_Prelude.thy ===== *)
theory Vdb_Prelude
  imports Main "HOL-Library.Word"
begin

text \<open>
  Shared ground of the development: the byte and machine-word types of the Go sources, the
  little-endian codecs of \<^verbatim>\<open>encoding/binary\<close>, Go slice expressions and \<^verbatim>\<open>copy\<close>, the
  CRC-32 of \<^verbatim>\<open>hash/crc32\<close>, and the list lemmas the component theories use.

  A Go byte slice or array is a \<^typ>\<open>8 word list\<close>. A Go expression that panics (an index or a
  slice bound out of range) is \<^const>\<open>None\<close> of an option type; a function that only fails with
  an error value returns a sum whose left part is the error.
\<close>

section \<open>Types\<close>

type_synonym byte = "8 word"
type_synonym u8 = "8 word"
type_synonym u16 = "16 word"
type_synonym u32 = "32 word"
type_synonym u64 = "64 word"
type_synonym bytes = "8 word list"

named_theorems codec_simps "decode-after-encode equations of the binary formats"
named_theorems frame_simps "what an operation leaves unchanged"
named_theorems wf_intros "operations preserve the invariant of their component"

section \<open>Words as naturals\<close>

lemma unat_of_nat_u8 [simp]: "n < 256 \<Longrightarrow> unat (word_of_nat n :: u8) = n"
  by (simp add: unat_of_nat take_bit_eq_mod)

lemma unat_of_nat_u16: "n < 65536 \<Longrightarrow> unat (word_of_nat n :: u16) = n"
  by (simp add: unat_of_nat take_bit_eq_mod)

lemma unat_of_nat_u32: "n < 4294967296 \<Longrightarrow> unat (word_of_nat n :: u32) = n"
  by (simp add: unat_of_nat take_bit_eq_mod)

lemma unat_u8_less: "unat (w :: u8) < 256"
  using unsigned_less [of w, where ?'a = nat] by simp

lemma unat_u16_less: "unat (w :: u16) < 65536"
  using unsigned_less [of w, where ?'a = nat] by simp

lemma unat_u32_less: "unat (w :: u32) < 4294967296"
  using unsigned_less [of w, where ?'a = nat] by simp

lemma unat_u64_less: "unat (w :: u64) < 18446744073709551616"
  using unsigned_less [of w, where ?'a = nat] by simp

section \<open>Little-endian integers\<close>

text \<open>
  \<^verbatim>\<open>nat_le n v\<close> is the \<open>n\<close>-byte little-endian form of \<open>v\<close> (byte \<open>k\<close> is \<open>byte(v >> 8k)\<close>);
  \<^verbatim>\<open>le_nat\<close> reads it back. The typed codecs are \<^verbatim>\<open>binary.LittleEndian.PutUintNN\<close> and
  \<^verbatim>\<open>UintNN\<close>.
\<close>

fun nat_le :: "nat \<Rightarrow> nat \<Rightarrow> bytes" where
  "nat_le 0 v = []"
| "nat_le (Suc n) v = word_of_nat (v mod 256) # nat_le n (v div 256)"

fun le_nat :: "bytes \<Rightarrow> nat" where
  "le_nat [] = 0"
| "le_nat (b # bs) = unat b + 256 * le_nat bs"

definition le16 :: "u16 \<Rightarrow> bytes" where
  "le16 w = nat_le 2 (unat w)"

definition le32 :: "u32 \<Rightarrow> bytes" where
  "le32 w = nat_le 4 (unat w)"

definition le64 :: "u64 \<Rightarrow> bytes" where
  "le64 w = nat_le 8 (unat w)"

definition get16 :: "bytes \<Rightarrow> u16" where
  "get16 bs = word_of_nat (le_nat (take 2 bs))"

definition get32 :: "bytes \<Rightarrow> u32" where
  "get32 bs = word_of_nat (le_nat (take 4 bs))"

definition get64 :: "bytes \<Rightarrow> u64" where
  "get64 bs = word_of_nat (le_nat (take 8 bs))"

lemma length_nat_le [simp]: "length (nat_le n v) = n"
  by (induction n arbitrary: v) auto

lemma length_le [simp]: "length (le16 a) = 2" "length (le32 b) = 4" "length (le64 c) = 8"
  by (simp_all add: le16_def le32_def le64_def)

lemma le_nat_nat_le: "v < 256 ^ n \<Longrightarrow> le_nat (nat_le n v) = v"
proof (induction n arbitrary: v)
  case 0
  then show ?case by simp
next
  case (Suc n)
  then have "v div 256 < 256 ^ n" by (simp add: less_mult_imp_div_less mult.commute)
  then have "le_nat (nat_le n (v div 256)) = v div 256" by (rule Suc.IH)
  then show ?case by simp
qed

lemma le_nat_less: "le_nat bs < 256 ^ length bs"
proof (induction bs)
  case Nil
  then show ?case by simp
next
  case (Cons b bs)
  have "unat b < 256" by (rule unat_u8_less)
  with Cons show ?case by simp
qed

lemma nat_le_le_nat: "nat_le (length bs) (le_nat bs) = bs"
proof (induction bs)
  case Nil
  then show ?case by simp
next
  case (Cons b bs)
  have "unat b < 256" by (rule unat_u8_less)
  with Cons show ?case by simp
qed

lemma get16_le16 [simp, codec_simps]: "get16 (le16 w @ rest) = w"
  using unat_u16_less [of w] by (simp add: get16_def le16_def le_nat_nat_le)

lemma get32_le32 [simp, codec_simps]: "get32 (le32 w @ rest) = w"
  using unat_u32_less [of w] by (simp add: get32_def le32_def le_nat_nat_le)

lemma get64_le64 [simp, codec_simps]: "get64 (le64 w @ rest) = w"
  using unat_u64_less [of w] by (simp add: get64_def le64_def le_nat_nat_le)

lemma get_le_nil [simp, codec_simps]:
  "get16 (le16 a) = a" "get32 (le32 b) = b" "get64 (le64 c) = c"
  using get16_le16 [of a "[]"] get32_le32 [of b "[]"] get64_le64 [of c "[]"] by simp_all

lemma le32_get32: "length bs = 4 \<Longrightarrow> le32 (get32 bs) = bs"
  using le_nat_less [of bs] nat_le_le_nat [of bs]
  by (simp add: le32_def get32_def unat_of_nat_u32)

section \<open>Buffers: overwriting a range, slices, \<open>copy\<close>\<close>

text \<open>
  \<^verbatim>\<open>overwrite i bs p\<close> overwrites \<open>p[i:i+len(bs)]\<close>; it is the store of \<^verbatim>\<open>PutUintNN\<close> and of
  \<^verbatim>\<open>copy\<close> where the range is inside the buffer. \<^verbatim>\<open>window i n p\<close> is the \<open>n\<close> bytes from \<open>i\<close>.
\<close>

definition overwrite :: "nat \<Rightarrow> 'a list \<Rightarrow> 'a list \<Rightarrow> 'a list" where
  "overwrite i bs p = take i p @ bs @ drop (i + length bs) p"

definition window :: "nat \<Rightarrow> nat \<Rightarrow> 'a list \<Rightarrow> 'a list" where
  "window i n p = take n (drop i p)"

text \<open>
  \<^verbatim>\<open>put_at\<close> is \<^verbatim>\<open>PutUintNN(p[i:], v)\<close>: it panics unless the range is inside the buffer.
  \<^verbatim>\<open>go_slice\<close> is the slice expression \<open>p[i:j]\<close>. \<^verbatim>\<open>copy_at\<close> is \<open>copy(p[i:], bs)\<close>, which
  copies as many bytes as fit and panics only when \<open>i\<close> is beyond the end.
\<close>

definition put_at :: "nat \<Rightarrow> 'a list \<Rightarrow> 'a list \<Rightarrow> 'a list option" where
  "put_at i bs p = (if i + length bs \<le> length p then Some (overwrite i bs p) else None)"

definition go_slice :: "'a list \<Rightarrow> nat \<Rightarrow> nat \<Rightarrow> 'a list option" where
  "go_slice p i j = (if i \<le> j \<and> j \<le> length p then Some (window i (j - i) p) else None)"

definition copy_at :: "nat \<Rightarrow> 'a list \<Rightarrow> 'a list \<Rightarrow> 'a list option" where
  "copy_at i bs p =
     (if i \<le> length p then Some (overwrite i (take (length p - i) bs) p) else None)"

lemma length_overwrite [simp]: "i + length bs \<le> length p \<Longrightarrow> length (overwrite i bs p) = length p"
  by (simp add: overwrite_def)

lemma length_window [simp]: "i + n \<le> length p \<Longrightarrow> length (window i n p) = n"
  by (simp add: window_def)

lemma window_overwrite_same [simp]:
  "i + length bs \<le> length p \<Longrightarrow> n = length bs \<Longrightarrow> window i n (overwrite i bs p) = bs"
  by (simp add: window_def overwrite_def)

lemma window_overwrite_before:
  "j + n \<le> i \<Longrightarrow> i + length bs \<le> length p \<Longrightarrow> window j n (overwrite i bs p) = window j n p"
proof -
  assume a: "j + n \<le> i" "i + length bs \<le> length p"
  have "window j n (overwrite i bs p) = take n (drop j (take i p))"
    using a by (simp add: window_def overwrite_def)
  also have "\<dots> = window j n p"
    using a by (simp add: window_def drop_take min_def)
  finally show ?thesis .
qed

lemma window_overwrite_after:
  assumes "i + length bs \<le> j" and "i + length bs \<le> length p"
  shows "window j n (overwrite i bs p) = window j n p"
proof -
  have "drop j (overwrite i bs p) = drop j p"
    using assms by (simp add: overwrite_def drop_append)
  then show ?thesis by (simp add: window_def)
qed

lemma take_window: "k \<le> n \<Longrightarrow> take k (window i n p) = window i k p"
  by (simp add: window_def min_def)

lemma take_drop_window: "take n (drop i p) = window i n p"
  by (simp add: window_def)

lemma window_0: "window 0 n p = take n p"
  by (simp add: window_def)

lemma overwrite_nil [simp]: "overwrite i [] p = p"
  by (simp add: overwrite_def)

lemma put_at_Some: "i + length bs \<le> length p \<Longrightarrow> put_at i bs p = Some (overwrite i bs p)"
  by (simp add: put_at_def)

lemma copy_at_Some: "i + length bs \<le> length p \<Longrightarrow> copy_at i bs p = Some (overwrite i bs p)"
  by (simp add: copy_at_def)

lemma go_slice_Some: "i + n \<le> length p \<Longrightarrow> go_slice p i (i + n) = Some (window i n p)"
  by (simp add: go_slice_def)

end
