(* ===== verification/Crc32.thy ===== *)
theory Crc32
  imports Vdb_Prelude
begin

text \<open>
  The IEEE CRC-32 of Go's \<^verbatim>\<open>hash/crc32\<close>, as the page checksum and the write-ahead log use it:
  the table of the reflected polynomial \<open>0xEDB88320\<close> and the byte-wise update. The one law the
  code relies on is that the checksum of a record may be computed piece by piece.
\<close>

unbundle bit_operations_syntax

definition crc_shift :: "u32 \<Rightarrow> u32" where
  "crc_shift c = (if bit c 0 then drop_bit 1 c XOR 0xEDB88320 else drop_bit 1 c)"

definition crc_table :: "byte \<Rightarrow> u32" where
  "crc_table i = (crc_shift ^^ 8) (ucast i)"

definition crc_byte :: "u32 \<Rightarrow> byte \<Rightarrow> u32" where
  "crc_byte c v = crc_table (ucast c XOR v) XOR drop_bit 8 c"

definition crc32_update :: "u32 \<Rightarrow> bytes \<Rightarrow> u32" where
  "crc32_update c bs = NOT (foldl crc_byte (NOT c) bs)"

definition checksumIEEE :: "bytes \<Rightarrow> u32" where
  "checksumIEEE bs = crc32_update 0 bs"

lemma crc32_update_append [simp]:
  "crc32_update (crc32_update c xs) ys = crc32_update c (xs @ ys)"
  by (simp add: crc32_update_def)

lemma checksum_append: "crc32_update (checksumIEEE xs) ys = checksumIEEE (xs @ ys)"
  by (simp add: checksumIEEE_def)

end
