(* ===== verification/Page.thy ===== *)
theory Page
  imports Vdb_Prelude Crc32
begin

text \<open>
  The 8 KB slotted page of \<^verbatim>\<open>server/internal/core/storage/page\<close>: the 28-byte header, the packed
  item pointers, and the operations \<open>Init\<close>, \<open>InsertTuple\<close>, \<open>InsertTupleAt\<close>, \<open>GetTuple\<close>,
  \<open>MarkDead\<close>, \<open>Compact\<close> and the checksum operations. A page is the byte list of its array; the
  abstraction \<open>slots\<close> reads it as the list of its slots, each holding a tuple or nothing.
\<close>

unbundle bit_operations_syntax

section \<open>Item pointers (itemptr.go)\<close>

type_synonym ItemPointer = u32

abbreviation ItemPointerSize :: u16 where "ItemPointerSize \<equiv> 4"
abbreviation MaxTupleLength :: nat where "MaxTupleLength \<equiv> 16383"

definition ItemFlagNormal :: u8 where "ItemFlagNormal = 0"
definition ItemFlagDead :: u8 where "ItemFlagDead = 1"
definition ItemFlagRedirect :: u8 where "ItemFlagRedirect = 2"

definition NewItemPointer :: "u16 \<Rightarrow> u16 \<Rightarrow> u8 \<Rightarrow> ItemPointer" where
  "NewItemPointer offset len flags =
     push_bit 17 (ucast offset) OR push_bit 3 (ucast (len AND 0x3FFF)) OR ucast (flags AND 0x7)"

definition ip_Offset :: "ItemPointer \<Rightarrow> u16" where
  "ip_Offset ip = ucast (drop_bit 17 ip)"

definition ip_Length :: "ItemPointer \<Rightarrow> u16" where
  "ip_Length ip = ucast (drop_bit 3 ip AND 0x3FFF)"

definition ip_Flags :: "ItemPointer \<Rightarrow> u8" where
  "ip_Flags ip = ucast (ip AND 0x7)"

lemma mask_lits: "(0x3FFF :: 'a::len word) = mask 14" "(0x7 :: 'a word) = mask 3"
  by (simp_all add: mask_eq_exp_minus_1)

lemma ip_Offset_New [codec_simps]: "ip_Offset (NewItemPointer o' l f) = take_bit 15 o'"
  unfolding ip_Offset_def NewItemPointer_def mask_lits
  by (rule bit_word_eqI) (auto simp: bit_simps)

lemma ip_Length_New [codec_simps]: "ip_Length (NewItemPointer o' l f) = take_bit 14 l"
  unfolding ip_Length_def NewItemPointer_def mask_lits
  by (rule bit_word_eqI) (auto simp: bit_simps)

lemma ip_Flags_New [codec_simps]: "ip_Flags (NewItemPointer o' l f) = take_bit 3 f"
  unfolding ip_Flags_def NewItemPointer_def mask_lits
  by (rule bit_word_eqI) (auto simp: bit_simps)

lemma take_bit_word_self: "unat w < 2 ^ n \<Longrightarrow> take_bit n w = (w :: 'a::len word)"
  by (metis take_bit_nat_eq_self unsigned_take_bit_eq unsigned_word_eqI)

lemma ip_New_small [codec_simps]:
  "unat o' < 32768 \<Longrightarrow> ip_Offset (NewItemPointer o' l f) = o'"
  "unat l \<le> 16383 \<Longrightarrow> ip_Length (NewItemPointer o' l f) = l"
  "unat f < 8 \<Longrightarrow> ip_Flags (NewItemPointer o' l f) = f"
  by (simp_all add: ip_Offset_New ip_Length_New ip_Flags_New take_bit_word_self)


section \<open>The page header and its accessors (page.go)\<close>

type_synonym page = bytes

abbreviation PageSize :: nat where "PageSize \<equiv> 8192"
abbreviation PageHeaderSize :: nat where "PageHeaderSize \<equiv> 28"

record PageID =
  TableID :: u32
  SegmentNo :: u16
  PageNo :: u32

record PageHeader =
  LSN :: u64
  Checksum :: u32
  Flags :: u16
  Lower :: u16
  Upper :: u16
  Special :: u16
  PageType :: u8
  NItems :: u16
  FreeSpace :: u16

datatype page_error = ErrPageFull | ErrOffsetUnderflow | ErrTooManyItems | ErrUpperLower

definition PageID_Bytes :: "PageID \<Rightarrow> bytes" where
  "PageID_Bytes p = le32 (TableID p) @ le16 (SegmentNo p) @ le32 (PageNo p)"

definition FileOffset :: "PageID \<Rightarrow> nat" where
  "FileOffset p = unat (PageNo p) * PageSize"

definition Header :: "page \<Rightarrow> PageHeader" where
  "Header p = \<lparr>LSN = get64 (drop 0 p), Checksum = get32 (drop 8 p), Flags = get16 (drop 12 p),
     Lower = get16 (drop 14 p), Upper = get16 (drop 16 p), Special = get16 (drop 18 p),
     PageType = p ! 20, NItems = get16 (drop 21 p), FreeSpace = get16 (drop 23 p)\<rparr>"

definition writeHeader :: "PageHeader \<Rightarrow> page \<Rightarrow> page" where
  "writeHeader h p =
     (let p = overwrite 0 (le64 (LSN h)) p; p = overwrite 8 (le32 (Checksum h)) p;
          p = overwrite 12 (le16 (Flags h)) p; p = overwrite 14 (le16 (Lower h)) p;
          p = overwrite 16 (le16 (Upper h)) p; p = overwrite 18 (le16 (Special h)) p;
          p = p[20 := PageType h]; p = overwrite 21 (le16 (NItems h)) p
      in overwrite 23 (le16 (FreeSpace h)) p)"

definition Init :: "u8 \<Rightarrow> page" where
  "Init pageType =
     writeHeader \<lparr>LSN = 0, Checksum = 0, Flags = 0, Lower = 28, Upper = 8192, Special = 8192,
       PageType = pageType, NItems = 0, FreeSpace = 8192 - 28\<rparr> (replicate PageSize 0)"

definition Page_LSN :: "page \<Rightarrow> u64" where
  "Page_LSN p = get64 (drop 0 p)"

definition SetLSN :: "u64 \<Rightarrow> page \<Rightarrow> page" where
  "SetLSN lsn p = overwrite 0 (le64 lsn) p"

definition Page_FreeSpace :: "page \<Rightarrow> u16" where
  "Page_FreeSpace p =
     (let h = Header p in if Upper h \<le> Lower h then 0 else Upper h - Lower h)"

definition itemPointerOffset :: "u16 \<Rightarrow> u16" where
  "itemPointerOffset slot = 28 + slot * ItemPointerSize"

definition itemPointer :: "page \<Rightarrow> u16 \<Rightarrow> ItemPointer option" where
  "itemPointer p slot =
     (let i = unat (itemPointerOffset slot)
      in if i + 4 \<le> length p then Some (get32 (drop i p)) else None)"

section \<open>Tuple operations (page.go)\<close>

definition InsertTuple :: "page \<Rightarrow> bytes \<Rightarrow> (page \<times> (page_error + u16)) option" where
  "InsertTuple p data =
     (if length data > MaxTupleLength then Some (p, Inl ErrPageFull)
      else if Page_FreeSpace p < word_of_nat (length data) + ItemPointerSize
      then Some (p, Inl ErrPageFull)
      else
        let h = Header p; tupleOffset = Upper h - word_of_nat (length data)
        in if tupleOffset > Upper h then Some (p, Inl ErrOffsetUnderflow)
        else Option.bind (copy_at (unat tupleOffset) data p) (\<lambda>p.
          let ip = NewItemPointer tupleOffset (word_of_nat (length data)) ItemFlagNormal
          in Option.bind (put_at (unat (Lower h)) (le32 ip) p) (\<lambda>p.
            let h = h\<lparr>Upper := tupleOffset, Lower := Lower h + ItemPointerSize\<rparr>
            in if NItems h = 0xFFFF then Some (p, Inl ErrTooManyItems)
            else
              let h = h\<lparr>NItems := NItems h + 1, FreeSpace := Upper h - Lower h\<rparr>
              in if Upper h < Lower h then Some (p, Inl ErrUpperLower)
              else Some (writeHeader h p, Inr (NItems h - 1)))))"

text \<open>
  The redo insert of recovery. \<open>already_there\<close> is its test that the slot already holds the tuple
  (compared without the deleting transaction, bytes 8 to 16); \<open>fill_gap\<close> is its loop that writes
  \<open>n\<close> dead item pointers below the wanted slot.
\<close>

definition already_there :: "page \<Rightarrow> ItemPointer \<Rightarrow> bytes \<Rightarrow> bool option" where
  "already_there p ip data =
     (if ip_Flags ip \<noteq> ItemFlagDead \<and> ip_Length ip = word_of_nat (length data)
      then map_option
        (\<lambda>existing. if length existing \<ge> 16 \<and> length data \<ge> 16
           then take 8 existing = take 8 data \<and> drop 16 existing = drop 16 data
           else existing = data)
        (go_slice p (unat (ip_Offset ip)) (unat (ip_Offset ip + ip_Length ip)))
      else Some False)"

fun fill_gap :: "nat \<Rightarrow> page \<Rightarrow> PageHeader \<Rightarrow> (page \<times> PageHeader) option" where
  "fill_gap 0 p h = Some (p, h)"
| "fill_gap (Suc n) p h =
     Option.bind (put_at (unat (Lower h)) (le32 (NewItemPointer 0 0 ItemFlagDead)) p)
       (\<lambda>p. fill_gap n p (h\<lparr>Lower := Lower h + ItemPointerSize, NItems := NItems h + 1\<rparr>))"

definition InsertTupleAt :: "page \<Rightarrow> u16 \<Rightarrow> bytes \<Rightarrow> (page \<times> (page_error + unit)) option" where
  "InsertTupleAt p slot data =
     (if length data > MaxTupleLength then Some (p, Inl ErrPageFull)
      else let h = Header p; len = word_of_nat (length data) in
        if slot < NItems h then
          Option.bind (itemPointer p slot) (\<lambda>ip.
          Option.bind (already_there p ip data) (\<lambda>done.
            if done then Some (p, Inr ())
            else if Page_FreeSpace p < len then Some (p, Inl ErrPageFull)
            else let tupleOffset = Upper h - len in
              Option.bind (copy_at (unat tupleOffset) data p) (\<lambda>p.
              Option.bind (put_at (unat (itemPointerOffset slot))
                  (le32 (NewItemPointer tupleOffset len ItemFlagNormal)) p) (\<lambda>p.
                Some (writeHeader (h\<lparr>Upper := tupleOffset, FreeSpace := tupleOffset - Lower h\<rparr>) p,
                      Inr ())))))
        else
          let gapCount = (slot + 1) - NItems h in
          if Page_FreeSpace p < len + gapCount * ItemPointerSize then Some (p, Inl ErrPageFull)
          else Option.bind (fill_gap (unat slot - unat (NItems h)) p h) (\<lambda>(p, h).
            let tupleOffset = Upper h - len in
            Option.bind (copy_at (unat tupleOffset) data p) (\<lambda>p.
            Option.bind (put_at (unat (Lower h))
                (le32 (NewItemPointer tupleOffset len ItemFlagNormal)) p) (\<lambda>p.
              let h = h\<lparr>Upper := tupleOffset, Lower := Lower h + ItemPointerSize,
                        NItems := NItems h + 1\<rparr>
              in Some (writeHeader (h\<lparr>FreeSpace := Upper h - Lower h\<rparr>) p, Inr ())))))"

text \<open>The inner option of \<open>GetTuple\<close> is Go's \<open>nil\<close>: no such slot, or a dead one.\<close>

definition GetTuple :: "page \<Rightarrow> u16 \<Rightarrow> bytes option option" where
  "GetTuple p slot =
     (if slot \<ge> NItems (Header p) then Some None
      else Option.bind (itemPointer p slot) (\<lambda>ip.
        if ip_Flags ip = ItemFlagDead then Some None
        else map_option Some
          (go_slice p (unat (ip_Offset ip)) (unat (ip_Offset ip + ip_Length ip)))))"

definition MarkDead :: "page \<Rightarrow> u16 \<Rightarrow> page option" where
  "MarkDead p slot =
     (if slot \<ge> NItems (Header p) then Some p
      else Option.bind (itemPointer p slot) (\<lambda>ip.
        put_at (unat (itemPointerOffset slot))
          (le32 (NewItemPointer (ip_Offset ip) (ip_Length ip) ItemFlagDead)) p))"

fun compact_loop :: "page \<Rightarrow> u16 list \<Rightarrow> page \<Rightarrow> page option" where
  "compact_loop p [] tmp = Some tmp"
| "compact_loop p (slot # rest) tmp =
     Option.bind (GetTuple p slot) (\<lambda>data.
       case data of
         None \<Rightarrow> compact_loop p rest tmp
       | Some d \<Rightarrow> Option.bind (InsertTuple tmp d) (\<lambda>(tmp, _). compact_loop p rest tmp))"

definition Compact :: "page \<Rightarrow> page option" where
  "Compact p =
     (let h = Header p in
      map_option
        (\<lambda>tmp. let tmp = SetLSN (LSN h) tmp; th = Header tmp
               in writeHeader (th\<lparr>Flags := Flags h\<rparr>) tmp)
        (compact_loop p (map word_of_nat [0 ..< unat (NItems h)]) (Init (PageType h))))"

definition ComputeChecksum :: "page \<Rightarrow> u32" where
  "ComputeChecksum p = checksumIEEE (overwrite 8 (le32 0) p)"

definition SetChecksum :: "page \<Rightarrow> page" where
  "SetChecksum p = overwrite 8 (le32 (ComputeChecksum p)) p"

definition VerifyChecksum :: "page \<Rightarrow> bool" where
  "VerifyChecksum p \<longleftrightarrow> get32 (drop 8 p) = ComputeChecksum p"

section \<open>Reading back what was written\<close>

lemma overwrite_skip: "length xs \<le> i \<Longrightarrow> overwrite i bs (xs @ q) = xs @ overwrite (i - length xs) bs q"
  by (simp add: overwrite_def)

lemma overwrite_0: "overwrite 0 bs q = bs @ drop (length bs) q"
  by (simp add: overwrite_def)

definition header_bytes :: "PageHeader \<Rightarrow> bytes" where
  "header_bytes h = le64 (LSN h) @ le32 (Checksum h) @ le16 (Flags h) @ le16 (Lower h) @
     le16 (Upper h) @ le16 (Special h) @ [PageType h] @ le16 (NItems h) @ le16 (FreeSpace h)"

lemma length_header_bytes [simp]: "length (header_bytes h) = 25"
  by (simp add: header_bytes_def)

lemma overwrite_Cons: "0 < i \<Longrightarrow> overwrite i bs (x # q) = x # overwrite (i - 1) bs q"
  by (simp add: overwrite_def drop_Cons' take_Cons')

lemma writeHeader_eq:
  assumes "25 \<le> length p"
  shows "writeHeader h p = header_bytes h @ drop 25 p"
proof -
  have "drop 20 p = p ! 20 # drop 21 p"
    using assms Cons_nth_drop_Suc [of 20 p] by simp
  then show ?thesis
    using assms unfolding writeHeader_def header_bytes_def Let_def
    by (simp add: overwrite_skip overwrite_0 overwrite_Cons list_update_append)
qed

lemma Header_header_bytes [simp]: "Header (header_bytes h @ q) = h"
  by (simp add: Header_def header_bytes_def nth_append)

lemma Header_writeHeader [simp]: "25 \<le> length p \<Longrightarrow> Header (writeHeader h p) = h"
  by (simp add: writeHeader_eq)

lemma length_writeHeader [simp]: "25 \<le> length p \<Longrightarrow> length (writeHeader h p) = length p"
  by (simp add: writeHeader_eq)

lemma window_writeHeader [frame_simps]:
  "25 \<le> length p \<Longrightarrow> 25 \<le> i \<Longrightarrow> window i n (writeHeader h p) = window i n p"
  by (simp add: writeHeader_eq window_def)

lemma get_window:
  "get16 (drop i p) = get16 (window i 2 p)" "get32 (drop i p) = get32 (window i 4 p)"
  "get64 (drop i p) = get64 (window i 8 p)"
  by (simp_all add: get16_def get32_def get64_def window_def)

lemma Header_overwrite [frame_simps]:
  assumes "25 \<le> i" and "i + length bs \<le> length p"
  shows "Header (overwrite i bs p) = Header p"
proof -
  have "overwrite i bs p ! 20 = p ! 20"
    using assms by (simp add: overwrite_def nth_append)
  moreover have "window j n (overwrite i bs p) = window j n p" if "j + n \<le> 25" for j n
    using assms that by (simp add: window_overwrite_before)
  ultimately show ?thesis
    unfolding Header_def get_window by simp
qed

lemma length_Init [simp]: "length (Init t) = PageSize"
  by (simp add: Init_def)

lemma Header_Init [simp]:
  "Header (Init t) = \<lparr>LSN = 0, Checksum = 0, Flags = 0, Lower = 28, Upper = 8192, Special = 8192,
     PageType = t, NItems = 0, FreeSpace = 8164\<rparr>"
  by (simp add: Init_def)

section \<open>The page invariant\<close>

text \<open>
  \<open>item p s\<close> is the item pointer of slot \<open>s\<close>, read at its exact offset. A slot is live when its
  pointer is not dead. \<open>page_wf\<close> says: the item-pointer zone ends at \<open>Lower\<close> and does not run into
  the tuple zone that starts at \<open>Upper\<close>, the cached free space is exact, every live tuple lies in
  the tuple zone, and the live tuples together are no longer than that zone (so that \<open>Compact\<close>
  cannot fail).
\<close>

definition item :: "page \<Rightarrow> nat \<Rightarrow> ItemPointer" where
  "item p s = get32 (drop (28 + 4 * s) p)"

definition nitems :: "page \<Rightarrow> nat" where
  "nitems p = unat (NItems (Header p))"

definition live :: "ItemPointer \<Rightarrow> bool" where
  "live ip \<longleftrightarrow> ip_Flags ip \<noteq> ItemFlagDead"

definition in_zone :: "nat \<Rightarrow> ItemPointer \<Rightarrow> bool" where
  "in_zone up ip \<longleftrightarrow> up \<le> unat (ip_Offset ip) \<and> unat (ip_Offset ip) + unat (ip_Length ip) \<le> PageSize"

definition live_len :: "ItemPointer \<Rightarrow> nat" where
  "live_len ip = (if live ip then unat (ip_Length ip) else 0)"

definition hdr_wf :: "PageHeader \<Rightarrow> bool" where
  "hdr_wf h \<longleftrightarrow> unat (Lower h) = 28 + 4 * unat (NItems h) \<and> unat (Lower h) \<le> unat (Upper h)
     \<and> unat (Upper h) \<le> PageSize \<and> FreeSpace h = Upper h - Lower h"

definition page_wf :: "page \<Rightarrow> bool" where
  "page_wf p \<longleftrightarrow> length p = PageSize \<and> hdr_wf (Header p)
     \<and> (\<forall>s < nitems p. live (item p s) \<longrightarrow> in_zone (unat (Upper (Header p))) (item p s))
     \<and> (\<Sum>s < nitems p. live_len (item p s)) \<le> PageSize - unat (Upper (Header p))"

text \<open>The abstract content: for every slot the tuple it holds, or nothing.\<close>

definition slot_tuple :: "page \<Rightarrow> nat \<Rightarrow> bytes option" where
  "slot_tuple p s =
     (let ip = item p s
      in if live ip then Some (window (unat (ip_Offset ip)) (unat (ip_Length ip)) p) else None)"

definition slots :: "page \<Rightarrow> bytes option list" where
  "slots p = map (slot_tuple p) [0 ..< nitems p]"

definition room :: "page \<Rightarrow> nat" where
  "room p = unat (Upper (Header p)) - unat (Lower (Header p))"

lemma length_slots [simp]: "length (slots p) = nitems p"
  by (simp add: slots_def)

lemma page_wf_Init [simp, wf_intros]: "page_wf (Init t)"
  by (simp add: page_wf_def hdr_wf_def nitems_def)

lemma room_Init [simp]: "room (Init t) = 8164"
  by (simp add: room_def)

lemma slots_Init [simp]: "slots (Init t) = []"
  by (simp add: slots_def nitems_def)

lemma page_wf_bounds:
  assumes "page_wf p"
  shows "length p = PageSize" "nitems p \<le> 2041" "28 + 4 * nitems p \<le> unat (Upper (Header p))"
    "unat (Upper (Header p)) \<le> PageSize" "unat (Lower (Header p)) = 28 + 4 * nitems p"
  using assms by (auto simp: page_wf_def hdr_wf_def nitems_def)

lemma item_in_range:
  assumes "page_wf p" "s < nitems p"
  shows "28 + 4 * s + 4 \<le> unat (Upper (Header p))" "28 + 4 * s + 4 \<le> length p"
  using page_wf_bounds [OF assms(1)] assms(2) by auto

lemma itemPointer_nat:
  assumes "page_wf p" "unat slot < nitems p"
  shows "unat (itemPointerOffset slot) = 28 + 4 * unat slot"
    "itemPointer p slot = Some (item p (unat slot))"
proof -
  have "unat slot < 2041" using assms page_wf_bounds(2) by fastforce
  then have "unat (slot * 4) = 4 * unat slot"
    by (simp add: unat_word_ariths)
  with \<open>unat slot < 2041\<close> show u: "unat (itemPointerOffset slot) = 28 + 4 * unat slot"
    by (simp add: itemPointerOffset_def unat_word_ariths)
  then show "itemPointer p slot = Some (item p (unat slot))"
    using item_in_range [OF assms] by (simp add: itemPointer_def item_def)
qed

text \<open>On a well-formed page \<open>GetTuple\<close> never panics and reads the abstract slot.\<close>

lemma ip_end_nat: "in_zone up ip \<Longrightarrow> unat (ip_Offset ip + ip_Length ip) = unat (ip_Offset ip) + unat (ip_Length ip)"
  by (auto simp: in_zone_def unat_word_ariths)

lemma GetTuple_slots:
  assumes "page_wf p"
  shows "GetTuple p slot =
    Some (if unat slot < nitems p then slots p ! unat slot else None)"
proof (cases "unat slot < nitems p")
  case True
  let ?ip = "item p (unat slot)"
  have z: "live ?ip \<Longrightarrow> in_zone (unat (Upper (Header p))) ?ip"
    using assms True by (simp add: page_wf_def)
  have "\<not> NItems (Header p) \<le> slot" using True by (simp add: nitems_def word_le_nat_alt)
  then have "GetTuple p slot =
      (if live ?ip then map_option Some
        (go_slice p (unat (ip_Offset ?ip)) (unat (ip_Offset ?ip + ip_Length ?ip))) else Some None)"
    by (simp add: GetTuple_def itemPointer_nat(2) [OF assms True] live_def)
  also have "\<dots> = Some (slot_tuple p (unat slot))"
    using z page_wf_bounds(1) [OF assms]
    by (auto simp: slot_tuple_def Let_def ip_end_nat go_slice_Some in_zone_def)
  finally show ?thesis using True by (simp add: slots_def)
next
  case False
  then show ?thesis
    by (simp add: GetTuple_def nitems_def word_le_nat_alt)
qed


section \<open>What the primitive writes change\<close>

lemma item_window: "item p s = get32 (window (28 + 4 * s) 4 p)"
  by (simp add: item_def get_window)

lemma item_writeHeader [frame_simps]: "25 \<le> length p \<Longrightarrow> item (writeHeader h p) s = item p s"
  by (simp add: item_window window_writeHeader)

lemma item_set [frame_simps]:
  assumes "28 + 4 * t + 4 \<le> length p"
  shows "item (overwrite (28 + 4 * t) (le32 w) p) s = (if s = t then w else item p s)"
proof -
  consider "s = t" | "s < t" | "t < s" by linarith
  then show ?thesis
    using assms by cases (auto simp: item_window window_overwrite_before window_overwrite_after)
qed

lemma item_overwrite [frame_simps]:
  "28 + 4 * s + 4 \<le> i \<Longrightarrow> i + length bs \<le> length p \<Longrightarrow> item (overwrite i bs p) s = item p s"
  by (simp add: item_window window_overwrite_before)

text \<open>
  One step shared by \<open>InsertTuple\<close> and \<open>InsertTupleAt\<close>: a tuple is stored just below \<open>Upper\<close>, slot
  \<open>t\<close> is pointed at it, and the header is written with \<open>n\<close> items.
\<close>

definition place :: "nat \<Rightarrow> bytes \<Rightarrow> PageHeader \<Rightarrow> page \<Rightarrow> page" where
  "place t data h p = writeHeader h
     (overwrite (28 + 4 * t) (le32 (NewItemPointer (Upper h) (word_of_nat (length data)) ItemFlagNormal))
       (overwrite (unat (Upper h)) data p))"

definition placeable :: "nat \<Rightarrow> bytes \<Rightarrow> PageHeader \<Rightarrow> page \<Rightarrow> bool" where
  "placeable t data h p \<longleftrightarrow> page_wf p \<and> unat (Upper h) + length data = unat (Upper (Header p))
     \<and> 28 + 4 * t + 4 \<le> unat (Upper h)"

lemma place_bounds:
  assumes "placeable t data h p"
  shows "length p = PageSize" "unat (Upper h) + length data \<le> PageSize" "length data \<le> 8192"
    "28 + 4 * t + 4 \<le> unat (Upper h)" "page_wf p"
    "unat (Upper h) + length data = unat (Upper (Header p))"
  using assms page_wf_bounds [of p] by (auto simp: placeable_def)

lemma Header_place: "placeable t data h p \<Longrightarrow> Header (place t data h p) = h"
  using place_bounds [of t data h p] by (simp add: place_def)

lemma length_place: "placeable t data h p \<Longrightarrow> length (place t data h p) = PageSize"
  using place_bounds [of t data h p] by (simp add: place_def)

lemma item_place:
  assumes "placeable t data h p" and "28 + 4 * s + 4 \<le> unat (Upper h)"
  shows "item (place t data h p) s =
    (if s = t then NewItemPointer (Upper h) (word_of_nat (length data)) ItemFlagNormal else item p s)"
  using place_bounds [OF assms(1)] assms(2) by (simp add: place_def frame_simps)

lemma window_place_old:
  assumes "placeable t data h p" and "unat (Upper (Header p)) \<le> i"
  shows "window i n (place t data h p) = window i n p"
  using place_bounds [OF assms(1)] assms(2)
  by (simp add: place_def frame_simps window_overwrite_after)

lemma window_place_new:
  "placeable t data h p \<Longrightarrow> window (unat (Upper h)) (length data) (place t data h p) = data"
  using place_bounds [of t data h p] by (simp add: place_def frame_simps window_overwrite_after)

lemma new_pointer:
  assumes "placeable t data h p"
  defines "ip \<equiv> NewItemPointer (Upper h) (word_of_nat (length data)) ItemFlagNormal"
  shows "live ip" "unat (ip_Offset ip) = unat (Upper h)" "unat (ip_Length ip) = length data"
  using place_bounds [OF assms(1)]
  by (simp_all add: ip_def live_def ip_New_small ItemFlagNormal_def ItemFlagDead_def unat_of_nat_u16)

lemma slot_tuple_place:
  assumes pl: "placeable t data h p" and "28 + 4 * s + 4 \<le> unat (Upper h)" "s \<noteq> t \<Longrightarrow> s < nitems p"
  shows "slot_tuple (place t data h p) s = (if s = t then Some data else slot_tuple p s)"
proof (cases "s = t")
  case True
  then show ?thesis
    using new_pointer [OF pl] pl assms(2) by (simp add: slot_tuple_def item_place window_place_new)
next
  case False
  then have "live (item p s) \<Longrightarrow> unat (Upper (Header p)) \<le> unat (ip_Offset (item p s))"
    using place_bounds(5) [OF pl] assms(3) by (auto simp: page_wf_def in_zone_def)
  with False show ?thesis
    using pl assms(2) by (auto simp: slot_tuple_def item_place Let_def window_place_old)
qed

lemma page_wf_place:
  assumes pl: "placeable t data h p" and h: "hdr_wf h" and n: "unat (NItems h) = max (nitems p) (Suc t)"
    and gap: "\<And>s. nitems p \<le> s \<Longrightarrow> s < t \<Longrightarrow> \<not> live (item p s)"
  shows "page_wf (place t data h p)"
proof -
  let ?q = "place t data h p"
  note wf = place_bounds(5) [OF pl] and up = place_bounds(6) [OF pl]
  have nq: "nitems ?q = max (nitems p) (Suc t)"
    using n by (simp add: nitems_def Header_place [OF pl])
  have rng: "28 + 4 * s + 4 \<le> unat (Upper h)" if "s < nitems ?q" for s
    using h that nq n by (auto simp: hdr_wf_def)
  have old: "in_zone (unat (Upper h)) (item p s)" if "live (item p s)" "s < nitems ?q" "s \<noteq> t" for s
  proof -
    have "s < nitems p" using that nq gap [of s] by force
    then show ?thesis using wf that up by (auto simp: page_wf_def in_zone_def)
  qed
  have zone: "in_zone (unat (Upper h)) (item ?q s)" if "s < nitems ?q" "live (item ?q s)" for s
    using that rng [of s] old [of s] new_pointer [OF pl] place_bounds [OF pl]
    by (cases "s = t") (auto simp: item_place [OF pl] in_zone_def)
  have "(\<Sum>s < nitems ?q. live_len (item ?q s))
      \<le> (\<Sum>s < nitems ?q. (if s = t then length data else 0) + (if s < nitems p then live_len (item p s) else 0))"
  proof (rule sum_mono)
    fix s assume "s \<in> {..< nitems ?q}"
    then show "live_len (item ?q s)
        \<le> (if s = t then length data else 0) + (if s < nitems p then live_len (item p s) else 0)"
      using rng [of s] gap [of s] nq new_pointer [OF pl] by (auto simp: item_place [OF pl] live_len_def)
  qed
  also have "\<dots> = length data + (\<Sum>s < nitems p. live_len (item p s))"
  proof -
    have "(\<Sum>s < nitems ?q. if s < nitems p then live_len (item p s) else 0)
        = (\<Sum>s < nitems p. live_len (item p s))"
      by (rule sum.mono_neutral_cong_right) (auto simp: nq)
    moreover have "(\<Sum>s < nitems ?q. if s = t then length data else 0) = length data"
      using nq by (simp add: less_max_iff_disj)
    ultimately show ?thesis by (simp add: sum.distrib)
  qed
  also have "\<dots> \<le> PageSize - unat (Upper h)"
    using wf up place_bounds(2) [OF pl] by (auto simp: page_wf_def)
  finally show ?thesis
    using zone h by (simp add: page_wf_def Header_place [OF pl] length_place [OF pl])
qed

section \<open>InsertTuple\<close>

lemma unat_sub_u16: "unat b \<le> unat a \<Longrightarrow> unat (a - b :: u16) = unat a - unat b"
  by (simp add: unat_sub word_le_nat_alt)

lemma unat_Page_FreeSpace: "page_wf p \<Longrightarrow> unat (Page_FreeSpace p) = room p"
  by (auto simp: Page_FreeSpace_def Let_def room_def word_le_nat_alt unat_sub_u16)

lemma unat_needed: "n \<le> 16383 \<Longrightarrow> unat (word_of_nat n + 4 :: u16) = n + 4"
  by (simp add: unat_word_ariths unat_of_nat_u16)

lemma InsertTuple_full:
  assumes "page_wf p" and "room p < length data + 4"
  shows "InsertTuple p data = Some (p, Inl ErrPageFull)"
  using assms unat_needed [of "length data"]
  by (auto simp: InsertTuple_def word_less_nat_alt unat_Page_FreeSpace)

definition inserted :: "bytes \<Rightarrow> PageHeader \<Rightarrow> PageHeader" where
  "inserted data h = h\<lparr>Upper := Upper h - word_of_nat (length data), Lower := Lower h + 4,
     NItems := NItems h + 1, FreeSpace := (Upper h - word_of_nat (length data)) - (Lower h + 4)\<rparr>"

lemma inserted_header:
  assumes "page_wf p" and "length data + 4 \<le> room p"
  defines "h \<equiv> inserted data (Header p)"
  shows "placeable (nitems p) data h p" "hdr_wf h" "unat (NItems h) = Suc (nitems p)"
    "unat (Upper h) = unat (Upper (Header p)) - length data"
    "unat (Lower h) = unat (Lower (Header p)) + 4"
proof -
  note b = page_wf_bounds [OF assms(1)]
  have len: "length data + 4 \<le> unat (Upper (Header p)) - unat (Lower (Header p))"
    using assms(2) by (simp add: room_def)
  with b have lw: "unat (word_of_nat (length data) :: u16) = length data"
    by (intro unat_of_nat_u16) linarith
  show U: "unat (Upper h) = unat (Upper (Header p)) - length data"
    using len b lw by (simp add: h_def inserted_def unat_sub_u16)
  show L: "unat (Lower h) = unat (Lower (Header p)) + 4"
    using len b by (simp add: h_def inserted_def unat_word_ariths)
  show N: "unat (NItems h) = Suc (nitems p)"
    using b by (simp add: h_def inserted_def unat_word_ariths nitems_def)
  show "placeable (nitems p) data h p"
    using U len b assms(1) by (simp add: placeable_def)
  have "FreeSpace h = Upper h - Lower h" by (simp add: h_def inserted_def)
  then show "hdr_wf h"
    using U L N len b by (auto simp: hdr_wf_def)
qed

lemma InsertTuple_fits:
  assumes "page_wf p" and "length data + 4 \<le> room p"
  shows "InsertTuple p data =
    Some (place (nitems p) data (inserted data (Header p)) p, Inr (word_of_nat (nitems p)))"
proof -
  let ?h = "inserted data (Header p)"
  note b = page_wf_bounds [OF assms(1)] and i = inserted_header [OF assms]
  have len: "length data \<le> 8160" using assms(2) b by (simp add: room_def)
  have off: "Upper (Header p) - word_of_nat (length data) = Upper ?h"
    by (simp add: inserted_def)
  have le: "Upper ?h \<le> Upper (Header p)" using i(4) by (simp add: word_le_nat_alt)
  have free: "\<not> Page_FreeSpace p < word_of_nat (length data) + 4"
    using assms unat_needed [of "length data"] len
    by (simp add: word_less_nat_alt unat_Page_FreeSpace)
  have c: "copy_at (unat (Upper ?h)) data p = Some (overwrite (unat (Upper ?h)) data p)"
    using place_bounds [OF i(1)] by (simp add: copy_at_Some)
  have lw: "unat (Lower (Header p)) = 28 + 4 * nitems p" by (rule b(5))
  have w: "put_at (28 + 4 * nitems p) (le32 ip) (overwrite (unat (Upper ?h)) data p)
      = Some (overwrite (28 + 4 * nitems p) (le32 ip) (overwrite (unat (Upper ?h)) data p))" for ip
    using place_bounds [OF i(1)] by (simp add: put_at_Some)
  have n: "NItems (Header p) \<noteq> 0xFFFF" using b(2) by (auto simp: nitems_def)
  have ul: "\<not> Upper ?h < Lower ?h" using i(2) by (simp add: hdr_wf_def word_less_nat_alt)
  have s: "NItems (Header p) = word_of_nat (nitems p)" by (simp add: nitems_def)
  show ?thesis
    unfolding InsertTuple_def Let_def off
    using len free le c w n ul
    by (simp add: lw place_def inserted_def s [symmetric])
qed

lemma InsertTuple_post:
  assumes "page_wf p" and "length data + 4 \<le> room p"
  defines "q \<equiv> place (nitems p) data (inserted data (Header p)) p"
  shows "page_wf q" "slots q = slots p @ [Some data]" "room q = room p - (length data + 4)"
    "LSN (Header q) = LSN (Header p)" "PageType (Header q) = PageType (Header p)"
proof -
  note i = inserted_header [OF assms(1,2)]
  show "page_wf q"
    unfolding q_def by (rule page_wf_place [OF i(1,2)]) (simp_all add: i(3))
  have nq: "nitems q = Suc (nitems p)" using i(1,3) by (simp add: q_def nitems_def Header_place)
  have st: "slot_tuple q s = (if s = nitems p then Some data else slot_tuple p s)"
    if "s \<le> nitems p" for s
    unfolding q_def using that i(1) place_bounds(4) [OF i(1)] by (intro slot_tuple_place) auto
  show "slots q = slots p @ [Some data]"
    by (simp add: slots_def nq st)
  show "room q = room p - (length data + 4)"
    using i(1,4,5) by (simp add: q_def room_def Header_place)
  show "LSN (Header q) = LSN (Header p)" "PageType (Header q) = PageType (Header p)"
    using i(1) by (simp_all add: q_def Header_place inserted_def)
qed

text \<open>
  C19: Inserting a tuple into a well-formed page never panics. It succeeds exactly when the tuple
  and its 4-byte item pointer fit into the free space; then the page stays well-formed, the tuple
  is appended as a new slot (the returned slot number), every older slot keeps its tuple, and the
  free space shrinks by the tuple plus its pointer. Otherwise the page is unchanged and the error
  is \<open>ErrPageFull\<close>.
\<close>

theorem InsertTuple_spec:
  assumes "page_wf p"
  shows "case InsertTuple p data of
      None \<Rightarrow> False
    | Some (q, Inl e) \<Rightarrow> room p < length data + 4 \<and> q = p \<and> e = ErrPageFull
    | Some (q, Inr slot) \<Rightarrow> length data + 4 \<le> room p \<and> unat slot = nitems p
        \<and> page_wf q \<and> slots q = slots p @ [Some data] \<and> room q = room p - (length data + 4)"
proof (cases "length data + 4 \<le> room p")
  case True
  then show ?thesis
    using InsertTuple_post [OF assms True] page_wf_bounds(2) [OF assms]
    by (simp add: InsertTuple_fits [OF assms True] unat_of_nat_u16)
next
  case False
  then show ?thesis by (simp add: InsertTuple_full [OF assms])
qed

theorem InsertTuple_spec_witness:
  "\<exists>q slot. InsertTuple (Init 1) [7, 8, 9] = Some (q, Inr slot) \<and> page_wf q
     \<and> slots q = [Some [7, 8, 9]] \<and> room q = 8157 \<and> slot = 0"
proof -
  note spec = InsertTuple_spec [OF page_wf_Init, of 1 "[7, 8, 9]"]
  obtain q r where e: "InsertTuple (Init 1) [7, 8, 9] = Some (q, r)"
    using spec by (cases "InsertTuple (Init 1) [7, 8, 9]") auto
  show ?thesis
    using spec by (cases r) (auto simp: e nitems_def unat_eq_0)
qed

section \<open>MarkDead\<close>

lemma page_wf_set_dead:
  assumes "page_wf p" "t < nitems p" "\<not> live w"
  defines "q \<equiv> overwrite (28 + 4 * t) (le32 w) p"
  shows "page_wf q" "slots q = (slots p)[t := None]" "Header q = Header p" "room q = room p"
proof -
  note b = page_wf_bounds [OF assms(1)]
  have r: "28 + 4 * t + 4 \<le> length p" using item_in_range [OF assms(1,2)] by simp
  show h: "Header q = Header p" using r by (simp add: q_def Header_overwrite)
  then show "room q = room p" by (simp add: room_def)
  have nq: "nitems q = nitems p" by (simp add: nitems_def h)
  have it: "item q s = (if s = t then w else item p s)" for s
    using r by (simp add: q_def item_set)
  have lq: "length q = PageSize" using b r by (simp add: q_def)
  have "(\<Sum>s < nitems p. live_len (item q s)) \<le> (\<Sum>s < nitems p. live_len (item p s))"
    using assms(3) by (intro sum_mono) (auto simp: it live_len_def)
  then show "page_wf q"
    using assms(1,3) lq by (auto simp: page_wf_def h nq it)
  have st: "slot_tuple q s = (if s = t then None else slot_tuple p s)" if "s < nitems p" for s
  proof (cases "s \<noteq> t \<and> live (item p s)")
    case True
    then have "28 + 4 * t + 4 \<le> unat (ip_Offset (item p s))"
      using assms(1) that item_in_range(1) [OF assms(1,2)] by (auto simp: page_wf_def in_zone_def)
    with True r show ?thesis
      by (simp add: slot_tuple_def it) (simp add: q_def window_overwrite_after)
  next
    case False
    then show ?thesis using assms(3) by (auto simp: slot_tuple_def it)
  qed
  show "slots q = (slots p)[t := None]"
    by (rule nth_equalityI) (auto simp: slots_def nq st nth_list_update)
qed

lemma MarkDead_eq:
  assumes "page_wf p"
  shows "MarkDead p slot = Some (if unat slot < nitems p
    then overwrite (28 + 4 * unat slot) (le32 (NewItemPointer (ip_Offset (item p (unat slot)))
      (ip_Length (item p (unat slot))) ItemFlagDead)) p else p)"
proof (cases "unat slot < nitems p")
  case True
  then have "\<not> NItems (Header p) \<le> slot" by (simp add: nitems_def word_le_nat_alt)
  with True show ?thesis
    using itemPointer_nat [OF assms True] item_in_range [OF assms True]
    by (simp add: MarkDead_def put_at_Some)
next
  case False
  then show ?thesis by (simp add: MarkDead_def nitems_def word_le_nat_alt)
qed

lemma dead_pointer: "\<not> live (NewItemPointer a b ItemFlagDead)"
  by (simp add: live_def ip_New_small ItemFlagDead_def)

text \<open>
  Marking a slot dead never panics on a well-formed page, keeps the page well-formed, empties
  exactly that slot (nothing changes for a slot number that does not exist) and keeps every other
  tuple and the header.
\<close>

theorem MarkDead_spec:
  assumes "page_wf p"
  shows "\<exists>q. MarkDead p slot = Some q \<and> page_wf q \<and> Header q = Header p
    \<and> slots q = (if unat slot < nitems p then (slots p)[unat slot := None] else slots p)
    \<and> GetTuple q slot = Some None"
proof (cases "unat slot < nitems p")
  case True
  note d = page_wf_set_dead [OF assms True dead_pointer]
  from True show ?thesis
    by (simp add: MarkDead_eq [OF assms] d GetTuple_slots [OF d(1)])
next
  case False
  then show ?thesis
    by (simp add: MarkDead_eq [OF assms] assms GetTuple_slots)
qed

theorem MarkDead_spec_witness:
  "\<exists>q. MarkDead (Init 1) 3 = Some q \<and> page_wf q \<and> slots q = [] \<and> GetTuple q 3 = Some None"
  using MarkDead_spec [OF page_wf_Init, of 1 3] by (auto simp: nitems_def)

section \<open>The contract of a tuple page, and Compact\<close>

text \<open>
  What a client that only fills a page relies on: \<open>insert\<close> succeeds exactly when the tuple and
  \<open>overhead\<close> more bytes fit into the \<open>space\<close> that is left, appends a slot and uses up that space.
\<close>

locale tuple_page =
  fixes invar :: "'p \<Rightarrow> bool"
    and insert_tuple :: "'p \<Rightarrow> 't \<Rightarrow> 'p option"
    and content :: "'p \<Rightarrow> 't option list"
    and space :: "'p \<Rightarrow> nat"
    and cost :: "'t \<Rightarrow> nat"
  assumes insert_iff: "invar p \<Longrightarrow> (insert_tuple p d = None) = (space p < cost d)"
    and insert_invar: "invar p \<Longrightarrow> insert_tuple p d = Some q \<Longrightarrow> invar q"
    and insert_content: "invar p \<Longrightarrow> insert_tuple p d = Some q \<Longrightarrow> content q = content p @ [Some d]"
    and insert_space: "invar p \<Longrightarrow> insert_tuple p d = Some q \<Longrightarrow> space q = space p - cost d"
begin

fun insert_all :: "'p \<Rightarrow> 't list \<Rightarrow> 'p option" where
  "insert_all p [] = Some p"
| "insert_all p (d # ds) = Option.bind (insert_tuple p d) (\<lambda>q. insert_all q ds)"

lemma insert_all_fits:
  "invar p \<Longrightarrow> sum_list (map cost ds) \<le> space p \<Longrightarrow>
    \<exists>q. insert_all p ds = Some q \<and> invar q \<and> content q = content p @ map Some ds
      \<and> space q = space p - sum_list (map cost ds)"
proof (induction ds arbitrary: p)
  case Nil
  then show ?case by simp
next
  case (Cons d ds)
  obtain q where q: "insert_tuple p d = Some q"
    using Cons.prems insert_iff [of p d] by (cases "insert_tuple p d") auto
  note laws = insert_invar [OF Cons.prems(1) q] insert_content [OF Cons.prems(1) q]
    insert_space [OF Cons.prems(1) q]
  have "sum_list (map cost ds) \<le> space q" using Cons.prems(2) laws(3) by simp
  then show ?case
    using Cons.IH [OF laws(1)] q laws by auto
qed

end

text \<open>\<open>InsertTuple\<close> as the code's callers use it: the page on success, nothing on an error.\<close>

definition insert_ok :: "page \<Rightarrow> bytes \<Rightarrow> page option" where
  "insert_ok p data = (case InsertTuple p data of Some (q, Inr _) \<Rightarrow> Some q | _ \<Rightarrow> None)"

lemma insert_ok_eq:
  "page_wf p \<Longrightarrow> insert_ok p data =
     (if length data + 4 \<le> room p then Some (place (nitems p) data (inserted data (Header p)) p) else None)"
  by (simp add: insert_ok_def InsertTuple_fits InsertTuple_full)

interpretation tp: tuple_page page_wf insert_ok slots room "\<lambda>d. length d + 4"
  by unfold_locales (auto simp: insert_ok_eq InsertTuple_post split: if_splits)

lemma live_slots_cost:
  assumes "page_wf p"
  shows "sum_list (map (\<lambda>d. length d + 4) (List.map_filter id (slots p))) \<le> 8164"
proof -
  have len: "length d = live_len (item p s)" if "slot_tuple p s = Some d" "s < nitems p" for s d
    using that assms page_wf_bounds(1) [OF assms]
    by (auto simp: slot_tuple_def Let_def live_len_def page_wf_def in_zone_def split: if_splits)
  have "sum_list (map (\<lambda>d. length d + 4) (List.map_filter id (map (slot_tuple p) [0 ..< n])))
      \<le> (\<Sum>s < n. live_len (item p s)) + 4 * n" if "n \<le> nitems p" for n
    using that
  proof (induction n)
    case 0
    then show ?case by (simp add: List.map_filter_def)
  next
    case (Suc n)
    then show ?case
      using len [of n] by (cases "slot_tuple p n") (auto simp: List.map_filter_def)
  qed
  from this [of "nitems p"] show ?thesis
    using assms page_wf_bounds [OF assms] by (auto simp: slots_def page_wf_def)
qed

lemma compact_loop_insert_all:
  assumes "page_wf p" "page_wf tmp" "\<forall>s \<in> set ss. unat s < nitems p"
    "sum_list (map (\<lambda>d. length d + 4) (List.map_filter (\<lambda>s. slots p ! unat s) ss)) \<le> room tmp"
  shows "compact_loop p ss tmp = tp.insert_all tmp (List.map_filter (\<lambda>s. slots p ! unat s) ss)"
  using assms(2-4)
proof (induction ss arbitrary: tmp)
  case Nil
  then show ?case by (simp add: List.map_filter_def)
next
  case (Cons s ss)
  show ?case
  proof (cases "slots p ! unat s")
    case None
    then show ?thesis
      using Cons by (simp add: GetTuple_slots [OF assms(1)] List.map_filter_def)
  next
    case (Some d)
    then have fit: "length d + 4 \<le> room tmp"
      using Cons.prems(3) by (simp add: List.map_filter_def)
    note post = InsertTuple_post [OF Cons.prems(1) fit]
    have "compact_loop p ss (place (nitems tmp) d (inserted d (Header tmp)) tmp)
        = tp.insert_all (place (nitems tmp) d (inserted d (Header tmp)) tmp)
            (List.map_filter (\<lambda>s. slots p ! unat s) ss)"
      using Cons.prems Some post by (intro Cons.IH) (auto simp: List.map_filter_def)
    then show ?thesis
      using Cons.prems Some fit
      by (simp add: GetTuple_slots [OF assms(1)] List.map_filter_def InsertTuple_fits insert_ok_eq)
  qed
qed

lemma insert_all_PageType:
  "page_wf p \<Longrightarrow> tp.insert_all p ds = Some q \<Longrightarrow> PageType (Header q) = PageType (Header p)"
proof (induction ds arbitrary: p)
  case (Cons d ds)
  then have fit: "length d + 4 \<le> room p"
    and q: "tp.insert_all (place (nitems p) d (inserted d (Header p)) p) ds = Some q"
    by (auto simp: insert_ok_eq split: Option.bind_splits if_splits)
  note post = InsertTuple_post [OF Cons.prems(1) fit]
  show ?case using Cons.IH [OF post(1) q] post(5) by simp
qed simp

lemma map_filter_id: "List.map_filter f xs = List.map_filter id (map f xs)"
  by (induction xs) (auto simp: List.map_filter_def)

text \<open>Changing only the LSN, the flags or the checksum of the header changes no slot.\<close>

lemma header_only_change:
  assumes "page_wf p" "length q = length p" "drop 28 q = drop 28 p"
    "Lower (Header q) = Lower (Header p)" "Upper (Header q) = Upper (Header p)"
    "NItems (Header q) = NItems (Header p)" "FreeSpace (Header q) = FreeSpace (Header p)"
  shows "page_wf q" "slots q = slots p" "room q = room p"
proof -
  have w: "window i n q = window i n p" if "28 \<le> i" for i n
    using assms(3) that by (metis drop_drop le_add_diff_inverse2 window_def)
  have it: "item q s = item p s" for s by (simp add: item_window w)
  have nq: "nitems q = nitems p" by (simp add: nitems_def assms)
  have off: "28 \<le> unat (ip_Offset (item p s))" if "s < nitems p" "live (item p s)" for s
    using that assms(1) page_wf_bounds(3) [OF assms(1)] by (force simp: page_wf_def in_zone_def)
  have "slot_tuple q s = slot_tuple p s" if "s < nitems p" for s
    using off [OF that] by (auto simp: slot_tuple_def it w Let_def)
  then show "slots q = slots p" by (simp add: slots_def nq)
  show "page_wf q" using assms by (simp add: page_wf_def hdr_wf_def nq it)
  show "room q = room p" by (simp add: room_def assms)
qed

lemma Header_SetLSN: "25 \<le> length p \<Longrightarrow> Header (SetLSN l p) = (Header p)\<lparr>LSN := l\<rparr>"
proof -
  assume len: "25 \<le> length p"
  have "window j n (SetLSN l p) = window j n p" if "8 \<le> j" for j n
    using len that by (simp add: SetLSN_def window_overwrite_after)
  moreover have "SetLSN l p ! 20 = p ! 20"
    using len by (simp add: SetLSN_def overwrite_def nth_append)
  moreover have "window 0 8 (SetLSN l p) = le64 l"
    using len by (simp add: SetLSN_def)
  ultimately show ?thesis
    unfolding Header_def get_window by simp
qed

lemma stamp_page:
  fixes l :: u64 and f :: u16
  assumes "page_wf tmp"
  defines "t \<equiv> SetLSN l tmp"
  defines "q \<equiv> writeHeader ((Header t)\<lparr>Flags := f\<rparr>) t"
  shows "page_wf q" "slots q = slots tmp" "room q = room tmp"
    "Header q = (Header tmp)\<lparr>LSN := l, Flags := f\<rparr>"
proof -
  have lt: "length tmp = PageSize" using assms(1) by (simp add: page_wf_def)
  then have lent: "length t = PageSize" by (simp add: t_def SetLSN_def)
  have ht: "Header t = (Header tmp)\<lparr>LSN := l\<rparr>"
    using lt by (simp add: t_def Header_SetLSN)
  show hq: "Header q = (Header tmp)\<lparr>LSN := l, Flags := f\<rparr>"
    using lent by (simp add: q_def ht)
  have lq: "length q = length tmp" using lt lent by (simp add: q_def)
  have "drop 28 q = drop 28 tmp"
    using lt lent by (simp add: q_def writeHeader_eq t_def SetLSN_def overwrite_def)
  then show "page_wf q" "slots q = slots tmp" "room q = room tmp"
    using header_only_change [OF assms(1) lq] by (simp_all add: hq)
qed

text \<open>
  C20: \<open>Compact\<close> never panics on a well-formed page and none of its inserts into the fresh page
  fails: the result is well-formed, holds exactly the live tuples in their old order, keeps LSN,
  flags and page type, and reclaims all space that dead slots and dead tuples took.
\<close>

theorem Compact_spec:
  assumes "page_wf p"
  shows "\<exists>q. Compact p = Some q \<and> page_wf q
    \<and> slots q = map Some (List.map_filter id (slots p))
    \<and> LSN (Header q) = LSN (Header p) \<and> Flags (Header q) = Flags (Header p)
    \<and> PageType (Header q) = PageType (Header p)
    \<and> room q = 8164 - sum_list (map (\<lambda>d. length d + 4) (List.map_filter id (slots p)))"
proof -
  let ?ds = "List.map_filter id (slots p)" and ?ss = "map word_of_nat [0 ..< nitems p] :: u16 list"
  have small: "unat (word_of_nat s :: u16) = s" if "s < nitems p" for s
    using that page_wf_bounds(2) [OF assms] by (intro unat_of_nat_u16) simp
  have ds: "List.map_filter (\<lambda>s. slots p ! unat s) ?ss = ?ds"
  proof -
    have "map (\<lambda>s. slots p ! unat s) ?ss = slots p"
      by (rule nth_equalityI) (auto simp: small)
    then show ?thesis
      by (subst map_filter_id) simp
  qed
  have "compact_loop p ?ss (Init (PageType (Header p))) = tp.insert_all (Init (PageType (Header p))) ?ds"
    using compact_loop_insert_all [OF assms page_wf_Init, of ?ss] live_slots_cost [OF assms]
    by (auto simp: ds small)
  moreover obtain tmp where tmp: "tp.insert_all (Init (PageType (Header p))) ?ds = Some tmp"
      "page_wf tmp" "slots tmp = map Some ?ds"
      "room tmp = 8164 - sum_list (map (\<lambda>d. length d + 4) ?ds)"
    using tp.insert_all_fits [OF page_wf_Init, of ?ds] live_slots_cost [OF assms] by force
  ultimately have "Compact p = Some (let t = SetLSN (LSN (Header p)) tmp
      in writeHeader ((Header t)\<lparr>Flags := Flags (Header p)\<rparr>) t)"
    by (simp add: Compact_def nitems_def Let_def)
  moreover have "PageType (Header tmp) = PageType (Header p)"
    using insert_all_PageType [OF page_wf_Init tmp(1)] by simp
  ultimately show ?thesis
    using stamp_page [OF tmp(2)] tmp by (simp add: Let_def)
qed

lemma sample_page: "\<exists>p. page_wf p \<and> slots p = [None, Some [5, 6]] \<and> PageType (Header p) = 1"
proof -
  define a where "a = place (nitems (Init 1)) [4] (inserted [4] (Header (Init 1))) (Init 1)"
  have a: "page_wf a" "slots a = [Some [4]]" "room a = 8159" "PageType (Header a) = 1"
    using InsertTuple_post [OF page_wf_Init, of "[4]" 1] by (simp_all add: a_def)
  define b where "b = place (nitems a) [5, 6] (inserted [5, 6] (Header a)) a"
  have b: "page_wf b" "slots b = [Some [4], Some [5, 6]]" "PageType (Header b) = 1"
    using InsertTuple_post [OF a(1), of "[5, 6]"] a by (simp_all add: b_def)
  have "0 < nitems b" using length_slots [of b] b(2) by simp
  from page_wf_set_dead [OF b(1) this dead_pointer] b show ?thesis by fastforce
qed

theorem Compact_spec_witness:
  "\<exists>p q. slots p = [None, Some [5, 6]] \<and> Compact p = Some q \<and> page_wf q \<and> slots q = [Some [5, 6]]
     \<and> room q = 8158"
proof -
  obtain p where p: "page_wf p" "slots p = [None, Some [5, 6]]" using sample_page by blast
  from Compact_spec [OF p(1)] p(2)
  have "\<exists>q. Compact p = Some q \<and> page_wf q \<and> slots q = [Some [5, 6]] \<and> room q = 8158"
    by (auto simp: List.map_filter_def)
  with p(2) show ?thesis by blast
qed

section \<open>Checksums\<close>

lemma overwrite_overwrite: "length a = length b \<Longrightarrow> i + length a \<le> length p \<Longrightarrow>
    overwrite i a (overwrite i b p) = overwrite i a p"
  by (simp add: overwrite_def)

text \<open>
  A page written with \<open>SetChecksum\<close> verifies, \<open>SetChecksum\<close> changes nothing but the checksum
  field, and changing the stored checksum value is always detected.
\<close>

theorem SetChecksum_VerifyChecksum:
  assumes "length p = PageSize"
  shows "VerifyChecksum (SetChecksum p)
    \<and> take 8 (SetChecksum p) = take 8 p \<and> drop 12 (SetChecksum p) = drop 12 p
    \<and> (\<forall>c. VerifyChecksum (overwrite 8 (le32 c) p) = (c = ComputeChecksum p))"
proof -
  have comp: "ComputeChecksum (overwrite 8 (le32 c) p) = ComputeChecksum p" for c
    using assms by (simp add: ComputeChecksum_def overwrite_overwrite)
  have get: "get32 (drop 8 (overwrite 8 (le32 c) p)) = c" for c
    using assms by (simp add: overwrite_def)
  have "take 8 (SetChecksum p) = take 8 p" "drop 12 (SetChecksum p) = drop 12 p"
    using assms by (simp_all add: SetChecksum_def overwrite_def)
  then show ?thesis
    by (simp add: VerifyChecksum_def SetChecksum_def comp get)
qed

theorem SetChecksum_VerifyChecksum_witness: "VerifyChecksum (SetChecksum (Init 2))"
  using SetChecksum_VerifyChecksum [of "Init 2"] by simp

section \<open>InsertTupleAt: redo at a fixed slot\<close>

fun dead_run :: "nat \<Rightarrow> nat \<Rightarrow> page \<Rightarrow> page" where
  "dead_run m 0 p = p"
| "dead_run m (Suc k) p =
     dead_run (Suc m) k (overwrite (28 + 4 * m) (le32 (NewItemPointer 0 0 ItemFlagDead)) p)"

lemma fill_gap_eq:
  assumes "unat (Lower h) = 28 + 4 * m" "unat (NItems h) = m" "28 + 4 * (m + k) \<le> length p"
    "length p = PageSize"
  shows "fill_gap k p h =
    Some (dead_run m k p, h\<lparr>Lower := Lower h + 4 * word_of_nat k, NItems := NItems h + word_of_nat k\<rparr>)"
  using assms
proof (induction k arbitrary: m p h)
  case (Suc k)
  let ?h = "h\<lparr>Lower := Lower h + 4, NItems := NItems h + 1\<rparr>"
  and ?p = "overwrite (28 + 4 * m) (le32 (NewItemPointer 0 0 ItemFlagDead)) p"
  have "fill_gap k ?p ?h = Some (dead_run (Suc m) k ?p,
      ?h\<lparr>Lower := Lower ?h + 4 * word_of_nat k, NItems := NItems ?h + word_of_nat k\<rparr>)"
    using Suc.prems by (intro Suc.IH) (simp_all add: unat_word_ariths)
  then show ?case
    using Suc.prems by (simp add: put_at_Some algebra_simps)
qed simp

lemma dead_run_all:
  "28 + 4 * (m + k) \<le> length p \<Longrightarrow>
     length (dead_run m k p) = length p \<and> Header (dead_run m k p) = Header p
     \<and> (\<forall>s. item (dead_run m k p) s =
          (if m \<le> s \<and> s < m + k then NewItemPointer 0 0 ItemFlagDead else item p s))
     \<and> (\<forall>i n. 28 + 4 * (m + k) \<le> i \<longrightarrow> window i n (dead_run m k p) = window i n p)"
proof (induction k arbitrary: m p)
  case (Suc k)
  let ?p = "overwrite (28 + 4 * m) (le32 (NewItemPointer 0 0 ItemFlagDead)) p"
  have "28 + 4 * (Suc m + k) \<le> length ?p" using Suc.prems by simp
  note IH = Suc.IH [OF this]
  show ?case
    using IH Suc.prems by (auto simp: Header_overwrite item_set window_overwrite_after)
qed auto

lemmas dead_run_facts =
  dead_run_all [THEN conjunct1] dead_run_all [THEN conjunct2, THEN conjunct1]
  dead_run_all [THEN conjunct2, THEN conjunct2, THEN conjunct1, rule_format]
  dead_run_all [THEN conjunct2, THEN conjunct2, THEN conjunct2, rule_format]

lemma dead_run_page:
  assumes "page_wf p" "28 + 4 * (nitems p + k) \<le> unat (Upper (Header p))"
  defines "q \<equiv> dead_run (nitems p) k p"
  shows "page_wf q" "slots q = slots p" "nitems q = nitems p" "Header q = Header p"
    "nitems p \<le> s \<Longrightarrow> s < nitems p + k \<Longrightarrow> \<not> live (item q s)"
proof -
  note b = page_wf_bounds [OF assms(1)]
  have len: "28 + 4 * (nitems p + k) \<le> length p" using assms(2) b by linarith
  note f = dead_run_facts [OF len]
  show h: "Header q = Header p" by (simp add: q_def f)
  then show n: "nitems q = nitems p" by (simp add: nitems_def)
  have it: "item q s = item p s" if "s < nitems p" for s using that by (simp add: q_def f)
  show "page_wf q" using assms(1) by (simp add: page_wf_def h n it) (simp add: q_def f)
  have "slot_tuple q s = slot_tuple p s" if "s < nitems p" for s
  proof (cases "live (item p s)")
    case True
    then have "28 + 4 * (nitems p + k) \<le> unat (ip_Offset (item p s))"
      using that assms(1,2) by (auto simp: page_wf_def in_zone_def)
    then show ?thesis using that by (simp add: slot_tuple_def it Let_def) (simp add: q_def f)
  qed (use that in \<open>simp add: slot_tuple_def it\<close>)
  then show "slots q = slots p" by (simp add: slots_def n)
  show "nitems p \<le> s \<Longrightarrow> s < nitems p + k \<Longrightarrow> \<not> live (item q s)"
    by (simp add: q_def f dead_pointer)
qed

text \<open>Two tuples agree up to the deleting transaction (bytes 8 to 16).\<close>

definition same_tuple :: "bytes \<Rightarrow> bytes \<Rightarrow> bool" where
  "same_tuple existing data \<longleftrightarrow> length existing = length data \<and>
     (if length data \<ge> 16 then take 8 existing = take 8 data \<and> drop 16 existing = drop 16 data
      else existing = data)"

lemma same_tuple_refl [simp]: "same_tuple d d"
  by (simp add: same_tuple_def)

lemma already_there_eq:
  assumes "page_wf p" "s < nitems p" "length data \<le> MaxTupleLength"
  shows "already_there p (item p s) data =
    Some (case slots p ! s of None \<Rightarrow> False | Some d \<Rightarrow> same_tuple d data)"
proof (cases "live (item p s)")
  case True
  let ?ip = "item p s"
  have z: "in_zone (unat (Upper (Header p))) ?ip"
    using assms True by (simp add: page_wf_def)
  have d: "slots p ! s = Some (window (unat (ip_Offset ?ip)) (unat (ip_Length ?ip)) p)"
    using assms True by (simp add: slots_def slot_tuple_def Let_def)
  have l: "length (window (unat (ip_Offset ?ip)) (unat (ip_Length ?ip)) p) = unat (ip_Length ?ip)"
    using z page_wf_bounds(1) [OF assms(1)] by (simp add: in_zone_def)
  have e: "(ip_Length ?ip = word_of_nat (length data)) = (unat (ip_Length ?ip) = length data)"
    using assms(3) by (simp add: word_unat_eq_iff unat_of_nat_u16)
  show ?thesis
    using z True page_wf_bounds(1) [OF assms(1)]
    by (auto simp: already_there_def d l e same_tuple_def ip_end_nat go_slice_Some in_zone_def live_def)
next
  case False
  then show ?thesis
    using assms by (simp add: already_there_def live_def slots_def slot_tuple_def)
qed

text \<open>Redo into an existing slot.\<close>

lemma InsertTupleAt_existing:
  assumes wf: "page_wf p" and s: "unat slot < nitems p" and len: "length data \<le> MaxTupleLength"
  defines "h \<equiv> (Header p)\<lparr>Upper := Upper (Header p) - word_of_nat (length data),
     FreeSpace := Upper (Header p) - word_of_nat (length data) - Lower (Header p)\<rparr>"
  shows "InsertTupleAt p slot data =
    Some (case slots p ! unat slot of
        Some d \<Rightarrow> if same_tuple d data then (p, Inr ())
          else if room p < length data then (p, Inl ErrPageFull) else (place (unat slot) data h p, Inr ())
      | None \<Rightarrow> if room p < length data then (p, Inl ErrPageFull) else (place (unat slot) data h p, Inr ()))"
    and "length data \<le> room p \<Longrightarrow> placeable (unat slot) data h p \<and> hdr_wf h
      \<and> unat (NItems h) = nitems p"
proof -
  note b = page_wf_bounds [OF wf]
  have lw: "unat (word_of_nat (length data) :: u16) = length data"
    using len by (simp add: unat_of_nat_u16)
  have pl: "placeable (unat slot) data h p \<and> hdr_wf h \<and> unat (NItems h) = nitems p"
    if "length data \<le> room p"
  proof -
    have "unat (Upper h) = unat (Upper (Header p)) - length data"
      using that b lw by (simp add: h_def room_def unat_sub_u16)
    then show ?thesis
      using that b s wf by (auto simp: placeable_def hdr_wf_def room_def h_def nitems_def)
  qed
  then show "length data \<le> room p \<Longrightarrow> placeable (unat slot) data h p \<and> hdr_wf h
      \<and> unat (NItems h) = nitems p" .
  have free: "(Page_FreeSpace p < word_of_nat (length data)) = (room p < length data)"
    by (simp add: word_less_nat_alt unat_Page_FreeSpace [OF wf] lw)
  have sl: "slot < NItems (Header p)" using s by (simp add: nitems_def word_less_nat_alt)
  have off: "Upper (Header p) - word_of_nat (length data) = Upper h" by (simp add: h_def)
  have w: "Option.bind (copy_at (unat (Upper h)) data p) (\<lambda>p.
      Option.bind (put_at (unat (itemPointerOffset slot))
        (le32 (NewItemPointer (Upper h) (word_of_nat (length data)) ItemFlagNormal)) p) (\<lambda>p.
        Some (writeHeader ((Header q)\<lparr>Upper := Upper h, FreeSpace := Upper h - Lower (Header q)\<rparr>) p, Inr ())))
      = Some (place (unat slot) data h q, Inr ())" if "length data \<le> room p" "q = p" for q
    using place_bounds [of "unat slot" data h p] pl [OF that(1)] itemPointer_nat(1) [OF wf s] that(2)
    by (simp add: copy_at_Some put_at_Some place_def) (simp add: h_def)
  show "InsertTupleAt p slot data =
    Some (case slots p ! unat slot of
        Some d \<Rightarrow> if same_tuple d data then (p, Inr ())
          else if room p < length data then (p, Inl ErrPageFull) else (place (unat slot) data h p, Inr ())
      | None \<Rightarrow> if room p < length data then (p, Inl ErrPageFull) else (place (unat slot) data h p, Inr ()))"
    using len sl w itemPointer_nat(2) [OF wf s] already_there_eq [OF wf s len]
    by (auto simp: InsertTupleAt_def Let_def free off split: option.splits)
qed

text \<open>Redo into a slot that does not exist yet: the slots below it are filled with dead pointers.\<close>

definition redo_need :: "page \<Rightarrow> nat \<Rightarrow> bytes \<Rightarrow> nat" where
  "redo_need p s data = length data + 4 * (Suc s - nitems p)"

definition redo_header :: "PageHeader \<Rightarrow> nat \<Rightarrow> bytes \<Rightarrow> PageHeader" where
  "redo_header h k data =
     (let up = Upper h - word_of_nat (length data); lo = Lower h + 4 * word_of_nat k + 4
      in h\<lparr>Upper := up, Lower := lo, NItems := NItems h + word_of_nat k + 1, FreeSpace := up - lo\<rparr>)"

lemma redo_header_ok:
  assumes wf: "page_wf p" and s: "nitems p \<le> t" and fit: "redo_need p t data \<le> room p"
  defines "k \<equiv> t - nitems p"
  defines "h \<equiv> redo_header (Header p) k data"
  shows "placeable t data h (dead_run (nitems p) k p)" "hdr_wf h" "unat (NItems h) = Suc t"
    "28 + 4 * (nitems p + k) \<le> unat (Upper (Header p))"
proof -
  note b = page_wf_bounds [OF wf]
  have f: "length data + 4 * k + 4 \<le> unat (Upper (Header p)) - unat (Lower (Header p))"
    using fit s by (simp add: redo_need_def k_def room_def Suc_diff_le)
  then have lw: "unat (word_of_nat (length data) :: u16) = length data" "unat (word_of_nat k :: u16) = k"
    using b by (auto intro!: unat_of_nat_u16)
  have U: "unat (Upper h) = unat (Upper (Header p)) - length data"
    using f b lw by (simp add: h_def redo_header_def Let_def unat_sub_u16)
  have L: "unat (Lower h) = unat (Lower (Header p)) + 4 * k + 4"
    using f b lw by (simp add: h_def redo_header_def Let_def unat_word_ariths)
  have "unat (NItems h) = Suc (nitems p + k)"
    using f b lw by (simp add: h_def redo_header_def Let_def unat_word_ariths nitems_def)
  then show N: "unat (NItems h) = Suc t" using s by (simp add: k_def)
  show up: "28 + 4 * (nitems p + k) \<le> unat (Upper (Header p))"
    using f b by arith
  show "placeable t data h (dead_run (nitems p) k p)"
    using dead_run_page [OF wf up] U f b s by (auto simp: placeable_def k_def)
  have "FreeSpace h = Upper h - Lower h" by (simp add: h_def redo_header_def Let_def)
  then show "hdr_wf h"
    using U L N f b s by (auto simp: hdr_wf_def k_def)
qed

lemma InsertTupleAt_new:
  assumes wf: "page_wf p" and s: "nitems p \<le> unat slot" and len: "length data \<le> MaxTupleLength"
    and no_wrap: "redo_need p (unat slot) data < 65536"
  defines "k \<equiv> unat slot - nitems p"
  shows "InsertTupleAt p slot data =
    Some (if room p < redo_need p (unat slot) data then (p, Inl ErrPageFull)
      else (place (unat slot) data (redo_header (Header p) k data) (dead_run (nitems p) k p), Inr ()))"
proof -
  note b = page_wf_bounds [OF wf]
  have sl: "\<not> slot < NItems (Header p)" using s by (simp add: nitems_def word_less_nat_alt)
  have lw: "unat (word_of_nat (length data) :: u16) = length data"
    using len by (simp add: unat_of_nat_u16)
  have gap: "slot + 1 - NItems (Header p) = word_of_nat (Suc k)"
    using s by (simp add: k_def nitems_def of_nat_diff)
  have bound: "length data + 4 * Suc k < 65536"
    using no_wrap s by (simp add: redo_need_def k_def Suc_diff_le)
  then have kw: "unat (word_of_nat (Suc k) :: u16) = Suc k" "unat (word_of_nat k :: u16) = k"
    by (auto simp del: of_nat_Suc intro!: unat_of_nat_u16)
  have "unat (word_of_nat (length data) + word_of_nat (Suc k) * (4 :: u16)) = length data + 4 * Suc k"
    using bound by (simp only: unat_word_ariths kw lw) simp
  then have needed: "unat (word_of_nat (length data) + (slot + 1 - NItems (Header p)) * 4)
      = redo_need p (unat slot) data"
    using s unfolding gap by (simp add: redo_need_def k_def Suc_diff_le)
  have free: "(Page_FreeSpace p < word_of_nat (length data) + (slot + 1 - NItems (Header p)) * 4)
      = (room p < redo_need p (unat slot) data)"
    by (simp only: word_less_nat_alt unat_Page_FreeSpace [OF wf] needed)
  have k: "unat slot - unat (NItems (Header p)) = k" by (simp add: k_def nitems_def)
  show ?thesis
  proof (cases "room p < redo_need p (unat slot) data")
    case True
    then show ?thesis
      using len sl unfolding InsertTupleAt_def Let_def free by simp
  next
    case False
    then have fit: "redo_need p (unat slot) data \<le> room p" by simp
    note r = redo_header_ok [OF wf s fit, folded k_def]
    let ?h = "redo_header (Header p) k data" and ?q = "dead_run (nitems p) k p"
    note d = dead_run_page [OF wf r(4)] and pb = place_bounds [OF r(1)]
    have g: "fill_gap k p (Header p) = Some (?q, (Header p)\<lparr>Lower := Lower (Header p) + 4 * word_of_nat k,
        NItems := NItems (Header p) + word_of_nat k\<rparr>)"
      using b r(4) by (intro fill_gap_eq) (auto simp: nitems_def)
    have up: "Upper (Header p) - word_of_nat (length data) = Upper ?h"
      by (simp add: redo_header_def Let_def)
    have lo: "unat (Lower (Header p) + 4 * word_of_nat k) = 28 + 4 * unat slot"
    proof -
      have "unat (Lower (Header p) + 4 * word_of_nat k) = 28 + 4 * nitems p + 4 * k"
        using b r(4) by (simp only: unat_word_ariths kw) simp
      then show ?thesis using s by (simp add: k_def)
    qed
    show ?thesis
      using False len sl g pb unfolding InsertTupleAt_def Let_def free
      by (simp add: k up lo copy_at_Some put_at_Some place_def) (simp add: redo_header_def Let_def)
  qed
qed

lemma place_slots:
  assumes pl: "placeable t data h p" and h: "hdr_wf h" and n: "unat (NItems h) = max (nitems p) (Suc t)"
    and gap: "\<And>s. nitems p \<le> s \<Longrightarrow> s < t \<Longrightarrow> \<not> live (item p s)"
  defines "q \<equiv> place t data h p"
  shows "page_wf q" "nitems q = max (nitems p) (Suc t)" "slots q ! t = Some data"
    "s < nitems q \<Longrightarrow> s \<noteq> t \<Longrightarrow> slots q ! s = (if s < nitems p then slots p ! s else None)"
proof -
  show "page_wf q" unfolding q_def by (rule page_wf_place [OF pl h n gap])
  show nq: "nitems q = max (nitems p) (Suc t)"
    using n by (simp add: q_def nitems_def Header_place [OF pl])
  have r: "28 + 4 * s + 4 \<le> unat (Upper h)" if "s < nitems q" for s
    using that h n nq by (auto simp: hdr_wf_def)
  show "slots q ! t = Some data"
    using nq r [of t] slot_tuple_place [OF pl, of t] by (simp add: slots_def q_def less_max_iff_disj)
  show "s < nitems q \<Longrightarrow> s \<noteq> t \<Longrightarrow> slots q ! s = (if s < nitems p then slots p ! s else None)"
  proof (cases "s < nitems p")
    case True
    then show "s < nitems q \<Longrightarrow> s \<noteq> t \<Longrightarrow> ?thesis"
      using r [of s] slot_tuple_place [OF pl, of s] by (simp add: slots_def q_def)
  next
    case False
    assume s: "s < nitems q" "s \<noteq> t"
    with False nq have "\<not> live (item p s)" using gap [of s] by (auto simp: less_max_iff_disj)
    then show ?thesis
      using False s r [of s] item_place [OF pl, of s] by (simp add: slots_def slot_tuple_def q_def)
  qed
qed

lemma InsertTupleAt_post:
  assumes wf: "page_wf p" and no_wrap: "redo_need p (unat slot) data < 65536"
    and ok: "InsertTupleAt p slot data = Some (q, Inr u)"
  shows "length data \<le> MaxTupleLength" "page_wf q" "nitems q = max (nitems p) (Suc (unat slot))"
    "\<exists>d. slots q ! unat slot = Some d \<and> same_tuple d data"
    "s < nitems q \<Longrightarrow> s \<noteq> unat slot \<Longrightarrow> slots q ! s = (if s < nitems p then slots p ! s else None)"
proof -
  show len: "length data \<le> MaxTupleLength"
    using ok by (auto simp: InsertTupleAt_def split: if_splits)
  have all: "page_wf q \<and> nitems q = max (nitems p) (Suc (unat slot))
    \<and> (\<exists>d. slots q ! unat slot = Some d \<and> same_tuple d data)
    \<and> (s < nitems q \<longrightarrow> s \<noteq> unat slot \<longrightarrow> slots q ! s = (if s < nitems p then slots p ! s else None))"
  proof (cases "unat slot < nitems p")
    case True
    note e = InsertTupleAt_existing [OF wf True len]
    show ?thesis
    proof (cases "q = p \<and> (\<exists>d. slots p ! unat slot = Some d \<and> same_tuple d data)")
      case False
      then have r: "length data \<le> room p" and q: "q = place (unat slot) data ((Header p)\<lparr>
          Upper := Upper (Header p) - word_of_nat (length data),
          FreeSpace := Upper (Header p) - word_of_nat (length data) - Lower (Header p)\<rparr>) p"
        using ok e(1) by (auto split: option.splits if_splits)
      note h = e(2) [OF r]
      have "\<And>s. nitems p \<le> s \<Longrightarrow> s < unat slot \<Longrightarrow> \<not> live (item p s)" using True by linarith
      from place_slots [OF conjunct1 [OF h] _ _ this] h True show ?thesis
        by (auto simp: q max_def intro: exI [of _ data])
    qed (use True wf in auto)
  next
    case False
    then have s: "nitems p \<le> unat slot" by simp
    let ?k = "unat slot - nitems p"
    have r: "redo_need p (unat slot) data \<le> room p"
      and q: "q = place (unat slot) data (redo_header (Header p) ?k data) (dead_run (nitems p) ?k p)"
      using ok InsertTupleAt_new [OF wf s len no_wrap] by (auto split: if_splits)
    note h = redo_header_ok [OF wf s r]
    note d = dead_run_page [OF wf h(4)]
    have gap: "\<And>s. nitems (dead_run (nitems p) ?k p) \<le> s \<Longrightarrow> s < unat slot \<Longrightarrow>
        \<not> live (item (dead_run (nitems p) ?k p) s)"
      using d(3,5) by auto
    from place_slots [OF h(1,2) _ gap] h(3) s d(2,3) show ?thesis
      by (auto simp: q max_def intro: exI [of _ data])
  qed
  then show "page_wf q" "nitems q = max (nitems p) (Suc (unat slot))"
    "\<exists>d. slots q ! unat slot = Some d \<and> same_tuple d data"
    "s < nitems q \<Longrightarrow> s \<noteq> unat slot \<Longrightarrow> slots q ! s = (if s < nitems p then slots p ! s else None)"
    by blast+
qed

text \<open>
  C35: Redo of an insert at a given slot, as long as the size computation does not wrap around 16
  bits: no panic; an error is \<open>ErrPageFull\<close>, leaves the page as it was and means there is no room;
  on success the page is well-formed, the slot holds the tuple (up to the deleting transaction),
  every other slot is as before and slots that had to be created below it are dead; and running
  the same redo again changes nothing.
\<close>

theorem InsertTupleAt_spec:
  assumes "page_wf p" and "redo_need p (unat slot) data < 65536"
  shows "case InsertTupleAt p slot data of
      None \<Rightarrow> False
    | Some (q, Inl e) \<Rightarrow> q = p \<and> e = ErrPageFull \<and> room p < redo_need p (unat slot) data
    | Some (q, Inr u) \<Rightarrow> page_wf q \<and> nitems q = max (nitems p) (Suc (unat slot))
        \<and> (\<exists>d. slots q ! unat slot = Some d \<and> same_tuple d data)
        \<and> (\<forall>s < nitems q. s \<noteq> unat slot \<longrightarrow> slots q ! s = (if s < nitems p then slots p ! s else None))
        \<and> InsertTupleAt q slot data = Some (q, Inr ())"
proof (cases "length data \<le> MaxTupleLength")
  case False
  have "room p \<le> 8164" using page_wf_bounds [OF assms(1)] by (simp add: room_def)
  with False show ?thesis by (simp add: InsertTupleAt_def redo_need_def)
next
  case len: True
  have dec: "\<exists>q r. InsertTupleAt p slot data = Some (q, r) \<and>
      (\<forall>e. r = Inl e \<longrightarrow> q = p \<and> e = ErrPageFull \<and> room p < redo_need p (unat slot) data)"
  proof (cases "unat slot < nitems p")
    case True
    then show ?thesis
      using InsertTupleAt_existing(1) [OF assms(1) True len]
      by (auto simp: redo_need_def split: option.splits)
  next
    case False
    then show ?thesis
      using InsertTupleAt_new [OF assms(1) _ len assms(2)] by auto
  qed
  have again: "InsertTupleAt q slot data = Some (q, Inr ())"
    if "InsertTupleAt p slot data = Some (q, Inr u)" for q u
  proof -
    note post = InsertTupleAt_post [OF assms that]
    have "unat slot < nitems q" using post(3) by simp
    from InsertTupleAt_existing(1) [OF post(2) this len] post(4) show ?thesis by auto
  qed
  from dec obtain q r where qr: "InsertTupleAt p slot data = Some (q, r)"
    "\<forall>e. r = Inl e \<longrightarrow> q = p \<and> e = ErrPageFull \<and> room p < redo_need p (unat slot) data" by blast
  show ?thesis
    using qr InsertTupleAt_post [OF assms] again by (cases r) auto
qed

theorem InsertTupleAt_spec_witness:
  "\<exists>q. InsertTupleAt (Init 1) 2 [9, 9] = Some (q, Inr ()) \<and> page_wf q \<and> nitems q = 3
     \<and> slots q ! 0 = None \<and> slots q ! 2 = Some [9, 9]"
proof -
  have n: "nitems (Init 1) = 0" by (simp add: nitems_def)
  note spec = InsertTupleAt_spec [OF page_wf_Init, of 1 2 "[9, 9]"]
  have need: "redo_need (Init 1) (unat (2 :: u16)) [9, 9] = 14" by (simp add: redo_need_def n)
  obtain q r where e: "InsertTupleAt (Init 1) 2 [9, 9] = Some (q, r)"
    using spec need by (cases "InsertTupleAt (Init 1) 2 [9, 9]") auto
  show ?thesis
    using spec need by (cases r) (auto simp: e n same_tuple_def)
qed

text \<open>
  Beyond that bound the 16-bit computation of the space needed wraps around: for slot 16383 on an
  empty page it comes out as the tuple length alone, the check passes and the loop that writes the
  dead item pointers runs off the page.
\<close>

lemma fill_gap_None:
  "unat (Lower h) = 28 + 4 * m \<Longrightarrow> length p = PageSize \<Longrightarrow> m \<le> 2041 \<Longrightarrow> 2041 < m + k \<Longrightarrow>
     fill_gap k p h = None"
proof (induction k arbitrary: m p h)
  case (Suc k)
  show ?case
  proof (cases "m = 2041")
    case True
    then show ?thesis using Suc.prems by (simp add: put_at_def)
  next
    case False
    then show ?thesis
      using Suc.prems by (auto simp: put_at_def unat_word_ariths intro!: Suc.IH [of _ "Suc m"])
  qed
qed simp

lemma InsertTupleAt_wraps: "InsertTupleAt (Init 1) 16383 [] = None"
proof -
  have "fill_gap 16383 (Init 1) (Header (Init 1)) = None"
    by (rule fill_gap_None [of _ 0]) simp_all
  moreover have "\<not> Page_FreeSpace (Init 1) < 65536" by (simp add: word_less_nat_alt)
  ultimately show ?thesis by (simp add: InsertTupleAt_def Let_def)
qed

end
