(* ===== verification/Fsm.thy ===== *)
theory Fsm
  imports Vdb_Prelude
begin

text \<open>
  The free space map of \<^verbatim>\<open>server/internal/core/storage/fsm/fsm.go\<close>: a complete binary tree of
  maxima over the free-space categories of a table's pages, kept in one array. Modelled are the
  growth of the tree, \<open>Search\<close>, \<open>Update\<close>, \<open>Grow\<close> and the file format of \<open>Save\<close> and \<open>Load\<close>.

  Array positions are naturals: the array has \<open>uint32(2*capacity)\<close> elements, so no position the
  code computes inside it reaches \<open>2^32\<close>. The doubling loop of \<open>resize\<close> and the capacity it yields
  are 32-bit, since there the wrap-around matters. A result \<^const>\<open>None\<close> means that the Go function
  does not return: an index panics or the doubling loop does not end.
\<close>

record FSM =
  path :: string
  nodes :: "u8 list"
  nPages :: u32

section \<open>Definitions\<close>

definition max8 :: "u8 \<Rightarrow> u8 \<Rightarrow> u8" where
  "max8 a b = (if a > b then a else b)"

definition category :: "u16 \<Rightarrow> u8" where
  "category freeBytes = (let c = freeBytes div 32 in if c > 255 then 255 else ucast c)"

definition requestCategory :: "u16 \<Rightarrow> u8" where
  "requestCategory minFree =
     (let c = ((ucast minFree :: u32) + 32 - 1) div 32 in if c > 255 then 255 else ucast c)"

fun rebuild_from :: "nat \<Rightarrow> u8 list \<Rightarrow> u8 list" where
  "rebuild_from 0 ns = ns"
| "rebuild_from (Suc i) ns =
     rebuild_from i (ns[Suc i := max8 (ns ! (2 * Suc i)) (ns ! (2 * Suc i + 1))])"

definition rebuildInternal :: "FSM \<Rightarrow> FSM" where
  "rebuildInternal f = f\<lparr>nodes := rebuild_from (length (nodes f) div 2 - 1) (nodes f)\<rparr>"

partial_function (option) grow_capacity :: "u32 \<Rightarrow> u32 \<Rightarrow> u32 option" where
  "grow_capacity n capacity =
     (if capacity < n then grow_capacity n (capacity * 2) else Some capacity)"

fun copy_leaves :: "u32 \<Rightarrow> u8 list \<Rightarrow> nat list \<Rightarrow> u8 list \<Rightarrow> u8 list option" where
  "copy_leaves capacity old [] new = Some new"
| "copy_leaves capacity old (p # ps) new =
     (let i = unat (capacity + word_of_nat p); j = length old div 2 + p
      in if i < length new \<and> j < length old then copy_leaves capacity old ps (new[i := old ! j])
         else None)"

definition resize :: "u32 \<Rightarrow> FSM \<Rightarrow> FSM option" where
  "resize n f =
     Option.bind (grow_capacity n 1) (\<lambda>capacity.
       map_option (\<lambda>ns. rebuildInternal (f\<lparr>nodes := ns, nPages := n\<rparr>))
         (copy_leaves capacity (nodes f) [0 ..< unat (nPages f)]
            (replicate (unat (2 * capacity)) 0)))"

definition New :: "string \<Rightarrow> u32 \<Rightarrow> FSM option" where
  "New pth n = resize n \<lparr>path = pth, nodes = [], nPages = 0\<rparr>"

definition PageCount :: "FSM \<Rightarrow> u32" where
  "PageCount f = nPages f"

definition Grow :: "u32 \<Rightarrow> FSM \<Rightarrow> FSM option" where
  "Grow n f =
     (if n \<le> nPages f then Some f
      else if n \<le> word_of_nat (length (nodes f) div 2) then Some (f\<lparr>nPages := n\<rparr>)
      else resize n f)"

partial_function (option) descend :: "u8 list \<Rightarrow> u8 \<Rightarrow> nat \<Rightarrow> nat option" where
  "descend ns want node =
     (if node < length ns div 2
      then descend ns want (if ns ! (2 * node) \<ge> want then 2 * node else 2 * node + 1)
      else Some node)"

definition Search :: "FSM \<Rightarrow> u16 \<Rightarrow> (u32 \<times> bool) option" where
  "Search f minFree =
     (if nPages f = 0 then Some (0, False)
      else
        let want = requestCategory minFree; leafStart = length (nodes f) div 2
        in if length (nodes f) \<le> 1 then None
        else if nodes f ! 1 < want then Some (0, False)
        else map_option
          (\<lambda>node. let pageNo = word_of_nat (node - leafStart)
                  in if pageNo \<ge> nPages f then (0, False) else (pageNo, True))
          (descend (nodes f) want 1))"

fun fix_up :: "nat \<Rightarrow> u8 list \<Rightarrow> u8 list" where
  "fix_up node ns =
     (if node = 0 then ns
      else let newVal = max8 (ns ! (2 * node)) (ns ! (2 * node + 1))
        in if ns ! node = newVal then ns else fix_up (node div 2) (ns[node := newVal]))"

declare fix_up.simps [simp del]

definition Update :: "u32 \<Rightarrow> u16 \<Rightarrow> FSM \<Rightarrow> FSM option" where
  "Update pageNo freeBytes f =
     Option.bind
       (if pageNo \<ge> nPages f
        then if pageNo \<ge> word_of_nat (length (nodes f) div 2) then resize (pageNo + 1) f
             else Some (f\<lparr>nPages := pageNo + 1\<rparr>)
        else Some f)
       (\<lambda>f. let leafIdx = length (nodes f) div 2 + unat pageNo
            in if leafIdx < length (nodes f)
               then Some (f\<lparr>nodes := fix_up (leafIdx div 2) ((nodes f)[leafIdx := category freeBytes])\<rparr>)
               else None)"

datatype fsm_error = ErrNoPath | ErrBadHeader | ErrTruncated

definition magic :: bytes where
  "magic = [0x56, 0x46, 0x53, 0x4D]"  \<comment> \<open>VFSM\<close>

text \<open>
  \<open>Save\<close> yields the bytes it writes to the temporary file and renames over \<open>path\<close>; \<open>Load\<close> is given
  the bytes of the file. The file system calls themselves are taken to succeed.
\<close>

definition Save :: "FSM \<Rightarrow> (fsm_error + bytes) option" where
  "Save f =
     (if path f = [] then Some (Inl ErrNoPath)
      else let leafStart = length (nodes f) div 2; buf = replicate (unat (8 + nPages f)) 0
        in Option.bind (copy_at 0 magic buf) (\<lambda>buf.
           Option.bind (put_at 4 (le32 (nPages f)) buf) (\<lambda>buf.
           Option.bind (go_slice (nodes f) leafStart (leafStart + unat (nPages f))) (\<lambda>ls.
             map_option Inr (copy_at 8 ls buf)))))"

definition Load :: "string \<Rightarrow> bytes \<Rightarrow> (fsm_error + FSM) option" where
  "Load pth buf =
     (if length buf < 8 \<or> take 4 buf \<noteq> magic then Some (Inl ErrBadHeader)
      else let n = get32 (drop 4 buf)
        in if word_of_nat (length buf - 8) < n then Some (Inl ErrTruncated)
        else Option.bind (New pth n) (\<lambda>f.
          map_option (\<lambda>ns. Inr (rebuildInternal (f\<lparr>nodes := ns\<rparr>)))
            (Option.bind (go_slice buf 8 (8 + unat n))
              (\<lambda>leaves. copy_at (length (nodes f) div 2) leaves (nodes f)))))"

section \<open>The tree of maxima\<close>

lemma max8_max: "max8 a b = max a b"
  by (auto simp: max8_def max_def)

text \<open>
  \<open>max_at ns i\<close>: node \<open>i\<close> holds the maximum of its children. \<open>tree_ok k ns\<close>: the array is a
  complete tree with \<open>2^k\<close> leaves in which every internal node does.
\<close>

definition max_at :: "u8 list \<Rightarrow> nat \<Rightarrow> bool" where
  "max_at ns i \<longleftrightarrow> ns ! i = max (ns ! (2 * i)) (ns ! (2 * i + 1))"

definition tree_ok :: "nat \<Rightarrow> u8 list \<Rightarrow> bool" where
  "tree_ok k ns \<longleftrightarrow> length ns = 2 * 2 ^ k \<and> (\<forall>i. 1 \<le> i \<longrightarrow> i < 2 ^ k \<longrightarrow> max_at ns i)"

text \<open>The leaves below node \<open>i\<close>, \<open>d\<close> levels further down, are \<open>i*2^d .. (i+1)*2^d - 1\<close>.\<close>

definition below :: "nat \<Rightarrow> nat \<Rightarrow> nat \<Rightarrow> bool" where
  "below k i d \<longleftrightarrow> 1 \<le> i \<and> 2 ^ k \<le> i * 2 ^ d \<and> (i + 1) * 2 ^ d \<le> 2 * 2 ^ k"

lemma below_root: "below k 1 k"
  by (simp add: below_def)

lemma below_internal: "below k i (Suc d) \<Longrightarrow> i < 2 ^ k"
proof -
  assume b: "below k i (Suc d)"
  then have "(i + 1) * 2 ^ d \<le> 2 ^ k" by (simp add: below_def)
  moreover have "(i + 1) * 1 \<le> (i + 1) * 2 ^ d" by (intro mult_le_mono2) simp
  ultimately have "(i + 1) * 1 \<le> 2 ^ k" by (rule order_trans [rotated])
  then show ?thesis by simp
qed

lemma below_children: "below k i (Suc d) \<Longrightarrow> below k (2 * i) d \<and> below k (2 * i + 1) d"
  by (auto simp: below_def algebra_simps)

lemma subtree_max:
  "tree_ok k ns \<Longrightarrow> below k i d \<Longrightarrow>
     (w \<le> ns ! i) = (\<exists>j. i * 2 ^ d \<le> j \<and> j < (i + 1) * 2 ^ d \<and> w \<le> ns ! j)"
proof (induction d arbitrary: i)
  case 0
  then show ?case by (auto simp: less_Suc_eq_le le_antisym)
next
  case (Suc d)
  note c = below_children [OF Suc.prems(2)]
  have "max_at ns i"
    using Suc.prems below_internal [OF Suc.prems(2)] by (auto simp: tree_ok_def below_def)
  then have "(w \<le> ns ! i) = (w \<le> ns ! (2 * i) \<or> w \<le> ns ! (2 * i + 1))"
    by (simp add: max_at_def le_max_iff_disj)
  also have "\<dots> = (\<exists>j. i * 2 ^ Suc d \<le> j \<and> j < (i + 1) * 2 ^ Suc d \<and> w \<le> ns ! j)"
    using Suc.IH [OF Suc.prems(1) conjunct1 [OF c]] Suc.IH [OF Suc.prems(1) conjunct2 [OF c]]
    by (auto simp: algebra_simps) (metis add.commute le_less_linear)+
  finally show ?case .
qed

lemma descend_first:
  "tree_ok k ns \<Longrightarrow> below k i d \<Longrightarrow> w \<le> ns ! i \<Longrightarrow>
     \<exists>j. descend ns w i = Some j \<and> i * 2 ^ d \<le> j \<and> j < (i + 1) * 2 ^ d \<and> w \<le> ns ! j
       \<and> (\<forall>j'. i * 2 ^ d \<le> j' \<longrightarrow> j' < j \<longrightarrow> ns ! j' < w)"
proof (induction d arbitrary: i)
  case 0
  then show ?case by (simp add: below_def tree_ok_def descend.simps)
next
  case (Suc d)
  note c = below_children [OF Suc.prems(2)]
  have int: "i < length ns div 2"
    using Suc.prems(1) below_internal [OF Suc.prems(2)] by (simp add: tree_ok_def)
  show ?case
  proof (cases "w \<le> ns ! (2 * i)")
    case True
    from Suc.IH [OF Suc.prems(1) conjunct1 [OF c] True] obtain j where
      j: "descend ns w (2 * i) = Some j" "2 * i * 2 ^ d \<le> j" "j < (2 * i + 1) * 2 ^ d"
        "w \<le> ns ! j" "\<forall>j'. 2 * i * 2 ^ d \<le> j' \<longrightarrow> j' < j \<longrightarrow> ns ! j' < w" by blast
    moreover have "descend ns w i = Some j"
      using int True j(1) by (subst descend.simps) simp
    ultimately show ?thesis by (intro exI [of _ j]) (auto simp: algebra_simps)
  next
    case False
    have "max_at ns i"
      using Suc.prems below_internal [OF Suc.prems(2)] by (auto simp: tree_ok_def below_def)
    with False Suc.prems(3) have "w \<le> ns ! (2 * i + 1)" by (auto simp: max_at_def le_max_iff_disj)
    from Suc.IH [OF Suc.prems(1) conjunct2 [OF c] this] obtain j where
      j: "descend ns w (2 * i + 1) = Some j" "(2 * i + 1) * 2 ^ d \<le> j" "j < (2 * i + 1 + 1) * 2 ^ d"
        "w \<le> ns ! j" "\<forall>j'. (2 * i + 1) * 2 ^ d \<le> j' \<longrightarrow> j' < j \<longrightarrow> ns ! j' < w" by blast
    have left: "\<forall>j'. 2 * i * 2 ^ d \<le> j' \<longrightarrow> j' < (2 * i + 1) * 2 ^ d \<longrightarrow> ns ! j' < w"
      using False subtree_max [OF Suc.prems(1) conjunct1 [OF c], of w] by (auto simp: not_le)
    have "descend ns w i = Some j"
      using int False j(1) by (subst descend.simps) simp
    moreover have "ns ! j' < w" if "i * 2 ^ Suc d \<le> j'" "j' < j" for j'
      using that left j(5) by (cases "j' < (2 * i + 1) * 2 ^ d") (auto simp: algebra_simps)
    ultimately show ?thesis using j by (intro exI [of _ j]) (auto simp: algebra_simps)
  qed
qed

section \<open>Rebuilding and repairing the tree\<close>

lemma max_at_upd:
  "i < length ns \<Longrightarrow> j \<noteq> i \<Longrightarrow> 2 * j \<noteq> i \<Longrightarrow> 2 * j + 1 \<noteq> i \<Longrightarrow> max_at (ns[i := v]) j = max_at ns j"
  by (simp add: max_at_def)

lemma rebuild_from_props:
  "i < 2 ^ k \<Longrightarrow> length ns = 2 * 2 ^ k \<Longrightarrow> (\<forall>j. i < j \<longrightarrow> j < 2 ^ k \<longrightarrow> max_at ns j) \<Longrightarrow>
     tree_ok k (rebuild_from i ns) \<and> (\<forall>j. i < j \<longrightarrow> rebuild_from i ns ! j = ns ! j)"
proof (induction i arbitrary: ns)
  case 0
  then show ?case by (auto simp: tree_ok_def)
next
  case (Suc i)
  define v where "v = max8 (ns ! (2 * Suc i)) (ns ! (2 * Suc i + 1))"
  define ns' where "ns' = ns[Suc i := v]"
  have here: "max_at ns' (Suc i)"
    using Suc.prems by (simp add: ns'_def max_at_def v_def max8_max)
  have "max_at ns' j" if "i < j" "j < 2 ^ k" for j
  proof (cases "j = Suc i")
    case False
    then show ?thesis
      using that Suc.prems by (simp add: ns'_def max_at_upd)
  qed (use here in simp)
  then have "tree_ok k (rebuild_from i ns') \<and> (\<forall>j. i < j \<longrightarrow> rebuild_from i ns' ! j = ns' ! j)"
    using Suc.prems by (intro Suc.IH) (auto simp: ns'_def)
  then show ?case by (simp add: v_def ns'_def)
qed

lemma fix_up_props:
  "node < 2 ^ k \<Longrightarrow> length ns = 2 * 2 ^ k \<Longrightarrow>
     (\<forall>j. 1 \<le> j \<longrightarrow> j < 2 ^ k \<longrightarrow> j \<noteq> node \<longrightarrow> max_at ns j) \<Longrightarrow>
     tree_ok k (fix_up node ns) \<and> (\<forall>j. node < j \<longrightarrow> fix_up node ns ! j = ns ! j)"
proof (induction node ns rule: fix_up.induct)
  case (1 node ns)
  define v where "v = max8 (ns ! (2 * node)) (ns ! (2 * node + 1))"
  show ?case
  proof (cases "node = 0 \<or> ns ! node = v")
    case True
    then have "fix_up node ns = ns" by (auto simp: fix_up.simps [of node ns] v_def)
    moreover have "max_at ns j" if "1 \<le> j" "j < 2 ^ k" for j
      using True 1(4) that by (cases "j = node") (auto simp: v_def max8_max max_at_def)
    ultimately show ?thesis using 1(3) by (simp add: tree_ok_def)
  next
    case False
    define ns' where "ns' = ns[node := v]"
    have step: "fix_up node ns = fix_up (node div 2) ns'"
      using False by (simp add: fix_up.simps [of node ns] v_def ns'_def)
    have ok: "\<forall>j. 1 \<le> j \<longrightarrow> j < 2 ^ k \<longrightarrow> j \<noteq> node div 2 \<longrightarrow> max_at ns' j"
    proof (intro allI impI)
      fix j assume j: "1 \<le> j" "j < 2 ^ k" "j \<noteq> node div 2"
      show "max_at ns' j"
      proof (cases "j = node")
        case True
        then show ?thesis
          using False 1(2,3) by (simp add: ns'_def max_at_def v_def max8_max)
      next
        case jn: False
        have "2 * j \<noteq> node" "2 * j + 1 \<noteq> node" using j(3) by auto
        then show ?thesis
          using jn 1(2-4) j by (simp add: ns'_def max_at_upd)
      qed
    qed
    have "tree_ok k (fix_up (node div 2) ns') \<and>
        (\<forall>j. node div 2 < j \<longrightarrow> fix_up (node div 2) ns' ! j = ns' ! j)"
      using 1(1) [OF _ v_def] 1(2,3) False ok by (simp add: v_def [symmetric] ns'_def [symmetric]) (simp add: ns'_def)
    then show ?thesis
      using step by (auto simp: ns'_def)
  qed
qed

section \<open>The invariant and the abstraction\<close>

text \<open>
  \<open>cats f\<close> is what the map stands for: the category recorded for each of its pages. The invariant
  \<open>fsm_wf\<close> says that the array is a tree of maxima, that the leaves past the last page are 0, and that
  the number of leaves is the least power of two with room for the pages (at most \<open>2^30\<close> of them,
  so that the array length \<open>2 * capacity\<close> fits in 32 bits).
\<close>

definition leaf :: "FSM \<Rightarrow> nat \<Rightarrow> u8" where
  "leaf f p = nodes f ! (length (nodes f) div 2 + p)"

definition cats :: "FSM \<Rightarrow> u8 list" where
  "cats f = map (leaf f) [0 ..< unat (nPages f)]"

definition fsm_wf_at :: "nat \<Rightarrow> FSM \<Rightarrow> bool" where
  "fsm_wf_at k f \<longleftrightarrow> k \<le> 30 \<and> tree_ok k (nodes f) \<and> unat (nPages f) \<le> 2 ^ k
     \<and> (k = 0 \<or> 2 ^ (k - 1) < unat (nPages f))
     \<and> (\<forall>p. unat (nPages f) \<le> p \<longrightarrow> p < 2 ^ k \<longrightarrow> leaf f p = 0)"

definition fsm_wf :: "FSM \<Rightarrow> bool" where
  "fsm_wf f \<longleftrightarrow> (\<exists>k. fsm_wf_at k f)"

lemma length_cats [simp]: "length (cats f) = unat (nPages f)"
  by (simp add: cats_def)

lemma nth_cats: "p < unat (nPages f) \<Longrightarrow> cats f ! p = leaf f p"
  by (simp add: cats_def)

section \<open>Growing the tree\<close>

lemma unat_2pow: "j \<le> 31 \<Longrightarrow> unat (2 ^ j :: u32) = 2 ^ j"
proof -
  assume j: "j \<le> 31"
  have "(2::nat) ^ j \<le> 2 ^ 31" using j by (intro power_increasing) auto
  then have lt: "(2::nat) ^ j < 2 ^ LENGTH(32)" by simp
  have "unat (word_of_nat (2 ^ j) :: u32) = 2 ^ j"
    using lt by (simp only: unat_of_nat take_bit_nat_eq_self mod_less)
  then show ?thesis by simp
qed

lemma grow_capacity_least:
  "unat n \<le> 2 ^ m \<Longrightarrow> m \<le> 31 \<Longrightarrow> j \<le> m \<Longrightarrow>
     \<exists>k. j \<le> k \<and> k \<le> m \<and> grow_capacity n (2 ^ j) = Some (2 ^ k)
       \<and> unat n \<le> 2 ^ k \<and> (k = j \<or> 2 ^ (k - 1) < unat n)"
proof (induction "m - j" arbitrary: j rule: less_induct)
  case less
  have u: "unat (2 ^ j :: u32) = 2 ^ j" using less.prems by (intro unat_2pow) simp
  show ?case
  proof (cases "(2 ^ j :: u32) < n")
    case False
    then have "grow_capacity n (2 ^ j) = Some (2 ^ j)" "unat n \<le> 2 ^ j"
      using u by (simp_all add: grow_capacity.simps word_less_nat_alt)
    then show ?thesis using less.prems by blast
  next
    case True
    then have lt: "2 ^ j < unat n" using u by (simp add: word_less_nat_alt)
    with less.prems(1) have "(2::nat) ^ j < 2 ^ m" by linarith
    then have jm: "j < m" by simp
    have step: "grow_capacity n (2 ^ j) = grow_capacity n (2 ^ Suc j)"
      using True by (subst grow_capacity.simps) (simp add: mult.commute)
    obtain k where k: "Suc j \<le> k" "k \<le> m" "grow_capacity n (2 ^ Suc j) = Some (2 ^ k)"
        "unat n \<le> 2 ^ k" "k = Suc j \<or> 2 ^ (k - 1) < unat n"
      using less.hyps [OF _ less.prems(1,2) Suc_leI [OF jm]] jm by (metis diff_less_mono2 lessI)
    moreover from k(5) lt have "2 ^ (k - 1) < unat n" by auto
    ultimately show ?thesis using step by (intro exI [of _ k]) auto
  qed
qed

text \<open>On more than \<open>2^31\<close> pages the doubling wraps round to 0 and the loop of \<open>resize\<close> never ends.\<close>

definition power_or_zero :: "u32 \<Rightarrow> bool" where
  "power_or_zero c \<longleftrightarrow> c = 0 \<or> (\<exists>j \<le> 31. c = 2 ^ j)"

lemma power_or_zero_double: "power_or_zero c \<Longrightarrow> power_or_zero (c * 2)"
proof -
  have "power_or_zero (2 ^ j * 2)" if "j \<le> 31" for j
    using that by (cases "j = 31") (auto simp: power_or_zero_def intro!: exI [of _ "Suc j"])
  then show "power_or_zero c \<Longrightarrow> power_or_zero (c * 2)" by (auto simp: power_or_zero_def)
qed

lemma power_or_zero_le: "power_or_zero c \<Longrightarrow> c \<le> 2 ^ 31"
proof -
  have "(2 ^ j :: u32) \<le> 2 ^ 31" if "j \<le> 31" for j
  proof -
    have "(2::nat) ^ j \<le> 2 ^ 31" using that by (intro power_increasing) auto
    then show ?thesis using unat_2pow [of j] unat_2pow [of 31] that by (simp add: word_le_nat_alt)
  qed
  then show "power_or_zero c \<Longrightarrow> c \<le> 2 ^ 31" by (auto simp: power_or_zero_def)
qed

lemma grow_capacity_doubling:
  "grow_capacity n c = Some r \<Longrightarrow> power_or_zero c \<and> 2 ^ 31 < n \<longrightarrow> False"
proof (rule grow_capacity.raw_induct [of "\<lambda>n c r. power_or_zero c \<and> 2 ^ 31 < n \<longrightarrow> False"], intro impI)
  fix grow :: "u32 \<Rightarrow> u32 \<Rightarrow> u32 option" and n c r
  assume ih: "\<And>n c r. grow n c = Some r \<Longrightarrow> power_or_zero c \<and> 2 ^ 31 < n \<longrightarrow> False"
    and step: "(if c < n then grow n (c * 2) else Some c) = Some r"
    and c: "power_or_zero c \<and> 2 ^ 31 < n"
  have "c < n" using power_or_zero_le c by (meson le_less_trans)
  then show False using ih step c power_or_zero_double by (metis (mono_tags))
qed

lemma resize_hangs: "2 ^ 31 < n \<Longrightarrow> resize n f = None"
proof -
  assume n: "2 ^ 31 < n"
  have "power_or_zero 1" unfolding power_or_zero_def by (intro disjI2 exI [of _ 0]) simp
  then have "grow_capacity n 1 = None"
    using grow_capacity_doubling n by (metis option.exhaust)
  then show ?thesis by (simp add: resize_def)
qed

lemma copy_leaves_props:
  "length new = 2 * 2 ^ k \<Longrightarrow> k \<le> 30 \<Longrightarrow> \<forall>p\<in>set ps. p < 2 ^ k \<and> length old div 2 + p < length old \<Longrightarrow>
     \<exists>ns. copy_leaves (2 ^ k) old ps new = Some ns \<and> length ns = length new
       \<and> (\<forall>p < 2 ^ k. ns ! (2 ^ k + p)
             = (if p \<in> set ps then old ! (length old div 2 + p) else new ! (2 ^ k + p)))"
proof (induction ps arbitrary: new)
  case Nil
  then show ?case by simp
next
  case (Cons p ps)
  have p: "p < 2 ^ k" "length old div 2 + p < length old" using Cons.prems(3) by auto
  have pw: "(2::nat) ^ k \<le> 2 ^ 30" using Cons.prems(2) by (intro power_increasing) auto
  have u: "unat ((2 ^ k :: u32) + word_of_nat p) = 2 ^ k + p"
  proof -
    have "(2 ^ k :: u32) + word_of_nat p = word_of_nat (2 ^ k + p)" by simp
    then show ?thesis using p(1) pw by (simp only: unat_of_nat) (simp add: take_bit_nat_eq_self)
  qed
  have "copy_leaves (2 ^ k) old (p # ps) new
      = copy_leaves (2 ^ k) old ps (new[2 ^ k + p := old ! (length old div 2 + p)])"
    using u p Cons.prems(1) by (simp add: Let_def)
  moreover obtain ns where ns: "copy_leaves (2 ^ k) old ps (new[2 ^ k + p := old ! (length old div 2 + p)]) = Some ns"
      "length ns = length new"
      "\<forall>q < 2 ^ k. ns ! (2 ^ k + q) = (if q \<in> set ps then old ! (length old div 2 + q)
             else new[2 ^ k + p := old ! (length old div 2 + p)] ! (2 ^ k + q))"
    using Cons.IH [of "new[2 ^ k + p := old ! (length old div 2 + p)]"] Cons.prems by auto
  ultimately show ?case
    using p Cons.prems(1) by (intro exI [of _ ns]) (auto simp: nth_list_update)
qed

lemma rebuildInternal_props:
  assumes "length (nodes f) = 2 * 2 ^ k"
  shows "tree_ok k (nodes (rebuildInternal f))" "leaf (rebuildInternal f) = leaf f"
    "nPages (rebuildInternal f) = nPages f" "path (rebuildInternal f) = path f"
proof -
  have r: "tree_ok k (rebuild_from (2 ^ k - 1) (nodes f)) \<and>
      (\<forall>j. 2 ^ k - 1 < j \<longrightarrow> rebuild_from (2 ^ k - 1) (nodes f) ! j = nodes f ! j)"
    using assms by (intro rebuild_from_props) auto
  then show "tree_ok k (nodes (rebuildInternal f))"
    using assms by (simp add: rebuildInternal_def)
  have "2 ^ k - 1 < 2 ^ k + p" for p :: nat by (rule less_le_trans [of _ "2 ^ k"]) auto
  then show "leaf (rebuildInternal f) = leaf f"
    using r assms by (auto simp: fun_eq_iff leaf_def rebuildInternal_def tree_ok_def)
qed (simp_all add: rebuildInternal_def)

lemma resize_props:
  assumes n: "unat n \<le> 2 ^ 30" and le: "nPages f \<le> n"
    and old: "\<And>p. p < unat (nPages f) \<Longrightarrow> length (nodes f) div 2 + p < length (nodes f)"
  shows "\<exists>f'. resize n f = Some f' \<and> fsm_wf f' \<and> nPages f' = n \<and> path f' = path f
      \<and> cats f' = cats f @ replicate (unat n - unat (nPages f)) 0"
proof -
  obtain k where k: "k \<le> 30" "grow_capacity n 1 = Some (2 ^ k)" "unat n \<le> 2 ^ k"
      "k = 0 \<or> 2 ^ (k - 1) < unat n"
    using grow_capacity_least [of n 30 0] n by auto
  have len: "unat (2 * 2 ^ k :: u32) = 2 * 2 ^ k"
    using unat_2pow [of "Suc k"] k(1) by simp
  have le': "unat (nPages f) \<le> unat n" using le by (simp add: word_le_nat_alt)
  have "\<forall>p\<in>set [0 ..< unat (nPages f)]. p < 2 ^ k \<and> length (nodes f) div 2 + p < length (nodes f)"
    using le' k(3) old by auto
  from copy_leaves_props [OF _ k(1) this, of "replicate (2 * 2 ^ k) 0"] obtain ns where
    ns: "copy_leaves (2 ^ k) (nodes f) [0 ..< unat (nPages f)] (replicate (2 * 2 ^ k) 0) = Some ns"
      "length ns = 2 * 2 ^ k"
      "\<forall>p < 2 ^ k. ns ! (2 ^ k + p) = (if p < unat (nPages f) then leaf f p else 0)"
    by (auto simp: leaf_def)
  define g where "g = rebuildInternal (f\<lparr>nodes := ns, nPages := n\<rparr>)"
  have r: "tree_ok k (nodes g)" "nPages g = n" "path g = path f"
      "\<And>p. p < 2 ^ k \<Longrightarrow> leaf g p = (if p < unat (nPages f) then leaf f p else 0)"
    using rebuildInternal_props [of "f\<lparr>nodes := ns, nPages := n\<rparr>" k] ns
    by (simp_all add: g_def leaf_def)
  have "resize n f = Some g" using k ns len by (simp add: resize_def g_def)
  moreover have "fsm_wf_at k g" using k r le' by (auto simp: fsm_wf_at_def)
  moreover have "cats g = cats f @ replicate (unat n - unat (nPages f)) 0"
    using r le' k(3) by (intro nth_equalityI) (auto simp: nth_append nth_cats)
  ultimately show ?thesis using r by (auto simp: fsm_wf_def)
qed

section \<open>The operations on the abstraction\<close>

lemma fsm_wf_at_length: "fsm_wf_at k f \<Longrightarrow> length (nodes f) = 2 * 2 ^ k"
  by (simp add: fsm_wf_at_def tree_ok_def)

lemma fsm_wf_leaf_in:
  "fsm_wf f \<Longrightarrow> p < unat (nPages f) \<Longrightarrow> length (nodes f) div 2 + p < length (nodes f)"
  by (auto simp: fsm_wf_def fsm_wf_at_def tree_ok_def)

lemma fsm_wf_cap:
  assumes "fsm_wf_at k f"
  shows "unat (word_of_nat (length (nodes f) div 2) :: u32) = 2 ^ k"
proof -
  have "k \<le> 31" using assms by (simp add: fsm_wf_at_def)
  then show ?thesis
    using fsm_wf_at_length [OF assms] by (simp add: unat_2pow)
qed

lemma fsm_wf_extend:
  assumes wf: "fsm_wf_at k f" and n: "nPages f \<le> n" "unat n \<le> 2 ^ k"
  shows "fsm_wf_at k (f\<lparr>nPages := n\<rparr>)"
    "cats (f\<lparr>nPages := n\<rparr>) = cats f @ replicate (unat n - unat (nPages f)) 0"
proof -
  have le: "unat (nPages f) \<le> unat n" using n by (simp add: word_le_nat_alt)
  show "fsm_wf_at k (f\<lparr>nPages := n\<rparr>)" using wf n le by (auto simp: fsm_wf_at_def leaf_def)
  show "cats (f\<lparr>nPages := n\<rparr>) = cats f @ replicate (unat n - unat (nPages f)) 0"
    using wf n le by (intro nth_equalityI) (auto simp: nth_append nth_cats fsm_wf_at_def leaf_def)
qed

lemma New_props:
  assumes "unat n \<le> 2 ^ 30"
  shows "\<exists>f. New pth n = Some f \<and> fsm_wf f \<and> path f = pth \<and> nPages f = n \<and> cats f = replicate (unat n) 0"
  using resize_props [of n "\<lparr>path = pth, nodes = [], nPages = 0\<rparr>"] assms
  by (auto simp: New_def cats_def)

lemma Grow_props:
  assumes wf: "fsm_wf f" and n: "unat n \<le> 2 ^ 30"
  shows "\<exists>f'. Grow n f = Some f' \<and> fsm_wf f' \<and> path f' = path f \<and> nPages f' = max (nPages f) n
    \<and> cats f' = cats f @ replicate (unat n - unat (nPages f)) 0"
proof -
  obtain k where k: "fsm_wf_at k f" using wf by (auto simp: fsm_wf_def)
  consider "n \<le> nPages f" | "nPages f < n" "unat n \<le> 2 ^ k" | "nPages f < n" "2 ^ k < unat n"
    by (meson leI)
  then show ?thesis
  proof cases
    case 1
    then show ?thesis using wf by (auto simp: Grow_def word_le_nat_alt max_def word_unat_eq_iff)
  next
    case 2
    then have "Grow n f = Some (f\<lparr>nPages := n\<rparr>)"
      using fsm_wf_cap [OF k] by (simp add: Grow_def word_le_nat_alt word_less_nat_alt)
    then show ?thesis
      using fsm_wf_extend [OF k less_imp_le, of n] 2 by (auto simp: fsm_wf_def max_def)
  next
    case 3
    then have "Grow n f = resize n f"
      using fsm_wf_cap [OF k] by (simp add: Grow_def word_le_nat_alt word_less_nat_alt)
    then show ?thesis
      using resize_props [OF n less_imp_le, of f] 3 fsm_wf_leaf_in [OF wf] by (auto simp: max_def)
  qed
qed

text \<open>\<open>Update\<close> is \<open>Grow\<close> up to the page followed by writing one leaf.\<close>

definition set_leaf :: "nat \<Rightarrow> u8 \<Rightarrow> FSM \<Rightarrow> FSM" where
  "set_leaf p c f = (let leafIdx = length (nodes f) div 2 + p
     in f\<lparr>nodes := fix_up (leafIdx div 2) ((nodes f)[leafIdx := c])\<rparr>)"

lemma set_leaf_props:
  assumes wf: "fsm_wf_at k f" and p: "p < unat (nPages f)"
  shows "fsm_wf_at k (set_leaf p c f)" "cats (set_leaf p c f) = (cats f)[p := c]"
proof -
  note len = fsm_wf_at_length [OF wf]
  have p2: "p < 2 ^ k" using wf p by (simp add: fsm_wf_at_def)
  define i where "i = 2 ^ k + p"
  define ns where "ns = (nodes f)[i := c]"
  have half: "i div 2 < 2 ^ k" using p2 by (simp add: i_def)
  have t: "tree_ok k (nodes f)" using wf by (simp add: fsm_wf_at_def)
  have "max_at ns j" if "1 \<le> j" "j < 2 ^ k" "j \<noteq> i div 2" for j
  proof -
    have "j \<noteq> i" "2 * j \<noteq> i" "2 * j + 1 \<noteq> i" using that by (auto simp: i_def)
    then show ?thesis using t that p2 len by (simp add: ns_def i_def max_at_upd tree_ok_def)
  qed
  then have fx: "tree_ok k (fix_up (i div 2) ns) \<and> (\<forall>j. i div 2 < j \<longrightarrow> fix_up (i div 2) ns ! j = ns ! j)"
    using half len by (intro fix_up_props) (auto simp: ns_def)
  have nodes: "nodes (set_leaf p c f) = fix_up (i div 2) ns" "nPages (set_leaf p c f) = nPages f"
    using len by (simp_all add: set_leaf_def i_def ns_def Let_def)
  have lf: "leaf (set_leaf p c f) q = (if q = p then c else leaf f q)" if "q < 2 ^ k" for q
  proof -
    have "i div 2 < 2 ^ k + q" using half by simp
    then show ?thesis
      using fx len that p2 by (auto simp: leaf_def nodes ns_def i_def tree_ok_def)
  qed
  show "fsm_wf_at k (set_leaf p c f)"
    using wf fx p nodes by (auto simp: fsm_wf_at_def lf)
  show "cats (set_leaf p c f) = (cats f)[p := c]"
    using wf p2 by (intro nth_equalityI) (auto simp: nth_cats nodes lf nth_list_update fsm_wf_at_def)
qed

lemma Update_Grow:
  assumes wf: "fsm_wf f" and p: "unat pageNo < 2 ^ 30"
  shows "\<exists>g. Grow (pageNo + 1) f = Some g \<and> unat pageNo < unat (nPages g)
    \<and> Update pageNo freeBytes f = Some (set_leaf (unat pageNo) (category freeBytes) g)"
proof -
  have u: "unat (pageNo + 1) = unat pageNo + 1"
    using p by (simp add: unat_word_ariths)
  obtain k where k: "fsm_wf_at k f" using wf by (auto simp: fsm_wf_def)
  obtain g where g: "Grow (pageNo + 1) f = Some g" "fsm_wf g" "nPages g = max (nPages f) (pageNo + 1)"
    using Grow_props [OF wf, of "pageNo + 1"] u p by auto
  have lt: "unat pageNo < unat (nPages g)" using g(3) u by (auto simp: max_def word_le_nat_alt)
  have "Update pageNo freeBytes f = Option.bind (Grow (pageNo + 1) f) (\<lambda>f.
      if length (nodes f) div 2 + unat pageNo < length (nodes f)
      then Some (set_leaf (unat pageNo) (category freeBytes) f) else None)"
    using fsm_wf_cap [OF k] u
    by (auto simp: Update_def Grow_def set_leaf_def Let_def word_le_nat_alt not_le Suc_le_eq cong: if_cong)
  then show ?thesis
    using g lt fsm_wf_leaf_in [OF g(2) lt] by simp
qed

lemma Update_props:
  assumes wf: "fsm_wf f" and p: "unat pageNo < 2 ^ 30"
  shows "\<exists>f'. Update pageNo freeBytes f = Some f' \<and> fsm_wf f' \<and> path f' = path f
    \<and> cats f' = (cats f @ replicate (Suc (unat pageNo) - unat (nPages f)) 0)
                  [unat pageNo := category freeBytes]"
proof -
  have u: "unat (pageNo + 1) = Suc (unat pageNo)"
    using p by (simp add: unat_word_ariths)
  obtain g where g: "Grow (pageNo + 1) f = Some g" "unat pageNo < unat (nPages g)"
      "Update pageNo freeBytes f = Some (set_leaf (unat pageNo) (category freeBytes) g)"
    using Update_Grow [OF assms] by blast
  from Grow_props [OF wf, of "pageNo + 1"] g(1) u p have
    h: "fsm_wf g" "path g = path f" "cats g = cats f @ replicate (Suc (unat pageNo) - unat (nPages f)) 0"
    by auto
  from h(1) obtain k where k: "fsm_wf_at k g" by (auto simp: fsm_wf_def)
  from set_leaf_props [OF k g(2)] show ?thesis
    using g(3) h by (auto simp: fsm_wf_def set_leaf_def Let_def)
qed

section \<open>Searching\<close>

lemma want_range: "unat (requestCategory minFree) = min 255 ((unat minFree + 31) div 32)"
proof -
  have m: "unat minFree < 65536" using unsigned_less [of minFree, where ?'a = nat] by simp
  define c where "c = ((ucast minFree :: u32) + 32 - 1) div 32"
  have c: "unat c = (unat minFree + 31) div 32"
  proof -
    have "(ucast minFree :: u32) + 32 - 1 = ucast minFree + 31" by simp
    moreover have "unat ((ucast minFree :: u32) + 31) = unat minFree + 31"
      using m by (simp add: unat_word_ariths unsigned_ucast_eq take_bit_eq_mod)
    ultimately show ?thesis by (simp only: c_def unat_div) simp
  qed
  have "requestCategory minFree = (if c > 255 then 255 else ucast c)"
    unfolding requestCategory_def c_def Let_def ..
  then show ?thesis
    using c by (auto simp: word_less_nat_alt min_def
        unsigned_ucast_eq take_bit_eq_mod)
qed

lemma category_range: "unat (category freeBytes) = min 255 (unat freeBytes div 32)"
  by (auto simp: category_def Let_def word_less_nat_alt unat_div min_def unsigned_ucast_eq take_bit_eq_mod)

text \<open>
  A page whose free space gave a category of at least the requested one has the room asked for, as
  long as the request is no more than 8160 bytes; above that both categories saturate at 255.
\<close>

lemma category_enough:
  "requestCategory minFree \<le> category freeBytes \<Longrightarrow> minFree \<le> 8160 \<Longrightarrow> minFree \<le> freeBytes"
  by (simp add: word_le_nat_alt want_range category_range)

lemma category_enough_converse:
  "unat minFree + 31 \<le> unat freeBytes \<Longrightarrow> requestCategory minFree \<le> category freeBytes"
  by (simp add: word_le_nat_alt want_range category_range)

lemma category_saturates: "requestCategory 16000 \<le> category 8160"
  by (simp add: word_le_nat_alt want_range category_range)

lemma Search_find:
  assumes wf: "fsm_wf f"
  shows "Search f minFree = Some
    (case find (\<lambda>p. requestCategory minFree \<le> cats f ! p) [0 ..< unat (nPages f)] of
       None \<Rightarrow> (0, False) | Some p \<Rightarrow> (word_of_nat p, True))"
proof -
  define w where "w = requestCategory minFree"
  obtain k where k: "fsm_wf_at k f" using wf by (auto simp: fsm_wf_def)
  have t: "tree_ok k (nodes f)" and np: "unat (nPages f) \<le> 2 ^ k"
    and zero: "\<And>p. unat (nPages f) \<le> p \<Longrightarrow> p < 2 ^ k \<Longrightarrow> leaf f p = 0"
    using k by (auto simp: fsm_wf_at_def)
  note len = fsm_wf_at_length [OF k]
  have len1: "\<not> length (nodes f) \<le> 1" using len one_le_power [of "2::nat" k] by linarith
  have lf: "nodes f ! j = leaf f (j - 2 ^ k)" if "2 ^ k \<le> j" for j using that len by (simp add: leaf_def)
  show ?thesis
  proof (cases "nPages f = 0")
    case True
    then show ?thesis by (simp add: Search_def)
  next
    case nz: False
    then have pos: "0 < unat (nPages f)" by (simp add: unat_gt_0)
    have in_pages: "q < unat (nPages f)" if q: "q < 2 ^ k" "w \<le> leaf f q" "\<forall>q'<q. leaf f q' < w" for q
    proof (rule ccontr)
      assume "\<not> q < unat (nPages f)"
      then have "w = 0" "0 < q" using zero [of q] q pos by auto
      then show False using q(3) by auto
    qed
    show ?thesis
    proof (cases "nodes f ! 1 < w")
      case True
      then have "\<not> w \<le> leaf f p" if "p < unat (nPages f)" for p
        using subtree_max [OF t below_root, of w] lf [of "2 ^ k + p"] that np by (auto dest!: spec [of _ "2 ^ k + p"])
      then have "find (\<lambda>p. w \<le> cats f ! p) [0 ..< unat (nPages f)] = None"
        by (auto simp: find_None_iff nth_cats)
      then show ?thesis
        using True nz len1 by (simp add: Search_def w_def [symmetric] Let_def)
    next
      case False
      then have "w \<le> nodes f ! 1" by simp
      from descend_first [OF t below_root this] obtain j where
        j: "descend (nodes f) w 1 = Some j" "2 ^ k \<le> j" "j < 2 * 2 ^ k" "w \<le> nodes f ! j"
          "\<And>j'. 2 ^ k \<le> j' \<Longrightarrow> j' < j \<Longrightarrow> nodes f ! j' < w" by auto
      define q where "q = j - 2 ^ k"
      have q: "q < 2 ^ k" "w \<le> leaf f q" using j lf [of j] by (auto simp: q_def)
      have first: "leaf f q' < w" if "q' < q" for q'
        using j(5) [of "2 ^ k + q'"] lf [of "2 ^ k + q'"] that by (auto simp: q_def)
      from in_pages [OF q] first have qp: "q < unat (nPages f)" by blast
      have "find (\<lambda>p. w \<le> cats f ! p) [0 ..< unat (nPages f)] = Some q"
        using qp q first by (auto simp: find_Some_iff nth_cats intro!: exI [of _ q] dest: leD)
      moreover have "unat (word_of_nat q :: u32) = q"
        using qp unsigned_less [of "nPages f", where ?'a = nat]
        by (simp add: unat_of_nat take_bit_eq_mod)
      then have "\<not> nPages f \<le> word_of_nat q" using qp by (simp add: word_le_nat_alt)
      ultimately show ?thesis
        using j(1) False nz len1 len by (simp add: Search_def w_def [symmetric] Let_def q_def)
    qed
  qed
qed

section \<open>The file format\<close>

lemma nth_overwrite:
  "i + length bs \<le> length p \<Longrightarrow> j < length p \<Longrightarrow>
     overwrite i bs p ! j = (if i \<le> j \<and> j < i + length bs then bs ! (j - i) else p ! j)"
  by (auto simp: overwrite_def nth_append min_def)

lemma load_leaves_props:
  assumes wf: "fsm_wf_at k g" and len: "length ls = unat (nPages g)"
  defines "ns \<equiv> overwrite (2 ^ k) ls (nodes g)"
  shows "copy_at (length (nodes g) div 2) ls (nodes g) = Some ns"
    "fsm_wf_at k (rebuildInternal (g\<lparr>nodes := ns\<rparr>))" "cats (rebuildInternal (g\<lparr>nodes := ns\<rparr>)) = ls"
proof -
  note l = fsm_wf_at_length [OF wf]
  have fits: "2 ^ k + length ls \<le> length (nodes g)" using wf len l by (simp add: fsm_wf_at_def)
  then show "copy_at (length (nodes g) div 2) ls (nodes g) = Some ns"
    using l by (simp add: ns_def copy_at_Some)
  have nsl: "length ns = 2 * 2 ^ k" using fits l by (simp add: ns_def)
  note r = rebuildInternal_props [of "g\<lparr>nodes := ns\<rparr>" k]
  have lf: "leaf (rebuildInternal (g\<lparr>nodes := ns\<rparr>)) p = (if p < length ls then ls ! p else leaf g p)"
    if "p < 2 ^ k" for p
    using that r(2) nsl fits l by (simp add: leaf_def ns_def nth_overwrite)
  show "fsm_wf_at k (rebuildInternal (g\<lparr>nodes := ns\<rparr>))"
    using wf r nsl len lf by (auto simp: fsm_wf_at_def)
  show "cats (rebuildInternal (g\<lparr>nodes := ns\<rparr>)) = ls"
    using wf r(3) nsl len by (intro nth_equalityI) (auto simp: nth_cats lf fsm_wf_at_def)
qed

lemma fsm_wf_pages:
  assumes "fsm_wf f"
  shows "unat (nPages f) \<le> 2 ^ 30"
proof -
  obtain k where "k \<le> 30" "unat (nPages f) \<le> 2 ^ k"
    using assms by (auto simp: fsm_wf_def fsm_wf_at_def)
  moreover from this have "(2::nat) ^ k \<le> 2 ^ 30" by (intro power_increasing) auto
  ultimately show ?thesis by linarith
qed

lemma Save_cats:
  assumes wf: "fsm_wf f" and "path f \<noteq> []"
  shows "Save f = Some (Inr (magic @ le32 (nPages f) @ cats f))"
proof -
  obtain k where k: "fsm_wf_at k f" using wf by (auto simp: fsm_wf_def)
  note n = fsm_wf_pages [OF wf]
  have l: "length (nodes f) div 2 + unat (nPages f) \<le> length (nodes f)"
    using k by (simp add: fsm_wf_at_def tree_ok_def)
  have w: "window (length (nodes f) div 2) (unat (nPages f)) (nodes f) = cats f"
    using l by (intro nth_equalityI) (auto simp: window_def nth_cats leaf_def)
  have len: "unat (8 + nPages f) = 8 + unat (nPages f)"
    using n by (simp add: unat_word_ariths)
  have "overwrite 8 (cats f) (overwrite 4 (le32 (nPages f)) (overwrite 0 magic
      (replicate (8 + unat (nPages f)) 0))) = magic @ le32 (nPages f) @ cats f"
    by (simp add: overwrite_def magic_def)
  then show ?thesis
    using assms(2) l w by (simp add: Save_def Let_def len copy_at_Some put_at_Some go_slice_Some magic_def)
qed

lemma Load_magic:
  assumes n: "unat n \<le> 2 ^ 30" and ls: "length ls = unat n"
  shows "\<exists>f. Load pth (magic @ le32 n @ ls) = Some (Inr f) \<and> fsm_wf f \<and> path f = pth \<and> cats f = ls"
proof -
  obtain g where g: "New pth n = Some g" "fsm_wf g" "path g = pth" "nPages g = n"
    using New_props [OF n] by blast
  then obtain k where k: "fsm_wf_at k g" by (auto simp: fsm_wf_def)
  note l = load_leaves_props [OF k, of ls, unfolded g(4), OF ls]
  have "go_slice (magic @ le32 n @ ls) 8 (8 + unat n) = Some ls"
    using ls by (simp add: go_slice_def window_def magic_def)
  moreover have "\<not> word_of_nat (length (magic @ le32 n @ ls) - 8) < n"
    using ls by (simp add: magic_def)
  ultimately have "Load pth (magic @ le32 n @ ls)
      = Some (Inr (rebuildInternal (g\<lparr>nodes := overwrite (2 ^ k) ls (nodes g)\<rparr>)))"
    using g(1) l(1) by (simp add: Load_def Let_def magic_def)
  then show ?thesis
    using l(2,3) g(3) by (auto simp: fsm_wf_def rebuildInternal_def)
qed

section \<open>Properties\<close>

text \<open>
  \<open>Search\<close> is first fit. On a map that satisfies the invariant it always returns, and what it
  returns is the lowest-numbered page whose recorded category is at least the requested one, or
  "not found" when no page has such a category.
\<close>

theorem Search_first_fit:
  assumes "fsm_wf f"
  shows "Search f minFree = Some
    (case find (\<lambda>p. requestCategory minFree \<le> cats f ! p) [0 ..< unat (PageCount f)] of
       None \<Rightarrow> (0, False) | Some p \<Rightarrow> (word_of_nat p, True))"
  using Search_find [OF assms] by (simp add: PageCount_def)

definition demo_fsm :: FSM where
  "demo_fsm = \<lparr>path = ''t.fsm'', nodes = [0, 7, 4, 7, 4, 3, 7, 0], nPages = 3\<rparr>"

lemma demo_fsm_wf: "fsm_wf demo_fsm"
proof -
  have "max_at (nodes demo_fsm) i" if "1 \<le> i" "i < 4" for i
  proof -
    have "i = 1 \<or> i = 2 \<or> i = 3" using that by auto
    then show ?thesis by (auto simp: max_at_def demo_fsm_def max_def)
  qed
  moreover have "leaf demo_fsm p = 0" if "3 \<le> p" "p < 4" for p
  proof -
    have "p = 3" using that by auto
    then show ?thesis by (simp add: leaf_def demo_fsm_def)
  qed
  ultimately have "fsm_wf_at 2 demo_fsm"
    by (simp add: fsm_wf_at_def tree_ok_def) (simp add: demo_fsm_def)
  then show ?thesis by (auto simp: fsm_wf_def)
qed

lemma upt_0_3: "[0 ..< 3] = [0, 1, 2]"
  by (simp add: upt_conv_Cons)

lemma demo_fsm_cats: "cats demo_fsm = [4, 3, 7]"
  by (simp add: cats_def demo_fsm_def leaf_def upt_0_3)

theorem Search_first_fit_witness: "fsm_wf demo_fsm \<and> Search demo_fsm 100 = Some (0, True)
    \<and> Search demo_fsm 200 = Some (2, True) \<and> Search demo_fsm 230 = Some (0, False)"
proof -
  have p: "unat (PageCount demo_fsm) = 3" by (simp add: PageCount_def demo_fsm_def)
  have c: "requestCategory 100 = 4" "requestCategory 200 = 7" "requestCategory 230 = 8"
    by (simp_all add: word_unat_eq_iff want_range)
  show ?thesis
    using Search_first_fit [OF demo_fsm_wf, of 100] Search_first_fit [OF demo_fsm_wf, of 200]
      Search_first_fit [OF demo_fsm_wf, of 230] demo_fsm_wf
    by (simp add: demo_fsm_cats p c upt_0_3)
qed

text \<open>
  C33: \<open>Update\<close> returns on every page number below \<open>2^30\<close>, keeps the invariant, extends the map with
  pages of category 0 up to the page and records the category of the free space for that page only.
\<close>

theorem Update_records:
  assumes "fsm_wf f" and "unat pageNo < 2 ^ 30"
  shows "\<exists>f'. Update pageNo freeBytes f = Some f' \<and> fsm_wf f' \<and> path f' = path f
    \<and> cats f' = (cats f @ replicate (Suc (unat pageNo) - unat (nPages f)) 0)
                  [unat pageNo := category freeBytes]"
  using Update_props [OF assms] .

theorem Update_records_witness:
  "\<exists>f'. fsm_wf demo_fsm \<and> Update 5 320 demo_fsm = Some f' \<and> fsm_wf f' \<and> cats f' = [4, 3, 7, 0, 0, 10]"
proof -
  have n: "unat (nPages demo_fsm) = 3" by (simp add: demo_fsm_def)
  have c: "category 320 = 10" by (simp add: word_unat_eq_iff category_range)
  have r: "replicate 3 (0::u8) = [0, 0, 0]" by (simp add: numeral_3_eq_3)
  show ?thesis
    using Update_records [OF demo_fsm_wf, of 5 320] demo_fsm_wf
    by (auto simp: demo_fsm_cats n c r)
qed



text \<open>
  C34: \<open>Load\<close> reads back what \<open>Save\<close> wrote: the loaded map satisfies the invariant and has the same
  pages with the same categories, so every \<open>Search\<close> on it answers as on the saved one.
\<close>

theorem Save_Load:
  assumes "fsm_wf f" and "path f \<noteq> []"
  shows "\<exists>buf f'. Save f = Some (Inr buf) \<and> Load (path f) buf = Some (Inr f') \<and> fsm_wf f'
    \<and> path f' = path f \<and> cats f' = cats f \<and> (\<forall>minFree. Search f' minFree = Search f minFree)"
proof -
  from Load_magic [OF fsm_wf_pages [OF assms(1)], of "cats f" "path f"] obtain g where
    g: "Load (path f) (magic @ le32 (nPages f) @ cats f) = Some (Inr g)" "fsm_wf g"
      "path g = path f" "cats g = cats f" by auto
  have "unat (nPages g) = unat (nPages f)" using arg_cong [OF g(4), of length] by simp
  then have "Search g minFree = Search f minFree" for minFree
    using Search_find [OF g(2)] Search_find [OF assms(1)] g(4) by simp
  then show ?thesis using g Save_cats [OF assms] by blast
qed

theorem Save_Load_witness:
  "\<exists>buf f'. Save demo_fsm = Some (Inr buf) \<and> Load ''t.fsm'' buf = Some (Inr f') \<and> cats f' = [4, 3, 7]"
proof -
  have "path demo_fsm = ''t.fsm''" by (simp add: demo_fsm_def)
  with Save_Load [OF demo_fsm_wf] show ?thesis by (auto simp: demo_fsm_cats)
qed

end
