(* ===== verification/Crypto.thy ===== *)
theory Crypto
  imports Vdb_Prelude
begin

text \<open>
  Encryption of \<^verbatim>\<open>server/internal/core/crypto\<close>: the versioned data-encryption keys of
  \<^verbatim>\<open>manager.go\<close>, the engine with counter nonces of \<^verbatim>\<open>tde.go\<close>, the wrapped key file of
  \<^verbatim>\<open>dek.go\<close>, and the clear-text header of an encrypted page, \<^verbatim>\<open>storage/page/encrypted.go\<close>.

  AES-256-GCM is a parameter: \<open>gcm key\<close> is the AEAD that \<^verbatim>\<open>cipher.NewGCM(aes.NewCipher(key))\<close>
  yields. What is relied on is \<open>aead_ok\<close>: opening what was sealed under the same nonce and
  associated data gives the plaintext back. The bytes read from \<^verbatim>\<open>rand.Reader\<close> are arguments
  (\<^const>\<open>None\<close> when reading them fails). The audit callback is not modelled.
\<close>

unbundle bit_operations_syntax

section \<open>Definitions\<close>

record AEAD =
  Seal :: "bytes \<Rightarrow> bytes \<Rightarrow> bytes \<Rightarrow> bytes"  \<comment> \<open>nonce, plaintext, associated data\<close>
  Open :: "bytes \<Rightarrow> bytes \<Rightarrow> bytes \<Rightarrow> bytes option"  \<comment> \<open>nonce, ciphertext, associated data\<close>

definition aead_ok :: "AEAD \<Rightarrow> bool" where
  "aead_ok a \<longleftrightarrow> (\<forall>n p ad. Open a n (Seal a n p ad) ad = Some p)"

datatype crypto_error =
  ErrClosed | ErrUnknownKeyVersion | ErrKeyLength | ErrRandom | ErrAuthFailed
| ErrDecryptionFailed | ErrTooShort | ErrKEK | ErrNoFile

subsection \<open>The encryption manager\<close>

text \<open>A Go map that may be nil is an optional map: reading a nil map finds nothing, writing panics.\<close>

record EncryptionManager =
  activeDEK :: bytes
  activeVer :: u32
  oldDEKs :: "(u32 \<rightharpoonup> bytes) option"
  aeads :: "(u32 \<rightharpoonup> AEAD) option"
  keyID :: string
  closed :: bool

definition go_map_get :: "('k \<rightharpoonup> 'v) option \<Rightarrow> 'k \<Rightarrow> 'v option" where
  "go_map_get m k = Option.bind m (\<lambda>f. f k)"

definition go_map_put :: "'k \<Rightarrow> 'v \<Rightarrow> ('k \<rightharpoonup> 'v) option \<Rightarrow> ('k \<rightharpoonup> 'v) option" where
  "go_map_put k v m = map_option (\<lambda>f. f(k \<mapsto> v)) m"

definition NewEncryptionManager ::
  "(bytes \<Rightarrow> AEAD) \<Rightarrow> bytes \<Rightarrow> string \<Rightarrow> crypto_error + EncryptionManager" where
  "NewEncryptionManager gcm dek kid =
     (if length dek \<noteq> 32 then Inl ErrKeyLength
      else Inr \<lparr>activeDEK = dek, activeVer = 1, oldDEKs = Some Map.empty,
                aeads = Some [1 \<mapsto> gcm dek], keyID = kid, closed = False\<rparr>)"

definition ForKeyVersion :: "EncryptionManager \<Rightarrow> u32 \<Rightarrow> EncryptionManager option" where
  "ForKeyVersion em version =
     (if closed em then None
      else if version = activeVer em then Some em
      else case go_map_get (aeads em) version of
        Some a \<Rightarrow> Some \<lparr>activeDEK = (case go_map_get (oldDEKs em) version of Some d \<Rightarrow> d | None \<Rightarrow> []),
                        activeVer = version, oldDEKs = None, aeads = Some [version \<mapsto> a],
                        keyID = [], closed = False\<rparr>
      | None \<Rightarrow> None)"

definition EncryptPage ::
  "EncryptionManager \<Rightarrow> bytes option \<Rightarrow> bytes \<Rightarrow> bytes \<Rightarrow> (crypto_error + bytes \<times> bytes) option" where
  "EncryptPage em rnd plaintext pageID =
     (if closed em then Some (Inl ErrClosed)
      else case rnd of
        None \<Rightarrow> Some (Inl ErrRandom)
      | Some nonce \<Rightarrow>
          (case go_map_get (aeads em) (activeVer em) of
             None \<Rightarrow> None
           | Some a \<Rightarrow> Some (Inr (nonce, Seal a nonce plaintext pageID))))"

definition DecryptPage ::
  "EncryptionManager \<Rightarrow> bytes \<Rightarrow> bytes \<Rightarrow> bytes \<Rightarrow> u32 \<Rightarrow> crypto_error + bytes" where
  "DecryptPage em nonce ciphertext pageID version =
     (if closed em then Inl ErrClosed
      else case go_map_get (aeads em) version of
        None \<Rightarrow> Inl ErrUnknownKeyVersion
      | Some a \<Rightarrow> (case Open a nonce ciphertext pageID of None \<Rightarrow> Inl ErrAuthFailed | Some p \<Rightarrow> Inr p))"

definition KeyVersion :: "EncryptionManager \<Rightarrow> u32" where
  "KeyVersion em = activeVer em"

definition RotateDEK ::
  "(bytes \<Rightarrow> AEAD) \<Rightarrow> bytes \<Rightarrow> EncryptionManager \<Rightarrow> (crypto_error + EncryptionManager) option" where
  "RotateDEK gcm newDEK em =
     (if length newDEK \<noteq> 32 then Some (Inl ErrKeyLength)
      else let newVer = activeVer em + 1
        in Option.bind (go_map_put (activeVer em) (activeDEK em) (oldDEKs em)) (\<lambda>olds.
           Option.bind (go_map_put newVer (gcm newDEK) (aeads em)) (\<lambda>as.
             Some (Inr (em\<lparr>oldDEKs := Some olds, aeads := Some as,
                           activeDEK := newDEK, activeVer := newVer\<rparr>)))))"

definition zeroizeSlice :: "bytes \<Rightarrow> bytes" where
  "zeroizeSlice b = replicate (length b) 0"

definition Zeroize :: "EncryptionManager \<Rightarrow> EncryptionManager" where
  "Zeroize em =
     em\<lparr>activeDEK := zeroizeSlice (activeDEK em), aeads := None, oldDEKs := None, closed := True\<rparr>"

subsection \<open>The TDE engine\<close>

record TDEEngine =
  aead :: AEAD

definition NewTDEEngine :: "(bytes \<Rightarrow> AEAD) \<Rightarrow> bytes \<Rightarrow> crypto_error + TDEEngine" where
  "NewTDEEngine gcm key = (if length key \<noteq> 32 then Inl ErrKeyLength else Inr \<lparr>aead = gcm key\<rparr>)"

text \<open>The nonce: \<open>NonceSize() = 12\<close> bytes, the first eight of them the given number.\<close>

definition tde_nonce :: "u64 \<Rightarrow> bytes" where
  "tde_nonce n = le64 n @ replicate 4 0"

definition TDE_EncryptPage :: "TDEEngine \<Rightarrow> bytes \<Rightarrow> u64 \<Rightarrow> bytes" where
  "TDE_EncryptPage e data pageID = Seal (aead e) (tde_nonce pageID) data []"

definition TDE_DecryptPage :: "TDEEngine \<Rightarrow> bytes \<Rightarrow> u64 \<Rightarrow> crypto_error + bytes" where
  "TDE_DecryptPage e data pageID =
     (case Open (aead e) (tde_nonce pageID) data [] of None \<Rightarrow> Inl ErrDecryptionFailed | Some p \<Rightarrow> Inr p)"

definition EncryptWAL :: "TDEEngine \<Rightarrow> bytes \<Rightarrow> u64 \<Rightarrow> bytes" where
  "EncryptWAL e data lsn = Seal (aead e) (tde_nonce lsn) data []"

definition DecryptWAL :: "TDEEngine \<Rightarrow> bytes \<Rightarrow> u64 \<Rightarrow> crypto_error + bytes" where
  "DecryptWAL e data lsn =
     (case Open (aead e) (tde_nonce lsn) data [] of None \<Rightarrow> Inl ErrDecryptionFailed | Some p \<Rightarrow> Inr p)"

subsection \<open>The wrapped key file\<close>

text \<open>
  \<open>encryptDEK\<close> puts the nonce in front of the sealed key. The database directory is a map from file
  names to contents whose writes succeed; \<open>kek\<close> is what the key source returned and \<open>meta\<close> the JSON
  text of \<^verbatim>\<open>EncryptionMeta\<close>.
\<close>

definition aes_key_ok :: "bytes \<Rightarrow> bool" where
  "aes_key_ok k \<longleftrightarrow> length k = 16 \<or> length k = 24 \<or> length k = 32"

definition encryptDEK :: "(bytes \<Rightarrow> AEAD) \<Rightarrow> bytes option \<Rightarrow> bytes \<Rightarrow> bytes \<Rightarrow> crypto_error + bytes" where
  "encryptDEK gcm rnd dek kek =
     (if \<not> aes_key_ok kek then Inl ErrKeyLength
      else case rnd of None \<Rightarrow> Inl ErrRandom | Some nonce \<Rightarrow> Inr (nonce @ Seal (gcm kek) nonce dek []))"

definition decryptDEK :: "(bytes \<Rightarrow> AEAD) \<Rightarrow> bytes \<Rightarrow> bytes \<Rightarrow> crypto_error + bytes" where
  "decryptDEK gcm encDEK kek =
     (if \<not> aes_key_ok kek then Inl ErrKeyLength
      else if length encDEK < 12 then Inl ErrTooShort
      else case Open (gcm kek) (take 12 encDEK) (drop 12 encDEK) [] of
        None \<Rightarrow> Inl ErrAuthFailed | Some p \<Rightarrow> Inr p)"

definition dekPath :: string where "dekPath = ''.dek.enc''"
definition metaPath :: string where "metaPath = ''.encryption_meta.json''"

definition GenerateAndStoreDEK ::
  "(bytes \<Rightarrow> AEAD) \<Rightarrow> crypto_error + bytes \<Rightarrow> bytes option \<Rightarrow> bytes option \<Rightarrow> bytes \<Rightarrow> (string \<rightharpoonup> bytes)
     \<Rightarrow> (string \<rightharpoonup> bytes) \<times> (crypto_error + EncryptionManager)" where
  "GenerateAndStoreDEK gcm kek rndKey rndNonce meta dir =
     (case kek of
        Inl e \<Rightarrow> (dir, Inl e)
      | Inr k \<Rightarrow>
          (case rndKey of
             None \<Rightarrow> (dir, Inl ErrRandom)
           | Some dek \<Rightarrow>
               (case encryptDEK gcm rndNonce dek k of
                  Inl e \<Rightarrow> (dir, Inl e)
                | Inr encDEK \<Rightarrow>
                    (dir(dekPath \<mapsto> encDEK, metaPath \<mapsto> meta), NewEncryptionManager gcm dek ''v1''))))"

definition LoadDEK ::
  "(bytes \<Rightarrow> AEAD) \<Rightarrow> crypto_error + bytes \<Rightarrow> (string \<rightharpoonup> bytes) \<Rightarrow> crypto_error + EncryptionManager" where
  "LoadDEK gcm kek dir =
     (case kek of
        Inl e \<Rightarrow> Inl e
      | Inr k \<Rightarrow>
          (case dir dekPath of
             None \<Rightarrow> Inl ErrNoFile
           | Some encDEK \<Rightarrow>
               (case decryptDEK gcm encDEK k of
                  Inl e \<Rightarrow> Inl e
                | Inr dek \<Rightarrow> NewEncryptionManager gcm dek ''v1'')))"

subsection \<open>The header of an encrypted page\<close>

record EncryptedPageHeader =
  eph_Magic :: bytes
  eph_KeyVersion :: u32
  eph_Nonce :: bytes

definition EncryptedPageMagic :: bytes where
  "EncryptedPageMagic = [0x56, 0x44, 0x42, 0x45]"  \<comment> \<open>VDBE\<close>

definition EncryptedPageHeaderSize :: nat where
  "EncryptedPageHeaderSize = 20"

definition IsEncryptedPage :: "bytes \<Rightarrow> bool" where
  "IsEncryptedPage raw \<longleftrightarrow> length raw \<ge> 4 \<and> take 4 raw = EncryptedPageMagic"

datatype header_error = ErrPageTooSmall | ErrNotEncrypted

definition ParseEncryptedHeader :: "bytes \<Rightarrow> header_error + EncryptedPageHeader" where
  "ParseEncryptedHeader raw =
     (if length raw < EncryptedPageHeaderSize then Inl ErrPageTooSmall
      else if take 4 raw \<noteq> EncryptedPageMagic then Inl ErrNotEncrypted
      else Inr \<lparr>eph_Magic = take 4 raw, eph_KeyVersion = get32 (drop 4 raw),
                eph_Nonce = window 8 12 raw\<rparr>)"

definition WriteEncryptedHeader :: "bytes \<Rightarrow> EncryptedPageHeader \<Rightarrow> bytes option" where
  "WriteEncryptedHeader buf hdr =
     (if length buf < 4 then None
      else Option.bind (put_at 4 (le32 (eph_KeyVersion hdr)) (overwrite 0 (take 4 (eph_Magic hdr)) buf))
        (\<lambda>buf. if length buf < 20 then None
               else Some (overwrite 8 (take 12 (eph_Nonce hdr)) buf)))"

section \<open>Key rotation\<close>

text \<open>
  \<open>em_ok\<close>: an open manager with both maps present whose current version has an AEAD and whose
  versions are all at most the current one.
\<close>

definition em_ok :: "EncryptionManager \<Rightarrow> bool" where
  "em_ok em \<longleftrightarrow> \<not> closed em \<and> oldDEKs em \<noteq> None
     \<and> (\<exists>as. aeads em = Some as \<and> activeVer em \<in> dom as \<and> (\<forall>v \<in> dom as. v \<le> activeVer em)
          \<and> (\<forall>a \<in> ran as. aead_ok a))"

fun rotate_all :: "(bytes \<Rightarrow> AEAD) \<Rightarrow> bytes list \<Rightarrow> EncryptionManager \<Rightarrow> (crypto_error + EncryptionManager) option" where
  "rotate_all gcm [] em = Some (Inr em)"
| "rotate_all gcm (k # ks) em =
     Option.bind (RotateDEK gcm k em) (\<lambda>r. case r of Inl e \<Rightarrow> Some (Inl e) | Inr em' \<Rightarrow> rotate_all gcm ks em')"

lemma NewEncryptionManager_ok:
  "NewEncryptionManager gcm dek kid = Inr em \<Longrightarrow> aead_ok (gcm dek) \<Longrightarrow> em_ok em"
  by (auto simp: NewEncryptionManager_def em_ok_def split: if_splits)

lemma RotateDEK_props:
  assumes ok: "em_ok em" and k: "length k = 32" "aead_ok (gcm k)" and v: "unat (activeVer em) + 1 < 2 ^ 32"
  shows "\<exists>em'. RotateDEK gcm k em = Some (Inr em') \<and> em_ok em' \<and> unat (activeVer em') = unat (activeVer em) + 1
    \<and> activeDEK em' = k
    \<and> (\<forall>ver. ver \<le> activeVer em \<longrightarrow> go_map_get (aeads em') ver = go_map_get (aeads em) ver)"
proof -
  have u: "unat (activeVer em + 1) = unat (activeVer em) + 1"
    using v by (simp add: unat_word_ariths)
  obtain as olds where m: "aeads em = Some as" "oldDEKs em = Some olds" using ok by (auto simp: em_ok_def)
  have lt: "activeVer em < activeVer em + 1" using u by (simp add: word_less_nat_alt)
  have "\<forall>w \<in> dom as. w \<le> activeVer em" using ok m by (simp add: em_ok_def)
  then have le: "\<forall>w \<in> dom as. w \<le> activeVer em + 1"
    using lt by (meson less_imp_le order_trans)
  have "\<forall>a \<in> ran (as(activeVer em + 1 \<mapsto> gcm k)). aead_ok a"
    using ok m k by (auto simp: em_ok_def ran_def)
  moreover have "activeVer em + 1 \<noteq> ver" if "ver \<le> activeVer em" for ver using that lt by auto
  ultimately show ?thesis
    using ok m k u le
    by (auto simp: RotateDEK_def em_ok_def go_map_put_def go_map_get_def Let_def)
qed

lemma rotate_all_props:
  "em_ok em \<Longrightarrow> \<forall>k \<in> set ks. length k = 32 \<and> aead_ok (gcm k) \<Longrightarrow>
     unat (activeVer em) + length ks < 2 ^ 32 \<Longrightarrow>
     \<exists>em'. rotate_all gcm ks em = Some (Inr em') \<and> em_ok em'
       \<and> unat (activeVer em') = unat (activeVer em) + length ks
       \<and> (\<forall>ver. ver \<le> activeVer em \<longrightarrow> go_map_get (aeads em') ver = go_map_get (aeads em) ver)"
proof (induction ks arbitrary: em)
  case Nil
  then show ?case by simp
next
  case (Cons k ks)
  obtain em1 where em1: "RotateDEK gcm k em = Some (Inr em1)" "em_ok em1"
      "unat (activeVer em1) = unat (activeVer em) + 1"
      "\<forall>ver. ver \<le> activeVer em \<longrightarrow> go_map_get (aeads em1) ver = go_map_get (aeads em) ver"
    using RotateDEK_props [OF Cons.prems(1), of k gcm] Cons.prems by auto
  obtain em2 where em2: "rotate_all gcm ks em1 = Some (Inr em2)" "em_ok em2"
      "unat (activeVer em2) = unat (activeVer em1) + length ks"
      "\<forall>ver. ver \<le> activeVer em1 \<longrightarrow> go_map_get (aeads em2) ver = go_map_get (aeads em1) ver"
    using Cons.IH [OF em1(2)] Cons.prems em1(3) by auto
  have "ver \<le> activeVer em1" if "ver \<le> activeVer em" for ver
    using that em1(3) by (simp add: word_le_nat_alt)
  then show ?case using em1 em2 by simp
qed

lemma DecryptPage_get:
  "\<not> closed em \<Longrightarrow> go_map_get (aeads em) ver = Some a \<Longrightarrow> aead_ok a \<Longrightarrow>
     DecryptPage em n (Seal a n p ad) ad ver = Inr p"
  by (simp add: DecryptPage_def aead_ok_def)

lemma EncryptPage_Inr:
  assumes "em_ok em"
  shows "\<exists>a. go_map_get (aeads em) (activeVer em) = Some a \<and> aead_ok a
    \<and> EncryptPage em (Some nonce) p ad = Some (Inr (nonce, Seal a nonce p ad))"
  using assms by (auto simp: em_ok_def EncryptPage_def go_map_get_def ran_def)

section \<open>Properties\<close>

text \<open>
  C26: pages survive key rotation. What \<open>EncryptPage\<close> sealed under the key version of the moment is
  decrypted by the manager after any number of later \<open>RotateDEK\<close> calls (as long as the 32-bit
  version does not wrap), given the nonce, the associated data and the version stored with it.
\<close>

theorem rotation_keeps_readable:
  assumes "em_ok em" and "\<forall>k \<in> set ks. length k = 32 \<and> aead_ok (gcm k)"
    and "unat (KeyVersion em) + length ks < 2 ^ 32"
  shows "\<exists>c em'. EncryptPage em (Some nonce) p ad = Some (Inr (nonce, c))
    \<and> rotate_all gcm ks em = Some (Inr em') \<and> unat (KeyVersion em') = unat (KeyVersion em) + length ks
    \<and> DecryptPage em' nonce c ad (KeyVersion em) = Inr p"
proof -
  obtain a where a: "go_map_get (aeads em) (activeVer em) = Some a" "aead_ok a"
      "EncryptPage em (Some nonce) p ad = Some (Inr (nonce, Seal a nonce p ad))"
    using EncryptPage_Inr [OF assms(1)] by blast
  obtain em' where em': "rotate_all gcm ks em = Some (Inr em')" "em_ok em'"
      "unat (activeVer em') = unat (activeVer em) + length ks"
      "go_map_get (aeads em') (activeVer em) = go_map_get (aeads em) (activeVer em)"
    using rotate_all_props [OF assms(1,2)] assms(3) by (auto simp: KeyVersion_def)
  have "DecryptPage em' nonce (Seal a nonce p ad) ad (activeVer em) = Inr p"
    using em' a by (intro DecryptPage_get) (auto simp: em_ok_def)
  then show ?thesis using a em' by (simp add: KeyVersion_def)
qed

definition demo_gcm :: "bytes \<Rightarrow> AEAD" where
  "demo_gcm k = \<lparr>Seal = \<lambda>n p ad. map2 (XOR) p (concat (replicate (length p) k)) @ replicate 16 0,
     Open = \<lambda>n c ad. Some (map2 (XOR) (take (length c - 16) c) (concat (replicate (length c - 16) k)))\<rparr>"

lemma length_concat_replicate: "k \<noteq> [] \<Longrightarrow> n \<le> length (concat (replicate n k))"
  by (induction n) (auto simp: Suc_le_eq neq_Nil_conv)

lemma map2_xor_twice: "length p \<le> length ks \<Longrightarrow> map2 (XOR) (map2 (XOR) p ks) ks = (p :: bytes)"
  by (induction p ks rule: list_induct2') (auto simp: xor.assoc)

lemma demo_gcm_ok: "k \<noteq> [] \<Longrightarrow> aead_ok (demo_gcm k)"
  using length_concat_replicate [of k]
  by (auto simp: aead_ok_def demo_gcm_def map2_xor_twice min_def)

theorem rotation_keeps_readable_witness:
  "\<exists>em c em'. NewEncryptionManager demo_gcm (replicate 32 7) ''v1'' = Inr em
     \<and> EncryptPage em (Some (replicate 12 5)) [1, 2, 3] [9] = Some (Inr (replicate 12 5, c))
     \<and> rotate_all demo_gcm [replicate 32 8, replicate 32 9] em = Some (Inr em')
     \<and> unat (KeyVersion em') = 3 \<and> DecryptPage em' (replicate 12 5) c [9] 1 = Inr [1, 2, 3]"
proof -
  define em where "em = \<lparr>activeDEK = replicate 32 (7::byte), activeVer = 1, oldDEKs = Some Map.empty,
                aeads = Some [1 \<mapsto> demo_gcm (replicate 32 7)], keyID = ''v1'', closed = False\<rparr>"
  have new: "NewEncryptionManager demo_gcm (replicate 32 7) ''v1'' = Inr em"
    by (simp add: NewEncryptionManager_def em_def)
  have "em_ok em" using NewEncryptionManager_ok [OF new] demo_gcm_ok by simp
  moreover have "KeyVersion em = 1" by (simp add: KeyVersion_def em_def)
  ultimately show ?thesis
    using new demo_gcm_ok rotation_keeps_readable [of em "[replicate 32 8, replicate 32 9]" demo_gcm
        "replicate 12 5" "[1, 2, 3]" "[9]"] by auto
qed

text \<open>
  the key that \<open>GenerateAndStoreDEK\<close> stores is the one \<open>LoadDEK\<close> finds under the same key
  encryption key: after a restart the server has an equal encryption manager.
\<close>

theorem LoadDEK_Generate:
  assumes "aes_key_ok kek" and "aead_ok (gcm kek)" and "length nonce = 12" and "length dek = 32"
  shows "\<exists>dir' em. GenerateAndStoreDEK gcm (Inr kek) (Some dek) (Some nonce) meta dir = (dir', Inr em)
    \<and> activeDEK em = dek \<and> LoadDEK gcm (Inr kek) dir' = Inr em"
  using assms
  by (simp add: GenerateAndStoreDEK_def LoadDEK_def encryptDEK_def decryptDEK_def aead_ok_def
      NewEncryptionManager_def dekPath_def metaPath_def)

theorem LoadDEK_Generate_witness:
  "\<exists>dir' em. GenerateAndStoreDEK demo_gcm (Inr (replicate 16 3)) (Some (replicate 32 7)) (Some (replicate 12 1)) []
       Map.empty = (dir', Inr em) \<and> activeDEK em = replicate 32 7
     \<and> LoadDEK demo_gcm (Inr (replicate 16 3)) dir' = Inr em"
  by (rule LoadDEK_Generate) (simp_all add: aes_key_ok_def demo_gcm_ok)

end
