(* ===== verification/Wal_Payload.thy ===== *)
theory Wal_Payload
  imports Vdb_Prelude
begin

text \<open>
  The payloads of write-ahead log records and their binary encoding, the first part of
  \<^verbatim>\<open>server/internal/core/wal/wal.go\<close>. Go strings are byte strings. The encoders build a
  \<^verbatim>\<open>bytes.Buffer\<close>, here the list of its bytes; the decoders consume a \<^verbatim>\<open>bytes.Reader\<close>, here the
  list of bytes left. They ignore read errors: a value cut short by the end of the input keeps its
  zero value, a string or byte slice cut short is padded with zero bytes.

  The reflective \<^verbatim>\<open>encoding/json\<close> codec of the legacy payloads and of the types without a binary
  form is the parameter \<open>'j JSON\<close>.
\<close>

section \<open>Operation codes and payloads\<close>

definition OpInsert :: u8 where "OpInsert = 0x01"
definition OpUpdate :: u8 where "OpUpdate = 0x02"
definition OpDelete :: u8 where "OpDelete = 0x03"
definition OpCreateDatabase :: u8 where "OpCreateDatabase = 0x10"
definition OpDropDatabase :: u8 where "OpDropDatabase = 0x11"
definition OpCreateTable :: u8 where "OpCreateTable = 0x12"
definition OpDropTable :: u8 where "OpDropTable = 0x13"
definition OpVacuum :: u8 where "OpVacuum = 0x14"
definition OpAlterTable :: u8 where "OpAlterTable = 0x15"
definition OpCheckpoint :: u8 where "OpCheckpoint = 0xF0"
definition OpPageInsert :: u8 where "OpPageInsert = 0x20"
definition OpPageDelete :: u8 where "OpPageDelete = 0x21"
definition OpPageUpdateXMax :: u8 where "OpPageUpdateXMax = 0x22"
definition OpPageNewPage :: u8 where "OpPageNewPage = 0x23"
definition OpVacuumBegin :: u8 where "OpVacuumBegin = 0x30"
definition OpVacuumCommit :: u8 where "OpVacuumCommit = 0x31"
definition OpAbort :: u8 where "OpAbort = 0x40"
definition OpCommit :: u8 where "OpCommit = 0x50"
definition OpSchemaWrite :: u8 where "OpSchemaWrite = 0x60"
definition OpRewriteBegin :: u8 where "OpRewriteBegin = 0x61"
definition OpRewriteData :: u8 where "OpRewriteData = 0x62"
definition OpRewriteCommit :: u8 where "OpRewriteCommit = 0x63"
definition OpTruncateTable :: u8 where "OpTruncateTable = 0x64"
definition OpFullPageImage :: u8 where "OpFullPageImage = 0x70"

lemmas op_defs =
  OpInsert_def OpUpdate_def OpDelete_def OpCreateDatabase_def OpDropDatabase_def OpCreateTable_def
  OpDropTable_def OpVacuum_def OpAlterTable_def OpCheckpoint_def OpPageInsert_def OpPageDelete_def
  OpPageUpdateXMax_def OpPageNewPage_def OpVacuumBegin_def OpVacuumCommit_def OpAbort_def OpCommit_def
  OpSchemaWrite_def OpRewriteBegin_def OpRewriteData_def OpRewriteCommit_def OpTruncateTable_def
  OpFullPageImage_def

record WALPageInsertPayload =
  pi_DB :: bytes
  pi_Table :: bytes
  pi_SegmentNo :: u16
  pi_PageNo :: u32
  pi_SlotNo :: u16
  pi_XID :: u64
  pi_TupleData :: bytes

record WALPageDeletePayload =
  pd_DB :: bytes
  pd_Table :: bytes
  pd_SegmentNo :: u16
  pd_PageNo :: u32
  pd_SlotNo :: u16
  pd_XMax :: u64

record WALVacuumPayload =
  va_DB :: bytes
  va_Table :: bytes
  va_ShadowPath :: bytes

record WALSchemaWritePayload =
  sw_DB :: bytes
  sw_Table :: bytes
  sw_Schema :: bytes

record WALRewritePayload =
  rw_DB :: bytes
  rw_Table :: bytes

record WALTruncateTablePayload =
  tt_DB :: bytes
  tt_Table :: bytes

record CheckpointPayload =
  cp_LSN :: u64

text \<open>\<open>Timestamp\<close> is an \<^verbatim>\<open>int64\<close>: the 64-bit word read with \<^const>\<open>sint\<close>.\<close>

record CommitPayload =
  co_Timestamp :: u64

record FullPageImagePayload =
  fp_DB :: bytes
  fp_Table :: bytes
  fp_SegmentNo :: u16
  fp_PageNo :: u32
  fp_PageData :: bytes

datatype 'j payload =
  PPageInsert WALPageInsertPayload
| PPageDelete WALPageDeletePayload
| PSchemaWrite WALSchemaWritePayload
| PVacuum WALVacuumPayload
| PRewrite WALRewritePayload
| PTruncateTable WALTruncateTablePayload
| PCheckpoint CheckpointPayload
| PCommit CommitPayload
| PFullPageImage FullPageImagePayload
| POther 'j

datatype payload_error = ErrJSON | ErrUnknownOp u8

text \<open>\<^verbatim>\<open>json.Marshal\<close> on a value, and \<^verbatim>\<open>json.Unmarshal\<close> into a variable of each payload type.\<close>

record 'j JSON =
  Marshal :: "'j \<Rightarrow> bytes option"
  UnmarshalPageInsert :: "bytes \<Rightarrow> WALPageInsertPayload option"
  UnmarshalPageDelete :: "bytes \<Rightarrow> WALPageDeletePayload option"
  UnmarshalSchemaWrite :: "bytes \<Rightarrow> WALSchemaWritePayload option"
  UnmarshalVacuum :: "bytes \<Rightarrow> WALVacuumPayload option"
  UnmarshalRewrite :: "bytes \<Rightarrow> WALRewritePayload option"
  UnmarshalTruncateTable :: "bytes \<Rightarrow> WALTruncateTablePayload option"
  UnmarshalCheckpoint :: "bytes \<Rightarrow> CheckpointPayload option"
  UnmarshalCommit :: "bytes \<Rightarrow> CommitPayload option"
  UnmarshalFullPageImage :: "bytes \<Rightarrow> FullPageImagePayload option"
  UnmarshalOther :: "bytes \<Rightarrow> 'j option"

section \<open>Length-prefixed strings and readers\<close>

definition binaryPayloadMarker :: u8 where
  "binaryPayloadMarker = 0x01"

definition writeLPString :: "bytes \<Rightarrow> bytes" where
  "writeLPString s = le16 (word_of_nat (length s)) @ s"

text \<open>\<^verbatim>\<open>binary.Read\<close> of a fixed-size integer, error ignored, and \<^verbatim>\<open>io.ReadFull\<close> into \<^verbatim>\<open>make([]byte, n)\<close>.\<close>

definition read16 :: "bytes \<Rightarrow> u16 \<times> bytes" where
  "read16 r = (if length r < 2 then (0, []) else (get16 r, drop 2 r))"

definition read32 :: "bytes \<Rightarrow> u32 \<times> bytes" where
  "read32 r = (if length r < 4 then (0, []) else (get32 r, drop 4 r))"

definition read64 :: "bytes \<Rightarrow> u64 \<times> bytes" where
  "read64 r = (if length r < 8 then (0, []) else (get64 r, drop 8 r))"

definition readFull :: "nat \<Rightarrow> bytes \<Rightarrow> bytes \<times> bytes" where
  "readFull n r = (take n r @ replicate (n - length r) 0, drop n r)"

definition readLPString :: "bytes \<Rightarrow> bytes \<times> bytes" where
  "readLPString r = (let (l, r) = read16 r in if l = 0 then ([], r) else readFull (unat l) r)"

text \<open>A byte slice with a 32-bit length in front of it.\<close>

definition readBlob :: "bytes \<Rightarrow> bytes \<times> bytes" where
  "readBlob r = (let (l, r) = read32 r in if l > 0 then readFull (unat l) r else ([], r))"

section \<open>Encoders and decoders\<close>

definition encodePageInsertBinary :: "WALPageInsertPayload \<Rightarrow> bytes" where
  "encodePageInsertBinary p =
     [binaryPayloadMarker] @ writeLPString (pi_DB p) @ writeLPString (pi_Table p)
     @ le16 (pi_SegmentNo p) @ le32 (pi_PageNo p) @ le16 (pi_SlotNo p) @ le64 (pi_XID p)
     @ le32 (word_of_nat (length (pi_TupleData p))) @ pi_TupleData p"

definition decodePageInsertBinary :: "bytes \<Rightarrow> WALPageInsertPayload" where
  "decodePageInsertBinary data =
     (let (db, r) = readLPString data; (tbl, r) = readLPString r; (seg, r) = read16 r;
          (pno, r) = read32 r; (slot, r) = read16 r; (xid, r) = read64 r; (tup, r) = readBlob r
      in \<lparr>pi_DB = db, pi_Table = tbl, pi_SegmentNo = seg, pi_PageNo = pno, pi_SlotNo = slot,
          pi_XID = xid, pi_TupleData = tup\<rparr>)"

definition encodePageDeleteBinary :: "WALPageDeletePayload \<Rightarrow> bytes" where
  "encodePageDeleteBinary p =
     [binaryPayloadMarker] @ writeLPString (pd_DB p) @ writeLPString (pd_Table p)
     @ le16 (pd_SegmentNo p) @ le32 (pd_PageNo p) @ le16 (pd_SlotNo p) @ le64 (pd_XMax p)"

definition decodePageDeleteBinary :: "bytes \<Rightarrow> WALPageDeletePayload" where
  "decodePageDeleteBinary data =
     (let (db, r) = readLPString data; (tbl, r) = readLPString r; (seg, r) = read16 r;
          (pno, r) = read32 r; (slot, r) = read16 r; (xmax, r) = read64 r
      in \<lparr>pd_DB = db, pd_Table = tbl, pd_SegmentNo = seg, pd_PageNo = pno, pd_SlotNo = slot,
          pd_XMax = xmax\<rparr>)"

definition encodeSchemaWriteBinary :: "WALSchemaWritePayload \<Rightarrow> bytes" where
  "encodeSchemaWriteBinary p =
     [binaryPayloadMarker] @ writeLPString (sw_DB p) @ writeLPString (sw_Table p)
     @ writeLPString (sw_Schema p)"

definition decodeSchemaWriteBinary :: "bytes \<Rightarrow> WALSchemaWritePayload" where
  "decodeSchemaWriteBinary data =
     (let (db, r) = readLPString data; (tbl, r) = readLPString r; (sch, r) = readLPString r
      in \<lparr>sw_DB = db, sw_Table = tbl, sw_Schema = sch\<rparr>)"

definition encodeVacuumBinary :: "WALVacuumPayload \<Rightarrow> bytes" where
  "encodeVacuumBinary p =
     [binaryPayloadMarker] @ writeLPString (va_DB p) @ writeLPString (va_Table p)
     @ writeLPString (va_ShadowPath p)"

definition decodeVacuumBinary :: "bytes \<Rightarrow> WALVacuumPayload" where
  "decodeVacuumBinary data =
     (let (db, r) = readLPString data; (tbl, r) = readLPString r; (sp, r) = readLPString r
      in \<lparr>va_DB = db, va_Table = tbl, va_ShadowPath = sp\<rparr>)"

definition encodeRewriteBinary :: "WALRewritePayload \<Rightarrow> bytes" where
  "encodeRewriteBinary p = [binaryPayloadMarker] @ writeLPString (rw_DB p) @ writeLPString (rw_Table p)"

definition decodeRewriteBinary :: "bytes \<Rightarrow> WALRewritePayload" where
  "decodeRewriteBinary data =
     (let (db, r) = readLPString data; (tbl, r) = readLPString r in \<lparr>rw_DB = db, rw_Table = tbl\<rparr>)"

definition encodeTruncateTableBinary :: "WALTruncateTablePayload \<Rightarrow> bytes" where
  "encodeTruncateTableBinary p =
     [binaryPayloadMarker] @ writeLPString (tt_DB p) @ writeLPString (tt_Table p)"

definition decodeTruncateTableBinary :: "bytes \<Rightarrow> WALTruncateTablePayload" where
  "decodeTruncateTableBinary data =
     (let (db, r) = readLPString data; (tbl, r) = readLPString r in \<lparr>tt_DB = db, tt_Table = tbl\<rparr>)"

definition encodeCheckpointBinary :: "CheckpointPayload \<Rightarrow> bytes" where
  "encodeCheckpointBinary p = [binaryPayloadMarker] @ le64 (cp_LSN p)"

definition decodeCheckpointBinary :: "bytes \<Rightarrow> CheckpointPayload" where
  "decodeCheckpointBinary data = \<lparr>cp_LSN = fst (read64 data)\<rparr>"

definition encodeCommitBinary :: "CommitPayload \<Rightarrow> bytes" where
  "encodeCommitBinary p = [binaryPayloadMarker] @ le64 (co_Timestamp p)"

definition decodeCommitBinary :: "bytes \<Rightarrow> CommitPayload" where
  "decodeCommitBinary data = \<lparr>co_Timestamp = fst (read64 data)\<rparr>"

definition encodeFullPageImageBinary :: "FullPageImagePayload \<Rightarrow> bytes" where
  "encodeFullPageImageBinary p =
     [binaryPayloadMarker] @ writeLPString (fp_DB p) @ writeLPString (fp_Table p)
     @ le16 (fp_SegmentNo p) @ le32 (fp_PageNo p)
     @ le32 (word_of_nat (length (fp_PageData p))) @ fp_PageData p"

definition decodeFullPageImageBinary :: "bytes \<Rightarrow> FullPageImagePayload" where
  "decodeFullPageImageBinary data =
     (let (db, r) = readLPString data; (tbl, r) = readLPString r; (seg, r) = read16 r;
          (pno, r) = read32 r; (pg, r) = readBlob r
      in \<lparr>fp_DB = db, fp_Table = tbl, fp_SegmentNo = seg, fp_PageNo = pno, fp_PageData = pg\<rparr>)"

fun EncodeWALPayloadBinary :: "'j JSON \<Rightarrow> 'j payload \<Rightarrow> payload_error + bytes" where
  "EncodeWALPayloadBinary js (PPageInsert p) = Inr (encodePageInsertBinary p)"
| "EncodeWALPayloadBinary js (PPageDelete p) = Inr (encodePageDeleteBinary p)"
| "EncodeWALPayloadBinary js (PSchemaWrite p) = Inr (encodeSchemaWriteBinary p)"
| "EncodeWALPayloadBinary js (PVacuum p) = Inr (encodeVacuumBinary p)"
| "EncodeWALPayloadBinary js (PRewrite p) = Inr (encodeRewriteBinary p)"
| "EncodeWALPayloadBinary js (PTruncateTable p) = Inr (encodeTruncateTableBinary p)"
| "EncodeWALPayloadBinary js (PCheckpoint p) = Inr (encodeCheckpointBinary p)"
| "EncodeWALPayloadBinary js (PCommit p) = Inr (encodeCommitBinary p)"
| "EncodeWALPayloadBinary js (PFullPageImage p) = Inr (encodeFullPageImageBinary p)"
| "EncodeWALPayloadBinary js (POther v) =
     (case Marshal js v of None \<Rightarrow> Inl ErrJSON | Some bs \<Rightarrow> Inr bs)"

definition decodeBinaryPayload :: "bytes \<Rightarrow> u8 \<Rightarrow> payload_error + 'j payload" where
  "decodeBinaryPayload data opType =
     (if opType = OpPageInsert then Inr (PPageInsert (decodePageInsertBinary data))
      else if opType = OpPageDelete \<or> opType = OpPageUpdateXMax then Inr (PPageDelete (decodePageDeleteBinary data))
      else if opType = OpSchemaWrite then Inr (PSchemaWrite (decodeSchemaWriteBinary data))
      else if opType = OpVacuumBegin \<or> opType = OpVacuumCommit then Inr (PVacuum (decodeVacuumBinary data))
      else if opType = OpRewriteBegin \<or> opType = OpRewriteCommit \<or> opType = OpRewriteData
        then Inr (PRewrite (decodeRewriteBinary data))
      else if opType = OpTruncateTable then Inr (PTruncateTable (decodeTruncateTableBinary data))
      else if opType = OpCheckpoint then Inr (PCheckpoint (decodeCheckpointBinary data))
      else if opType = OpCommit then Inr (PCommit (decodeCommitBinary data))
      else if opType = OpFullPageImage then Inr (PFullPageImage (decodeFullPageImageBinary data))
      else Inl (ErrUnknownOp opType))"

definition unjson :: "('a \<Rightarrow> 'j payload) \<Rightarrow> 'a option \<Rightarrow> payload_error + 'j payload" where
  "unjson c r = (case r of None \<Rightarrow> Inl ErrJSON | Some p \<Rightarrow> Inr (c p))"

definition decodeLegacyJSONPayload :: "'j JSON \<Rightarrow> bytes \<Rightarrow> u8 \<Rightarrow> payload_error + 'j payload" where
  "decodeLegacyJSONPayload js data opType =
     (if opType = OpPageInsert then unjson PPageInsert (UnmarshalPageInsert js data)
      else if opType = OpPageDelete \<or> opType = OpPageUpdateXMax then unjson PPageDelete (UnmarshalPageDelete js data)
      else if opType = OpSchemaWrite then unjson PSchemaWrite (UnmarshalSchemaWrite js data)
      else if opType = OpVacuumBegin \<or> opType = OpVacuumCommit then unjson PVacuum (UnmarshalVacuum js data)
      else if opType = OpRewriteBegin \<or> opType = OpRewriteCommit \<or> opType = OpRewriteData
        then unjson PRewrite (UnmarshalRewrite js data)
      else if opType = OpTruncateTable then unjson PTruncateTable (UnmarshalTruncateTable js data)
      else if opType = OpCheckpoint then unjson PCheckpoint (UnmarshalCheckpoint js data)
      else if opType = OpCommit then unjson PCommit (UnmarshalCommit js data)
      else if opType = OpFullPageImage then unjson PFullPageImage (UnmarshalFullPageImage js data)
      else unjson POther (UnmarshalOther js data))"

text \<open>The decoded value is nil (\<^const>\<open>None\<close>) for an empty payload.\<close>

definition DecodeWALPayload :: "'j JSON \<Rightarrow> bytes \<Rightarrow> u8 \<Rightarrow> payload_error + 'j payload option" where
  "DecodeWALPayload js data opType =
     (case data of
        [] \<Rightarrow> Inr None
      | b # rest \<Rightarrow>
          map_sum id Some (if b = binaryPayloadMarker then decodeBinaryPayload rest opType
                           else decodeLegacyJSONPayload js data opType))"

section \<open>Reading back what was written\<close>

lemma read_le [simp, codec_simps]:
  "read16 (le16 a @ r) = (a, r)" "read32 (le32 b @ r) = (b, r)" "read64 (le64 c @ r) = (c, r)"
  "read64 (le64 c) = (c, [])"
  by (simp_all add: read16_def read32_def read64_def)

lemma readFull_append: "n \<le> length s \<Longrightarrow> readFull n (s @ r) = (take n s, drop n s @ r)"
  by (simp add: readFull_def)

text \<open>The 16-bit length in front of a string is taken modulo 65536; the string is written whole.\<close>

lemma readLPString_writeLPString_mod:
  "readLPString (writeLPString s @ r) = (take (length s mod 65536) s, drop (length s mod 65536) s @ r)"
proof -
  have u: "unat (word_of_nat (length s) :: u16) = length s mod 65536"
    by (simp add: unat_of_nat take_bit_eq_mod)
  then have "word_of_nat (length s) = (0 :: u16) \<longleftrightarrow> length s mod 65536 = 0"
    by (metis unat_0 unat_eq_zero)
  then show ?thesis
    by (auto simp: readLPString_def writeLPString_def u readFull_append)
qed

lemma readLPString_writeLPString [codec_simps]:
  "length s < 65536 \<Longrightarrow> readLPString (writeLPString s @ r) = (s, r)"
  "length s < 65536 \<Longrightarrow> readLPString (writeLPString s) = (s, [])"
  using readLPString_writeLPString_mod [of s r] readLPString_writeLPString_mod [of s "[]"] by simp_all

lemma readBlob_append [codec_simps]:
  assumes "length s < 4294967296"
  shows "readBlob (le32 (word_of_nat (length s)) @ s) = (s, [])"
proof (cases "s = []")
  case True
  then show ?thesis using read_le(2) [of 0 "[]"] by (simp add: readBlob_def)
next
  case False
  then have "word_of_nat (length s) > (0 :: u32)"
    using assms by (simp add: word_less_nat_alt unat_of_nat_u32)
  then show ?thesis
    using assms readFull_append [of "length s" s "[]"] by (simp add: readBlob_def unat_of_nat_u32)
qed

fun payload_fits :: "'j payload \<Rightarrow> bool" where
  "payload_fits (PPageInsert p) \<longleftrightarrow>
     length (pi_DB p) < 65536 \<and> length (pi_Table p) < 65536 \<and> length (pi_TupleData p) < 4294967296"
| "payload_fits (PPageDelete p) \<longleftrightarrow> length (pd_DB p) < 65536 \<and> length (pd_Table p) < 65536"
| "payload_fits (PSchemaWrite p) \<longleftrightarrow>
     length (sw_DB p) < 65536 \<and> length (sw_Table p) < 65536 \<and> length (sw_Schema p) < 65536"
| "payload_fits (PVacuum p) \<longleftrightarrow>
     length (va_DB p) < 65536 \<and> length (va_Table p) < 65536 \<and> length (va_ShadowPath p) < 65536"
| "payload_fits (PRewrite p) \<longleftrightarrow> length (rw_DB p) < 65536 \<and> length (rw_Table p) < 65536"
| "payload_fits (PTruncateTable p) \<longleftrightarrow> length (tt_DB p) < 65536 \<and> length (tt_Table p) < 65536"
| "payload_fits (PCheckpoint p) \<longleftrightarrow> True"
| "payload_fits (PCommit p) \<longleftrightarrow> True"
| "payload_fits (PFullPageImage p) \<longleftrightarrow>
     length (fp_DB p) < 65536 \<and> length (fp_Table p) < 65536 \<and> length (fp_PageData p) < 4294967296"
| "payload_fits (POther v) \<longleftrightarrow> False"

fun op_carries :: "u8 \<Rightarrow> 'j payload \<Rightarrow> bool" where
  "op_carries op (PPageInsert p) \<longleftrightarrow> op = OpPageInsert"
| "op_carries op (PPageDelete p) \<longleftrightarrow> op = OpPageDelete \<or> op = OpPageUpdateXMax"
| "op_carries op (PSchemaWrite p) \<longleftrightarrow> op = OpSchemaWrite"
| "op_carries op (PVacuum p) \<longleftrightarrow> op = OpVacuumBegin \<or> op = OpVacuumCommit"
| "op_carries op (PRewrite p) \<longleftrightarrow> op = OpRewriteBegin \<or> op = OpRewriteCommit \<or> op = OpRewriteData"
| "op_carries op (PTruncateTable p) \<longleftrightarrow> op = OpTruncateTable"
| "op_carries op (PCheckpoint p) \<longleftrightarrow> op = OpCheckpoint"
| "op_carries op (PCommit p) \<longleftrightarrow> op = OpCommit"
| "op_carries op (PFullPageImage p) \<longleftrightarrow> op = OpFullPageImage"
| "op_carries op (POther v) \<longleftrightarrow> False"

lemmas payload_codec_defs =
  encodePageInsertBinary_def decodePageInsertBinary_def encodePageDeleteBinary_def
  decodePageDeleteBinary_def encodeSchemaWriteBinary_def decodeSchemaWriteBinary_def
  encodeVacuumBinary_def decodeVacuumBinary_def encodeRewriteBinary_def decodeRewriteBinary_def
  encodeTruncateTableBinary_def decodeTruncateTableBinary_def encodeCheckpointBinary_def
  decodeCheckpointBinary_def encodeCommitBinary_def decodeCommitBinary_def
  encodeFullPageImageBinary_def decodeFullPageImageBinary_def

lemma decodeBinaryPayload_op:
  "decodeBinaryPayload d OpPageInsert = Inr (PPageInsert (decodePageInsertBinary d))"
  "decodeBinaryPayload d OpPageDelete = Inr (PPageDelete (decodePageDeleteBinary d))"
  "decodeBinaryPayload d OpPageUpdateXMax = Inr (PPageDelete (decodePageDeleteBinary d))"
  "decodeBinaryPayload d OpSchemaWrite = Inr (PSchemaWrite (decodeSchemaWriteBinary d))"
  "decodeBinaryPayload d OpVacuumBegin = Inr (PVacuum (decodeVacuumBinary d))"
  "decodeBinaryPayload d OpVacuumCommit = Inr (PVacuum (decodeVacuumBinary d))"
  "decodeBinaryPayload d OpRewriteBegin = Inr (PRewrite (decodeRewriteBinary d))"
  "decodeBinaryPayload d OpRewriteCommit = Inr (PRewrite (decodeRewriteBinary d))"
  "decodeBinaryPayload d OpRewriteData = Inr (PRewrite (decodeRewriteBinary d))"
  "decodeBinaryPayload d OpTruncateTable = Inr (PTruncateTable (decodeTruncateTableBinary d))"
  "decodeBinaryPayload d OpCheckpoint = Inr (PCheckpoint (decodeCheckpointBinary d))"
  "decodeBinaryPayload d OpCommit = Inr (PCommit (decodeCommitBinary d))"
  "decodeBinaryPayload d OpFullPageImage = Inr (PFullPageImage (decodeFullPageImageBinary d))"
  by (simp_all add: decodeBinaryPayload_def op_defs)

lemma DecodeWALPayload_Encode:
  "payload_fits p \<Longrightarrow> op_carries op p \<Longrightarrow>
     \<exists>bs. EncodeWALPayloadBinary js p = Inr bs \<and> DecodeWALPayload js bs op = Inr (Some p)"
  by (cases p)
    (auto simp: payload_codec_defs codec_simps DecodeWALPayload_def decodeBinaryPayload_op)

section \<open>Properties\<close>


definition demo_json :: "nat JSON" where
  "demo_json = \<lparr>Marshal = \<lambda>_. None, UnmarshalPageInsert = \<lambda>_. None, UnmarshalPageDelete = \<lambda>_. None,
     UnmarshalSchemaWrite = \<lambda>_. None, UnmarshalVacuum = \<lambda>_. None, UnmarshalRewrite = \<lambda>_. None,
     UnmarshalTruncateTable = \<lambda>_. None, UnmarshalCheckpoint = \<lambda>_. None, UnmarshalCommit = \<lambda>_. None,
     UnmarshalFullPageImage = \<lambda>_. None, UnmarshalOther = \<lambda>_. None\<rparr>"


text \<open>
  a schema of 65536 bytes or more does not survive the log. Its length is cut to 16 bits, so the
  decoder returns only the first \<open>length mod 65536\<close> bytes of it, without an error.
\<close>

theorem long_schema_truncated:
  assumes "length (sw_DB p) < 65536" and "length (sw_Table p) < 65536" and "length (sw_Schema p) \<ge> 65536"
  shows "\<exists>bs q. EncodeWALPayloadBinary js (PSchemaWrite p) = Inr bs
    \<and> DecodeWALPayload js bs OpSchemaWrite = Inr (Some (PSchemaWrite q))
    \<and> sw_Schema q = take (length (sw_Schema p) mod 65536) (sw_Schema p) \<and> sw_Schema q \<noteq> sw_Schema p"
proof -
  have "length (sw_Schema p) mod 65536 < length (sw_Schema p)"
    using assms(3) by (intro less_le_trans [OF mod_less_divisor]) simp_all
  then have "length (take (length (sw_Schema p) mod 65536) (sw_Schema p)) \<noteq> length (sw_Schema p)" by simp
  then have "take (length (sw_Schema p) mod 65536) (sw_Schema p) \<noteq> sw_Schema p" by metis
  then show ?thesis
    using assms(1,2) readLPString_writeLPString_mod [of "sw_Schema p" "[]"]
    by (simp add: payload_codec_defs codec_simps DecodeWALPayload_def decodeBinaryPayload_op)
qed

theorem long_schema_truncated_witness:
  "\<exists>bs q. EncodeWALPayloadBinary demo_json
        (PSchemaWrite \<lparr>sw_DB = [100], sw_Table = [116], sw_Schema = replicate 65536 123\<rparr>) = Inr bs
    \<and> DecodeWALPayload demo_json bs OpSchemaWrite = Inr (Some (PSchemaWrite q)) \<and> sw_Schema q = []"
proof -
  define p where "p = \<lparr>sw_DB = [100], sw_Table = [116], sw_Schema = replicate 65536 (123 :: byte)\<rparr>"
  have sch: "sw_Schema p = replicate 65536 123" and dt: "sw_DB p = [100]" "sw_Table p = [116]"
    unfolding p_def by (simp_all only: WALSchemaWritePayload.simps)
  have "length (sw_Schema p) = 65536" unfolding sch by (rule length_replicate)
  moreover have "length (sw_DB p) < 65536" "length (sw_Table p) < 65536" by (simp_all add: dt)
  ultimately show ?thesis
    unfolding p_def [symmetric] using long_schema_truncated [of p demo_json] by force
qed

end
