(* ===== verification/Wal_Record.thy ===== *)
theory Wal_Record
  imports Wal_Payload Crypto Crc32
begin

text \<open>
  The record format of the write-ahead log: \<open>buildRecord\<close> of \<^verbatim>\<open>wal/wal.go\<close>, \<open>readEntryFrom\<close> of
  \<^verbatim>\<open>wal/recovery.go\<close>, and the read loops of recovery over the bytes of the file, with the search for
  the next record after a corrupt one.

  The reader is a position in the file; \<open>readEntryFrom\<close> is given the bytes from there on and yields
  its result together with the number of bytes it consumed, also when it fails.
\<close>

section \<open>Definitions\<close>

definition recordMagic :: bytes where
  "recordMagic = [0x56, 0x44, 0x42, 0x31]"  \<comment> \<open>VDB1\<close>

definition maxPayloadSize :: nat where
  "maxPayloadSize = 33554432"

record Entry =
  TxID :: u64
  OpType :: u8
  Payload :: bytes
  Encrypted :: bool

text \<open>The keys a log has: an encryption manager, a TDE engine, both or none.\<close>

record wal_keys =
  em :: "EncryptionManager option"
  tde :: "TDEEngine option"

definition no_keys :: wal_keys where
  "no_keys = \<lparr>em = None, tde = None\<rparr>"

datatype build_error = ErrPayloadTooLarge | ErrEncrypt crypto_error

subsection \<open>Writing a record\<close>

text \<open>
  \<open>seal_payload\<close> is the encryption branch: the flag byte, the key version, the 12-byte nonce field
  and the payload to store. It is \<^const>\<open>None\<close> where \<open>EncryptPage\<close> panics.
\<close>

definition pad12 :: "bytes \<Rightarrow> bytes" where
  "pad12 n = take 12 n @ replicate (12 - length n) 0"

definition seal_payload ::
  "wal_keys \<Rightarrow> bytes option \<Rightarrow> u64 \<Rightarrow> bytes \<Rightarrow> (build_error + u8 \<times> u32 \<times> bytes \<times> bytes) option" where
  "seal_payload ks rnd txID payload =
     (case em ks of
        Some m \<Rightarrow>
          map_option
            (\<lambda>r. case r of
                Inl e \<Rightarrow> Inl (ErrEncrypt e)
              | Inr (n, ciphertext) \<Rightarrow> Inr (1, KeyVersion m, pad12 n, ciphertext))
            (EncryptPage m rnd payload (le64 txID))
      | None \<Rightarrow>
          (case tde ks of
             Some t \<Rightarrow> Some (Inr (2, 0, replicate 12 0, EncryptWAL t payload txID))
           | None \<Rightarrow> Some (Inr (0, 0, replicate 12 0, payload))))"

definition record_header :: "u64 \<Rightarrow> u8 \<Rightarrow> u8 \<Rightarrow> u32 \<Rightarrow> bytes \<Rightarrow> bytes \<Rightarrow> bytes" where
  "record_header txID opType flag keyVersion nonce payload =
     recordMagic @ le64 txID @ [opType, flag] @ le32 keyVersion @ nonce
     @ le32 (word_of_nat (length payload))"

definition frame :: "bytes \<Rightarrow> bytes \<Rightarrow> bytes" where
  "frame hdr payload = hdr @ payload @ le32 (checksumIEEE (hdr @ payload))"

definition buildRecord ::
  "wal_keys \<Rightarrow> bytes option \<Rightarrow> u64 \<Rightarrow> u8 \<Rightarrow> bytes \<Rightarrow> (build_error + bytes) option" where
  "buildRecord ks rnd txID opType payload =
     (if length payload > maxPayloadSize then Some (Inl ErrPayloadTooLarge)
      else map_option
        (map_sum id (\<lambda>(flag, keyVersion, nonce, stored).
           frame (record_header txID opType flag keyVersion nonce stored) stored))
        (seal_payload ks rnd txID payload))"

subsection \<open>Reading a record\<close>

datatype read_error =
  EOF | ErrUnexpectedEOF | ErrCorruptWALMagic | ErrTooLarge | ErrChecksum | ErrDecrypt crypto_error

definition open_payload ::
  "wal_keys \<Rightarrow> u64 \<Rightarrow> u8 \<Rightarrow> u32 \<Rightarrow> bytes \<Rightarrow> bytes \<Rightarrow> read_error + bytes \<times> bool" where
  "open_payload ks txID flag keyVersion nonce stored =
     (if flag = 1 then
        (case em ks of
           Some m \<Rightarrow> (case DecryptPage m nonce stored (le64 txID) keyVersion of
                       Inl e \<Rightarrow> Inl (ErrDecrypt e) | Inr p \<Rightarrow> Inr (p, False))
         | None \<Rightarrow> Inr (stored, True))
      else if flag = 2 then
        (case tde ks of
           Some t \<Rightarrow> (case DecryptWAL t stored txID of
                       Inl e \<Rightarrow> Inl (ErrDecrypt e) | Inr p \<Rightarrow> Inr (p, False))
         | None \<Rightarrow> Inr (stored, True))
      else Inr (stored, False))"

definition readEntryFrom :: "wal_keys \<Rightarrow> bytes \<Rightarrow> (read_error + Entry \<times> nat) \<times> nat" where
  "readEntryFrom ks r =
     (if length r < 34 then (Inl (if r = [] then EOF else ErrUnexpectedEOF), length r)
      else let hdr = take 34 r in
      if take 4 hdr \<noteq> recordMagic then (Inl ErrCorruptWALMagic, 34)
      else let txID = get64 (drop 4 hdr); opType = hdr ! 12; keyVersion = get32 (drop 14 hdr);
               nonce = window 18 12 hdr; payloadLen = unat (get32 (drop 30 hdr)) in
      if payloadLen > maxPayloadSize then (Inl ErrTooLarge, 34)
      else if length r < 34 + payloadLen + 4 then (Inl ErrUnexpectedEOF, length r)
      else let payload = window 34 payloadLen r; storedCRC = get32 (drop (34 + payloadLen) r);
               size = 34 + payloadLen + 4 in
      if storedCRC \<noteq> crc32_update (checksumIEEE hdr) payload then (Inl ErrChecksum, size)
      else (case open_payload ks txID (hdr ! 13) keyVersion nonce payload of
              Inl e \<Rightarrow> (Inl e, size)
            | Inr (p, enc) \<Rightarrow>
                (Inr (\<lparr>TxID = txID, OpType = opType, Payload = p, Encrypted = enc\<rparr>, size), size)))"

subsection \<open>The read loops\<close>

lemma readEntryFrom_Inr:
  assumes "readEntryFrom ks r = (Inr (e, sz), n)"
  shows "n = sz" "38 \<le> sz" "sz \<le> length r"
  using assms by (auto simp: readEntryFrom_def Let_def split: if_splits sum.splits)

lemma readEntryFrom_consumed:
  "snd (readEntryFrom ks r) \<le> length r" "r \<noteq> [] \<Longrightarrow> 0 < snd (readEntryFrom ks r)"
  by (auto simp: readEntryFrom_def Let_def split: sum.splits)

lemma readEntryFrom_shrinks:
  assumes "(x, n) = readEntryFrom ks r"
  shows "r \<noteq> [] \<Longrightarrow> length r - n < length r" "x = Inr y \<Longrightarrow> length r - n < length r"
    "x = Inr y \<Longrightarrow> r \<noteq> []" "x = Inr y \<Longrightarrow> 0 < n"
  using assms [symmetric] readEntryFrom_consumed [where ks = ks and r = r] readEntryFrom_Inr [of ks r "fst y" "snd y" n]
  by (auto simp: diff_less)

text \<open>
  \<open>read_all\<close> reads records from the bytes left until the first error: the loop that
  \<open>AnalyzeTransactions\<close>, \<open>Replay\<close>, \<open>ReplayTransaction\<close> and \<open>FindLastVacuumCommit\<close> share. It yields the
  entries, the error and the number of bytes consumed.
\<close>

function read_all :: "wal_keys \<Rightarrow> bytes \<Rightarrow> Entry list \<times> read_error \<times> nat" where
  "read_all ks r =
     (case readEntryFrom ks r of
        (Inl e, n) \<Rightarrow> ([], e, n)
      | (Inr (entry, sz), n) \<Rightarrow>
          (let (es, e, m) = read_all ks (drop n r) in (entry # es, e, n + m)))"
  by pat_completeness auto
termination
  by (relation "measure (\<lambda>(ks, r). length r)") (auto dest: readEntryFrom_shrinks)

declare read_all.simps [simp del]

text \<open>
  \<open>resync\<close> is the search for the next readable record from position \<open>p\<close> on, where \<open>r\<close> are the bytes
  from \<open>p\<close>: byte by byte up to a \<^verbatim>\<open>V\<close>; after one, three more bytes are consumed for the comparison
  with the magic; where that matches, a record is read, and if it cannot be, the search goes on after
  the bytes that this attempt consumed.
\<close>

function resync :: "wal_keys \<Rightarrow> nat \<Rightarrow> bytes \<Rightarrow> (Entry \<times> nat \<times> nat) option" where
  "resync ks p [] = None"
| "resync ks p (b # bs) =
     (if b \<noteq> recordMagic ! 0 then resync ks (p + 1) bs
      else if length bs < 3 then None
      else if b # take 3 bs = recordMagic then
        (case readEntryFrom ks (b # bs) of
           (Inr (e, sz), n) \<Rightarrow> Some (e, p, sz)
         | (Inl x, n) \<Rightarrow> resync ks (p + n) (drop n (b # bs)))
      else resync ks (p + 4) (drop 3 bs))"
  by pat_completeness auto
termination
  by (relation "measure (\<lambda>(ks, p, r). length r)") (auto dest: readEntryFrom_shrinks)

declare resync.simps(2) [simp del]

text \<open>
  One round of the loops of \<open>Recover\<close> and \<open>scanAndTruncate\<close> at position \<open>pos\<close> of the file \<open>c\<close>: the next
  entry, read in place or after a resync, with the position after it, or \<^const>\<open>None\<close> where the loop ends.
\<close>

definition next_entry :: "wal_keys \<Rightarrow> bytes \<Rightarrow> nat \<Rightarrow> (Entry \<times> nat) option" where
  "next_entry ks c pos =
     (case readEntryFrom ks (drop pos c) of
        (Inr (e, sz), n) \<Rightarrow> Some (e, pos + sz)
      | (Inl x, n) \<Rightarrow>
          if x = EOF \<or> x = ErrUnexpectedEOF then None
          else map_option (\<lambda>(e, newPos, sz). (e, newPos + sz)) (resync ks (pos + 1) (drop (pos + 1) c)))"

lemma resync_Some:
  "resync ks p r = Some (e, newPos, sz) \<Longrightarrow> p \<le> newPos \<and> 38 \<le> sz \<and> newPos + sz \<le> p + length r"
proof (induction ks p r rule: resync.induct)
  case (2 ks p b bs)
  show ?case
  proof (cases "readEntryFrom ks (b # bs)")
    case (Pair x n)
    show ?thesis
    proof (cases x)
      case (Inl z)
      have "n \<le> length (b # bs)" using readEntryFrom_consumed(1) [of ks "b # bs"] Pair by simp
      then show ?thesis
        using 2 Pair Inl by (auto simp: resync.simps(2) [of ks p b bs] split: if_splits)
    next
      case (Inr y)
      then show ?thesis
        using 2 Pair readEntryFrom_Inr [of ks "b # bs" "fst y" "snd y" n]
        by (cases y) (auto simp: resync.simps(2) [of ks p b bs] split: if_splits)
    qed
  qed
qed simp

lemma next_entry_Some:
  assumes "next_entry ks c pos = Some (e, pos')"
  shows "pos + 38 \<le> pos'" "pos' \<le> length c"
proof -
  have "pos + 38 \<le> pos' \<and> pos' \<le> length c"
    using assms resync_Some [of ks "pos + 1" "drop (pos + 1) c"]
      readEntryFrom_Inr [of ks "drop pos c"]
    by (force simp: next_entry_def split: prod.splits sum.splits if_splits)
  then show "pos + 38 \<le> pos'" "pos' \<le> length c" by simp_all
qed

lemma next_entry_decreases:
  "next_entry ks c pos = Some (e, pos') \<Longrightarrow> length c - pos' < length c - pos"
  using next_entry_Some [of ks c pos e pos'] by linarith

datatype recover_error = ErrNoKey u64 | ErrWALClosed

definition unreadable :: "wal_keys \<Rightarrow> Entry \<Rightarrow> bool" where
  "unreadable ks e \<longleftrightarrow> Encrypted e \<and> em ks = None \<and> tde ks = None"

text \<open>The loop of \<open>Recover\<close>; the second component is the position it leaves the file at.\<close>

function recover_loop ::
  "wal_keys \<Rightarrow> bytes \<Rightarrow> nat \<Rightarrow> Entry list \<Rightarrow> u64 \<Rightarrow> (recover_error + Entry list \<times> u64) \<times> nat" where
  "recover_loop ks c currPos entries maxTxID =
     (case next_entry ks c currPos of
        None \<Rightarrow> (Inr (entries, maxTxID), currPos)
      | Some (e, pos') \<Rightarrow>
          if unreadable ks e then (Inl (ErrNoKey (TxID e)), pos')
          else recover_loop ks c pos' (entries @ [e]) (if TxID e > maxTxID then TxID e else maxTxID))"
  by pat_completeness auto
termination
  by (relation "measure (\<lambda>(ks, c, pos, es, m). length c - pos)") (auto dest: next_entry_decreases)

declare recover_loop.simps [simp del]

text \<open>The loop of \<open>scanAndTruncate\<close>: the highest transaction id and the end of the last valid record.\<close>

function scan_loop :: "wal_keys \<Rightarrow> bytes \<Rightarrow> nat \<Rightarrow> u64 \<Rightarrow> u64 \<times> nat" where
  "scan_loop ks c validEnd maxTxID =
     (case next_entry ks c validEnd of
        None \<Rightarrow> (maxTxID, validEnd)
      | Some (e, pos') \<Rightarrow> scan_loop ks c pos' (if TxID e > maxTxID then TxID e else maxTxID))"
  by pat_completeness auto
termination
  by (relation "measure (\<lambda>(ks, c, pos, m). length c - pos)") (auto dest: next_entry_decreases)

declare scan_loop.simps [simp del]

section \<open>Reading back a record\<close>

text \<open>
  \<open>is_record ks e rec\<close>: the bytes \<open>rec\<close> are read as the entry \<open>e\<close>, whatever follows them, and a part of
  them that the file ends in is taken for the end of the log.
\<close>

definition log_ends :: "wal_keys \<Rightarrow> bytes \<Rightarrow> bool" where
  "log_ends ks r \<longleftrightarrow> fst (readEntryFrom ks r) = Inl EOF \<or> fst (readEntryFrom ks r) = Inl ErrUnexpectedEOF"

definition is_record :: "wal_keys \<Rightarrow> Entry \<Rightarrow> bytes \<Rightarrow> bool" where
  "is_record ks e rec \<longleftrightarrow>
     (\<forall>rest. readEntryFrom ks (rec @ rest) = (Inr (e, length rec), length rec))
     \<and> (\<forall>k < length rec. log_ends ks (take k rec)) \<and> take 4 rec = recordMagic"

lemma log_ends_nil [simp]: "log_ends ks []"
  by (simp add: log_ends_def readEntryFrom_def)

lemma length_magic [simp]: "length recordMagic = 4"
  by (simp add: recordMagic_def)

lemma length_record_header [simp]:
  "length nonce = 12 \<Longrightarrow> length (record_header tx op fl kv nonce p) = 34"
  by (simp add: record_header_def)

lemma record_header_fields:
  fixes tx op fl kv p
  assumes "length nonce = 12"
  defines "h \<equiv> record_header tx op fl kv nonce p"
  shows "take 4 h = recordMagic" "get64 (drop 4 h) = tx" "h ! 12 = op" "h ! 13 = fl"
    "get32 (drop 14 h) = kv" "window 18 12 h = nonce" "get32 (drop 30 h) = word_of_nat (length p)"
  using assms(1) by (simp_all add: h_def record_header_def nth_append window_def)

lemma length_frame [simp]: "length nonce = 12 \<Longrightarrow> length (frame (record_header tx op fl kv nonce p) p) = 38 + length p"
  by (simp add: frame_def)

lemma readEntryFrom_frame:
  assumes n: "length nonce = 12" and p: "length p \<le> maxPayloadSize"
  shows "readEntryFrom ks (frame (record_header tx op fl kv nonce p) p @ rest) =
     (let sz = 38 + length p
      in case open_payload ks tx fl kv nonce p of
           Inl e \<Rightarrow> (Inl e, sz)
         | Inr (q, enc) \<Rightarrow> (Inr (\<lparr>TxID = tx, OpType = op, Payload = q, Encrypted = enc\<rparr>, sz), sz))"
proof -
  define h where "h = record_header tx op fl kv nonce p"
  note f = record_header_fields [OF n, of tx op fl kv p, folded h_def]
  have hl: "length h = 34" using n by (simp add: h_def)
  define r where "r = frame h p @ rest"
  have u: "unat (word_of_nat (length p) :: u32) = length p"
    using p by (simp add: maxPayloadSize_def unat_of_nat_u32)
  have t: "take 34 r = h" using hl by (simp add: r_def frame_def)
  have w: "window 34 (length p) r = p" using hl by (simp add: r_def frame_def window_def)
  have c: "get32 (drop (34 + length p) r) = checksumIEEE (h @ p)"
    using hl by (simp add: r_def frame_def)
  have l: "length r = 38 + length p + length rest" using hl by (simp add: r_def frame_def)
  show ?thesis
    unfolding h_def [symmetric] r_def [symmetric]
    using p by (simp add: readEntryFrom_def Let_def t f u w c l checksum_append cong: sum.case_cong)
qed

lemma readEntryFrom_torn:
  assumes n: "length nonce = 12" and p: "length p \<le> maxPayloadSize" and k: "k < 38 + length p"
  shows "log_ends ks (take k (frame (record_header tx op fl kv nonce p) p))"
proof (cases "k < 34")
  case True
  then show ?thesis using n by (auto simp: log_ends_def readEntryFrom_def)
next
  case False
  define h where "h = record_header tx op fl kv nonce p"
  note f = record_header_fields [OF n, of tx op fl kv p, folded h_def]
  have hl: "length h = 34" using n by (simp add: h_def)
  define r where "r = take k (frame h p)"
  have u: "unat (word_of_nat (length p) :: u32) = length p"
    using p by (simp add: maxPayloadSize_def unat_of_nat_u32)
  have t: "take 34 r = h" using hl False by (simp add: r_def frame_def min_def)
  have l: "length r = k" using hl k by (simp add: r_def frame_def)
  show ?thesis
    unfolding h_def [symmetric] r_def [symmetric]
    using p k False by (simp add: log_ends_def readEntryFrom_def Let_def t f u l)
qed

lemma frame_is_record:
  assumes "length nonce = 12" and "length p \<le> maxPayloadSize"
    and "open_payload ks tx fl kv nonce p = Inr (q, enc)"
  shows "is_record ks \<lparr>TxID = tx, OpType = op, Payload = q, Encrypted = enc\<rparr>
    (frame (record_header tx op fl kv nonce p) p)"
  using assms readEntryFrom_frame [OF assms(1,2)] readEntryFrom_torn [OF assms(1,2)]
  by (auto simp: is_record_def record_header_fields frame_def Let_def)

text \<open>\<open>sealed\<close>: the bytes are what \<open>buildRecord\<close> makes of an entry, and the reader's size limit is kept.\<close>

definition sealed :: "wal_keys \<Rightarrow> Entry \<Rightarrow> bytes \<Rightarrow> bool" where
  "sealed ks e rec \<longleftrightarrow> \<not> Encrypted e \<and> length rec \<le> 38 + maxPayloadSize
     \<and> (\<exists>nonce. length nonce = 12 \<and> buildRecord ks (Some nonce) (TxID e) (OpType e) (Payload e) = Some (Inr rec))"

definition keys_ok :: "wal_keys \<Rightarrow> bool" where
  "keys_ok ks \<longleftrightarrow> (\<forall>m. em ks = Some m \<longrightarrow> em_ok m) \<and> (\<forall>t. tde ks = Some t \<longrightarrow> aead_ok (aead t))"

lemma pad12_id: "length n = 12 \<Longrightarrow> pad12 n = n"
  by (simp add: pad12_def)

lemma seal_payload_nonce:
  "seal_payload ks (Some n) tx payload = Some (Inr (fl, kv, nonce, p)) \<Longrightarrow> length n = 12 \<Longrightarrow> length nonce = 12"
  by (auto simp: seal_payload_def EncryptPage_def pad12_id split: option.splits if_splits)

lemma seal_open:
  assumes "keys_ok ks" and "length n = 12"
  shows "\<exists>fl kv nonce p. seal_payload ks (Some n) tx payload = Some (Inr (fl, kv, nonce, p)) \<and> length nonce = 12
    \<and> open_payload ks tx fl kv nonce p = Inr (payload, False)"
proof (cases "em ks")
  case (Some m)
  then have ok: "em_ok m" using assms(1) by (simp add: keys_ok_def)
  from EncryptPage_Inr [OF ok] obtain a where
    a: "go_map_get (aeads m) (activeVer m) = Some a" "aead_ok a"
      "EncryptPage m (Some n) payload (le64 tx) = Some (Inr (n, Seal a n payload (le64 tx)))" by blast
  have "DecryptPage m n (Seal a n payload (le64 tx)) (le64 tx) (activeVer m) = Inr payload"
    using ok a by (intro DecryptPage_get) (auto simp: em_ok_def)
  then show ?thesis
    using Some a assms(2) by (simp add: seal_payload_def open_payload_def KeyVersion_def pad12_id)
next
  case None
  then show ?thesis
    using assms(1)
    by (cases "tde ks") (auto simp: seal_payload_def open_payload_def keys_ok_def EncryptWAL_def DecryptWAL_def aead_ok_def)
qed

lemma sealed_is_record:
  assumes "keys_ok ks" and "sealed ks e rec"
  shows "is_record ks e rec"
proof -
  obtain n where n: "length n = 12" "buildRecord ks (Some n) (TxID e) (OpType e) (Payload e) = Some (Inr rec)"
    using assms(2) by (auto simp: sealed_def)
  obtain fl kv nonce p where s: "seal_payload ks (Some n) (TxID e) (Payload e) = Some (Inr (fl, kv, nonce, p))"
      "length nonce = 12" "open_payload ks (TxID e) fl kv nonce p = Inr (Payload e, False)"
    using seal_open [OF assms(1) n(1)] by blast
  have rec: "rec = frame (record_header (TxID e) (OpType e) fl kv nonce p) p"
    using n(2) s(1) by (auto simp: buildRecord_def split: if_splits)
  have "length p \<le> maxPayloadSize" using assms(2) s(2) by (simp add: sealed_def rec)
  from frame_is_record [OF s(2) this s(3), of "OpType e"] show ?thesis
    using assms(2) unfolding rec [symmetric] by (cases e) (simp add: sealed_def)
qed

text \<open>Without keys, as \<open>scanAndTruncate\<close> reads the file, a record still shows its transaction id.\<close>

lemma sealed_scan:
  assumes "sealed ks e rec"
  shows "\<exists>e'. is_record no_keys e' rec \<and> TxID e' = TxID e \<and> OpType e' = OpType e"
proof -
  obtain n where n: "length n = 12" "buildRecord ks (Some n) (TxID e) (OpType e) (Payload e) = Some (Inr rec)"
    using assms by (auto simp: sealed_def)
  then obtain fl kv nonce p where "seal_payload ks (Some n) (TxID e) (Payload e) = Some (Inr (fl, kv, nonce, p))"
      and rec: "rec = frame (record_header (TxID e) (OpType e) fl kv nonce p) p"
    by (cases "seal_payload ks (Some n) (TxID e) (Payload e)"; cases "the (seal_payload ks (Some n) (TxID e) (Payload e))")
      (auto simp: buildRecord_def split: if_splits)
  note s = seal_payload_nonce [OF this(1) n(1)] rec
  have "length p \<le> maxPayloadSize" using assms s by (simp add: sealed_def)
  moreover have "open_payload no_keys (TxID e) fl kv nonce p = Inr (p, fl = 1 \<or> fl = 2)"
    by (simp add: open_payload_def no_keys_def)
  ultimately show ?thesis
    using frame_is_record [OF s(1), of p no_keys "TxID e" fl kv p _ "OpType e"] s(2) by force
qed

section \<open>Reading back a log\<close>

lemma next_entry_record:
  assumes "is_record ks e rec"
  shows "next_entry ks (pre @ rec @ rest) (length pre) = Some (e, length (pre @ rec))"
  using assms by (simp add: next_entry_def is_record_def)

lemma next_entry_end: "log_ends ks tail \<Longrightarrow> next_entry ks (pre @ tail) (length pre) = None"
  by (auto simp: next_entry_def log_ends_def split: prod.splits)

definition max_tx :: "u64 \<Rightarrow> Entry list \<Rightarrow> u64" where
  "max_tx m es = foldl (\<lambda>m e. max m (TxID e)) m es"

lemma max_tx_simps [simp]: "max_tx m [] = m" "max_tx m (e # es) = max_tx (max m (TxID e)) es"
  by (simp_all add: max_tx_def)

lemma tx_max [simp]: "(if m < TxID e then TxID e else m) = max m (TxID e)"
  by (auto simp: max_def)

lemma max_tx_Max: "max_tx m es = Max (insert m (TxID ` set es))"
proof (induction es arbitrary: m)
  case (Cons e es)
  have "Max (insert (max m (TxID e)) A) = Max (insert m (insert (TxID e) A))" if "finite A" for A
    using that by (cases "A = {}") (simp_all add: max.assoc)
  then show ?case by (simp add: Cons.IH)
qed simp

lemma recover_loop_records:
  "list_all2 (is_record ks) es rs \<Longrightarrow> \<forall>e \<in> set es. \<not> unreadable ks e \<Longrightarrow>
     recover_loop ks (pre @ concat rs @ rest) (length pre) acc m =
       recover_loop ks (pre @ concat rs @ rest) (length (pre @ concat rs)) (acc @ es) (max_tx m es)"
proof (induction es rs arbitrary: pre acc m rule: list_all2_induct)
  case (Cons e es r rs)
  have step: "next_entry ks (pre @ r @ concat rs @ rest) (length pre) = Some (e, length pre + length r)"
    using next_entry_record [OF Cons.hyps(1), of pre "concat rs @ rest"] by simp
  from Cons.IH [of "pre @ r" "acc @ [e]" "max m (TxID e)"] Cons.prems show ?case
    by (subst recover_loop.simps) (simp add: step)
qed simp

lemma recover_loop_end:
  "log_ends ks tail \<Longrightarrow> recover_loop ks (pre @ tail) (length pre) acc m = (Inr (acc, m), length pre)"
  by (subst recover_loop.simps) (simp add: next_entry_end)

lemma scan_loop_records:
  "list_all2 (is_record ks) es rs \<Longrightarrow>
     scan_loop ks (pre @ concat rs @ rest) (length pre) m =
       scan_loop ks (pre @ concat rs @ rest) (length (pre @ concat rs)) (max_tx m es)"
proof (induction es rs arbitrary: pre m rule: list_all2_induct)
  case (Cons e es r rs)
  have step: "next_entry ks (pre @ r @ concat rs @ rest) (length pre) = Some (e, length pre + length r)"
    using next_entry_record [OF Cons.hyps(1), of pre "concat rs @ rest"] by simp
  from Cons.IH [of "pre @ r" "max m (TxID e)"] show ?case
    by (subst scan_loop.simps) (simp add: step)
qed simp

lemma scan_loop_end:
  "log_ends ks tail \<Longrightarrow> scan_loop ks (pre @ tail) (length pre) m = (m, length pre)"
  by (subst scan_loop.simps) (simp add: next_entry_end)

lemma read_all_records:
  assumes "list_all2 (is_record ks) es rs"
  shows "read_all ks (concat rs @ rest) =
    (case read_all ks rest of (es', e, n) \<Rightarrow> (es @ es', e, length (concat rs) + n))"
  using assms
proof (induction es rs rule: list_all2_induct)
  case Nil
  then show ?case by (simp split: prod.splits)
next
  case (Cons e es r rs)
  have "readEntryFrom ks (r @ concat rs @ rest) = (Inr (e, length r), length r)"
    using Cons.hyps(1) by (simp add: is_record_def)
  then show ?case
    using Cons.IH by (subst read_all.simps) (simp split: prod.splits)
qed

lemma read_all_end: "log_ends ks tail \<Longrightarrow> \<exists>e n. read_all ks tail = ([], e, n) \<and> (e = EOF \<or> e = ErrUnexpectedEOF)"
  by (subst read_all.simps) (auto simp: log_ends_def split: prod.splits)

subsection \<open>Finding the next record after a corrupt one\<close>

text \<open>
  \<open>skippable g\<close>: the search passes over the bytes \<open>g\<close> and stands right behind them. Every \<^verbatim>\<open>V\<close> it
  stops at has three more bytes of \<open>g\<close> after it, which are not the rest of a magic.
\<close>

fun skippable :: "bytes \<Rightarrow> bool" where
  "skippable [] \<longleftrightarrow> True"
| "skippable (b # bs) \<longleftrightarrow>
     (if b \<noteq> recordMagic ! 0 then skippable bs
      else length bs \<ge> 3 \<and> b # take 3 bs \<noteq> recordMagic \<and> skippable (drop 3 bs))"

lemma resync_skip: "skippable g \<Longrightarrow> resync ks p (g @ r) = resync ks (p + length g) r"
proof (induction g arbitrary: p rule: skippable.induct)
  case (2 b bs)
  show ?case
  proof (cases "b = recordMagic ! 0")
    case True
    then have "length bs \<ge> 3" "b # take 3 bs \<noteq> recordMagic" "skippable (drop 3 bs)" using 2(3) by auto
    moreover from this 2(2) [of "p + 4"] True have
      "resync ks (p + 4) (drop 3 bs @ r) = resync ks (p + 4 + (length bs - 3)) r" by auto
    ultimately show ?thesis
      using True by (simp add: resync.simps(2))
  next
    case False
    then show ?thesis using 2(1) [of "p + 1"] 2(3) by (simp add: resync.simps(2))
  qed
qed simp

lemma resync_record:
  assumes "is_record ks e rec"
  shows "resync ks p (rec @ rest) = Some (e, p, length rec)"
proof -
  obtain b bs where rec: "rec = b # bs"
    using assms by (cases rec) (auto simp: is_record_def recordMagic_def)
  have m: "b # take 3 bs = recordMagic" using assms by (simp add: is_record_def rec)
  then have "b = recordMagic ! 0" and "length (take 3 bs) = 3" by (auto simp: recordMagic_def)
  then have "3 \<le> length bs" by simp
  moreover have "readEntryFrom ks (b # bs @ rest) = (Inr (e, length rec), length rec)"
    using assms by (simp add: is_record_def rec)
  ultimately show ?thesis
    using m \<open>b = recordMagic ! 0\<close> by (simp add: rec resync.simps(2))
qed

lemma next_entry_resync:
  assumes "is_record ks e rec" and "skippable g"
    and "fst (readEntryFrom ks (b # g @ rec @ rest)) = Inl x" and "x \<noteq> EOF" "x \<noteq> ErrUnexpectedEOF"
  shows "next_entry ks (pre @ b # g @ rec @ rest) (length pre) = Some (e, length (pre @ b # g @ rec))"
proof -
  have "resync ks (length pre + 1) (g @ rec @ rest) = Some (e, length pre + 1 + length g, length rec)"
    using resync_skip [OF assms(2)] resync_record [OF assms(1)] by simp
  then show ?thesis
    using assms(3-5) by (auto simp: next_entry_def split: prod.splits)
qed

text \<open>
  A \<^verbatim>\<open>V\<close> in the last three bytes before a record hides that record from the search: the comparison
  consumes bytes of the record's magic and does not go back.
\<close>

lemma resync_hidden:
  assumes "take 4 rec = recordMagic"
  shows "resync ks p (recordMagic ! 0 # rec) = resync ks (p + 4) (drop 3 rec)"
proof -
  obtain rest where "rec = recordMagic @ rest" using assms by (metis append_take_drop_id)
  then show ?thesis by (simp add: resync.simps(2) recordMagic_def)
qed

end
