(* ===== verification/Wal_Log.thy ===== *)
theory Wal_Log
  imports Wal_Record
begin

text \<open>
  The write-ahead log itself, \<^verbatim>\<open>wal/wal.go\<close> from \<^verbatim>\<open>type WAL\<close> on and \<^verbatim>\<open>wal/recovery.go\<close>: appending
  records with the undo of failed writes, the fsync policy, checkpoints and truncation, opening a log
  with a damaged tail, recovery and replay, and the record queues of \<^verbatim>\<open>wal/group_commit.go\<close> and
  \<^verbatim>\<open>wal/write_behind.go\<close>.

  Every method runs under \<^verbatim>\<open>w.mu\<close> and is a function on the state; \<open>syncUpTo\<close>, the one that does not, is
  given here as one thread runs it alone, and with interleavings in theory Wal_Sync. The outcome of
  every file system call is an argument (record \<open>io\<close>). Results are a left error or a right value;
  \<^const>\<open>None\<close> stands for a panic. The append callback (metrics) is not modelled.
\<close>

section \<open>The file\<close>

text \<open>
  \<open>stable\<close> is a ghost: the number of leading bytes that an fsync has made durable. After a crash the
  file holds at least those, and some part of what was written after them (\<open>crash\<close>).
\<close>

record os_file =
  content :: bytes
  pos :: nat
  stable :: nat

datatype write_outcome = WriteOk | WriteFail nat | ShortWrite nat

record io =
  io_write :: write_outcome
  undo_tell :: bool
  undo_trunc :: bool
  undo_seek :: bool
  io_sync :: bool
  io_trunc :: bool
  io_seek :: bool

definition write_at :: "nat \<Rightarrow> bytes \<Rightarrow> bytes \<Rightarrow> bytes" where
  "write_at p bs c = take p (c @ replicate (p - length c) 0) @ bs @ drop (p + length bs) c"

fun written :: "write_outcome \<Rightarrow> bytes \<Rightarrow> nat" where
  "written WriteOk bs = length bs"
| "written (WriteFail n) bs = min n (length bs)"
| "written (ShortWrite n) bs = min n (length bs)"

definition file_write :: "write_outcome \<Rightarrow> bytes \<Rightarrow> os_file \<Rightarrow> os_file" where
  "file_write oc bs f =
     (let n = written oc bs
      in f\<lparr>content := write_at (pos f) (take n bs) (content f), pos := pos f + n,
           stable := min (stable f) (pos f)\<rparr>)"

definition file_truncate :: "nat \<Rightarrow> os_file \<Rightarrow> os_file" where
  "file_truncate n f =
     f\<lparr>content := take n (content f) @ replicate (n - length (content f)) 0, stable := min (stable f) n\<rparr>"

definition file_sync :: "os_file \<Rightarrow> os_file" where
  "file_sync f = f\<lparr>stable := length (content f)\<rparr>"

definition crash :: "os_file \<Rightarrow> bytes \<Rightarrow> bool" where
  "crash f c \<longleftrightarrow> (\<exists>m. stable f \<le> m \<and> c = take m (content f))"

section \<open>The log\<close>

record WAL =
  wal_file :: "os_file option"
  nextTxID :: u64
  syncCounter :: int
  SyncBatchSize :: int
  keys :: wal_keys
  writeSeq :: u64
  syncedSeq :: u64
  writeErr :: bool

datatype wal_error =
  ErrFileClosed | ErrPoisoned | ErrWrite | ErrSync | ErrTruncate | ErrSeek | ErrRename
| ErrBuild build_error | ErrMarshal payload_error | ErrRecover recover_error | ErrReadEntry read_error
| ErrCallback

subsection \<open>Writing and syncing\<close>

definition advanceSynced :: "u64 \<Rightarrow> WAL \<Rightarrow> WAL" where
  "advanceSynced seq w = (if seq \<le> syncedSeq w then w else w\<lparr>syncedSeq := seq\<rparr>)"

definition undoPartialWriteLocked :: "io \<Rightarrow> nat \<Rightarrow> os_file \<Rightarrow> WAL \<Rightarrow> WAL" where
  "undoPartialWriteLocked i n f w =
     (if \<not> undo_tell i \<or> pos f < n \<or> \<not> undo_trunc i then w\<lparr>wal_file := Some f, writeErr := True\<rparr>
      else let start = pos f - n; f = file_truncate start f
        in if \<not> undo_seek i then w\<lparr>wal_file := Some f, writeErr := True\<rparr>
           else w\<lparr>wal_file := Some (f\<lparr>pos := start\<rparr>)\<rparr>)"

definition writeLocked :: "io \<Rightarrow> bytes \<Rightarrow> os_file \<Rightarrow> WAL \<Rightarrow> WAL \<times> (wal_error + unit)" where
  "writeLocked i rec f w =
     (if writeErr w then (w, Inl ErrPoisoned)
      else let n = written (io_write i) rec; f = file_write (io_write i) rec f
        in if (case io_write i of WriteFail _ \<Rightarrow> True | _ \<Rightarrow> False) \<or> n \<noteq> length rec
           then (if n > 0 then undoPartialWriteLocked i n f w else w\<lparr>wal_file := Some f\<rparr>, Inl ErrWrite)
           else (w\<lparr>wal_file := Some f, writeSeq := writeSeq w + 1\<rparr>, Inr ()))"

definition fsync :: "io \<Rightarrow> WAL \<Rightarrow> (wal_error + unit) \<times> WAL" where
  "fsync i w = (if io_sync i then (Inr (), w\<lparr>wal_file := map_option file_sync (wal_file w)\<rparr>) else (Inl ErrSync, w))"

definition maybeSyncLocked :: "io \<Rightarrow> WAL \<Rightarrow> WAL \<times> (wal_error + unit)" where
  "maybeSyncLocked i w =
     (let w = (if SyncBatchSize w > 0 then w\<lparr>syncCounter := syncCounter w + 1\<rparr> else w)
      in if SyncBatchSize w > 0 \<and> syncCounter w < SyncBatchSize w then (w, Inr ())
         else let w = (if SyncBatchSize w > 0 then w\<lparr>syncCounter := 0\<rparr> else w)
           in case fsync i w of
                (Inl e, w) \<Rightarrow> (w, Inl e)
              | (Inr u, w) \<Rightarrow> (advanceSynced (writeSeq w) w, Inr ()))"

definition syncLocked :: "io \<Rightarrow> WAL \<Rightarrow> WAL \<times> (wal_error + unit)" where
  "syncLocked i w =
     (case fsync i w of
        (Inl e, w) \<Rightarrow> (w, Inl e)
      | (Inr u, w) \<Rightarrow> (advanceSynced (writeSeq w) (w\<lparr>syncCounter := 0\<rparr>), Inr ()))"

definition bump_next :: "u64 \<Rightarrow> WAL \<Rightarrow> WAL" where
  "bump_next txID w = (if txID \<ge> nextTxID w then w\<lparr>nextTxID := txID + 1\<rparr> else w)"

subsection \<open>Appending\<close>

definition appendBytesLockedWithTx ::
  "io \<Rightarrow> bytes option \<Rightarrow> u64 \<Rightarrow> u8 \<Rightarrow> bytes \<Rightarrow> WAL \<Rightarrow> (WAL \<times> (wal_error + u64)) option" where
  "appendBytesLockedWithTx i rnd txID opType payload w =
     (case wal_file w of
        None \<Rightarrow> Some (w, Inl ErrFileClosed)
      | Some f \<Rightarrow>
          Option.bind (buildRecord (keys w) rnd txID opType payload) (\<lambda>r. Some (
            case r of
              Inl e \<Rightarrow> (w, Inl (ErrBuild e))
            | Inr rec \<Rightarrow>
                (case writeLocked i rec f w of
                   (w, Inl e) \<Rightarrow> (w, Inl e)
                 | (w, Inr u) \<Rightarrow>
                     (case maybeSyncLocked i w of
                        (w, Inl e) \<Rightarrow> (w, Inl e)
                      | (w, Inr u) \<Rightarrow> (bump_next txID w, Inr txID))))))"

definition appendBytesLocked ::
  "io \<Rightarrow> bytes option \<Rightarrow> u8 \<Rightarrow> bytes \<Rightarrow> WAL \<Rightarrow> (WAL \<times> (wal_error + u64)) option" where
  "appendBytesLocked i rnd opType payload w =
     (case wal_file w of
        None \<Rightarrow> Some (w, Inl ErrFileClosed)
      | Some f \<Rightarrow>
          (let txID = nextTxID w + 1; w = w\<lparr>nextTxID := txID\<rparr>
           in Option.bind (buildRecord (keys w) rnd txID opType payload) (\<lambda>r. Some (
                case r of
                  Inl e \<Rightarrow> (w, Inl (ErrBuild e))
                | Inr rec \<Rightarrow>
                    (case writeLocked i rec f w of
                       (w, Inl e) \<Rightarrow> (w, Inl e)
                     | (w, Inr u) \<Rightarrow>
                         (case maybeSyncLocked i w of
                            (w, Inl e) \<Rightarrow> (w, Inl e)
                          | (w, Inr u) \<Rightarrow> (w, Inr txID)))))))"

definition Append ::
  "'j JSON \<Rightarrow> io \<Rightarrow> bytes option \<Rightarrow> u8 \<Rightarrow> 'j payload \<Rightarrow> WAL \<Rightarrow> (WAL \<times> (wal_error + u64)) option" where
  "Append js i rnd opType payload w =
     (case EncodeWALPayloadBinary js payload of
        Inl e \<Rightarrow> Some (w, Inl (ErrMarshal e))
      | Inr bs \<Rightarrow> appendBytesLocked i rnd opType bs w)"

definition AppendWithTx ::
  "'j JSON \<Rightarrow> io \<Rightarrow> bytes option \<Rightarrow> u64 \<Rightarrow> u8 \<Rightarrow> 'j payload \<Rightarrow> WAL \<Rightarrow> (WAL \<times> (wal_error + u64)) option" where
  "AppendWithTx js i rnd txID opType payload w =
     (case EncodeWALPayloadBinary js payload of
        Inl e \<Rightarrow> Some (w, Inl (ErrMarshal e))
      | Inr bs \<Rightarrow> appendBytesLockedWithTx i rnd txID opType bs w)"

definition WriteFullPageImage ::
  "'j JSON \<Rightarrow> io \<Rightarrow> bytes option \<Rightarrow> u64 \<Rightarrow> bytes \<Rightarrow> bytes \<Rightarrow> u16 \<Rightarrow> u32 \<Rightarrow> bytes \<Rightarrow> WAL
     \<Rightarrow> (WAL \<times> (wal_error + u64)) option" where
  "WriteFullPageImage js i rnd txID db table segmentNo pageNo pageData w =
     AppendWithTx js i rnd txID OpFullPageImage
       (PFullPageImage \<lparr>fp_DB = db, fp_Table = table, fp_SegmentNo = segmentNo, fp_PageNo = pageNo,
                        fp_PageData = pageData\<rparr>) w"

text \<open>The first part of \<open>AppendCommitSync\<close>, under \<^verbatim>\<open>w.mu\<close>: it yields the sequence number to wait for.\<close>

definition commit_write ::
  "'j JSON \<Rightarrow> io \<Rightarrow> bytes option \<Rightarrow> u64 \<Rightarrow> 'j payload \<Rightarrow> WAL \<Rightarrow> (WAL \<times> (wal_error + u64)) option" where
  "commit_write js i rnd txID payload w =
     (case EncodeWALPayloadBinary js payload of
        Inl e \<Rightarrow> Some (w, Inl (ErrMarshal e))
      | Inr bs \<Rightarrow>
          (case wal_file w of
             None \<Rightarrow> Some (w, Inl ErrFileClosed)
           | Some f \<Rightarrow>
               Option.bind (buildRecord (keys w) rnd txID OpCommit bs) (\<lambda>r. Some (
                 case r of
                   Inl e \<Rightarrow> (w, Inl (ErrBuild e))
                 | Inr rec \<Rightarrow>
                     (case writeLocked i rec f w of
                        (w, Inl e) \<Rightarrow> (w, Inl e)
                      | (w, Inr u) \<Rightarrow> (bump_next txID w, Inr (writeSeq w)))))))"

text \<open>\<open>syncUpTo\<close> with no other thread in between.\<close>

definition syncUpTo :: "io \<Rightarrow> u64 \<Rightarrow> WAL \<Rightarrow> WAL \<times> (wal_error + unit)" where
  "syncUpTo i seq w =
     (if syncedSeq w \<ge> seq then (w, Inr ())
      else let target = writeSeq w
        in case wal_file w of
             None \<Rightarrow> (w, Inl ErrFileClosed)
           | Some f \<Rightarrow>
               (case fsync i w of
                  (Inl e, w) \<Rightarrow> (w, Inl e)
                | (Inr u, w) \<Rightarrow> (advanceSynced target w, Inr ())))"

definition AppendCommitSync ::
  "'j JSON \<Rightarrow> io \<Rightarrow> bytes option \<Rightarrow> u64 \<Rightarrow> 'j payload \<Rightarrow> WAL \<Rightarrow> (WAL \<times> (wal_error + u64)) option" where
  "AppendCommitSync js i rnd txID payload w =
     Option.bind (commit_write js i rnd txID payload w) (\<lambda>(w, r). Some (
       case r of
         Inl e \<Rightarrow> (w, Inl e)
       | Inr seq \<Rightarrow>
           (case syncUpTo i seq w of (w, Inl e) \<Rightarrow> (w, Inl e) | (w, Inr u) \<Rightarrow> (w, Inr txID))))"

definition UnsyncedRecords :: "WAL \<Rightarrow> u64" where
  "UnsyncedRecords w = (if syncedSeq w \<ge> writeSeq w then 0 else writeSeq w - syncedSeq w)"

definition CurrentTxID :: "WAL \<Rightarrow> u64" where
  "CurrentTxID w = nextTxID w"

definition NextTxID :: "WAL \<Rightarrow> u64" where
  "NextTxID w = nextTxID w + 1"

definition SetEncryptionManager :: "EncryptionManager option \<Rightarrow> WAL \<Rightarrow> WAL" where
  "SetEncryptionManager m w = w\<lparr>keys := (keys w)\<lparr>em := m\<rparr>\<rparr>"

definition SetTDEEngine :: "TDEEngine option \<Rightarrow> WAL \<Rightarrow> WAL" where
  "SetTDEEngine t w = w\<lparr>keys := (keys w)\<lparr>tde := t\<rparr>\<rparr>"

definition Flush :: "io \<Rightarrow> WAL \<Rightarrow> WAL \<times> (wal_error + u64)" where
  "Flush i w =
     (if wal_file w = None then (w, Inl ErrFileClosed)
      else case syncLocked i w of (w, Inl e) \<Rightarrow> (w, Inl e) | (w, Inr u) \<Rightarrow> (w, Inr (nextTxID w)))"

subsection \<open>Closing, checkpoints and truncation\<close>

text \<open>\<open>Close\<close> after the background workers have stopped; closing the descriptor itself succeeds.\<close>

definition Close :: "io \<Rightarrow> WAL \<Rightarrow> WAL \<times> (wal_error + unit)" where
  "Close i w =
     (if wal_file w = None then (w, Inr ())
      else case fsync i w of
        (Inl e, w) \<Rightarrow> (w, Inl e)
      | (Inr u, w) \<Rightarrow> ((advanceSynced (writeSeq w) w)\<lparr>wal_file := None\<rparr>, Inr ()))"

definition WriteCheckpointRecord :: "io \<Rightarrow> WAL \<Rightarrow> (WAL \<times> (wal_error + u64)) option" where
  "WriteCheckpointRecord i w =
     (case wal_file w of
        None \<Rightarrow> Some (w, Inl ErrFileClosed)
      | Some f \<Rightarrow>
          (let payload = encodeCheckpointBinary \<lparr>cp_LSN = nextTxID w\<rparr>;
               txID = nextTxID w + 1; w = w\<lparr>nextTxID := txID\<rparr>
           in Option.bind (buildRecord no_keys None txID OpCheckpoint payload) (\<lambda>r. Some (
                case r of
                  Inl e \<Rightarrow> (w, Inl (ErrBuild e))
                | Inr rec \<Rightarrow>
                    (case writeLocked i rec f w of
                       (w, Inl e) \<Rightarrow> (w, Inl e)
                     | (w, Inr u) \<Rightarrow>
                         (case syncLocked i w of
                            (w, Inl e) \<Rightarrow> (w, Inl e)
                          | (w, Inr u) \<Rightarrow> (w, Inr txID)))))))"

definition TruncateWAL :: "io \<Rightarrow> WAL \<Rightarrow> WAL \<times> (wal_error + unit)" where
  "TruncateWAL i w =
     (case wal_file w of
        None \<Rightarrow> (w, Inl ErrFileClosed)
      | Some f \<Rightarrow>
          if \<not> io_trunc i then (w, Inl ErrTruncate)
          else if \<not> io_seek i then (w\<lparr>wal_file := Some (file_truncate 0 f)\<rparr>, Inl ErrSeek)
          else (w\<lparr>wal_file := Some ((file_truncate 0 f)\<lparr>pos := 0\<rparr>), writeErr := False\<rparr>, Inr ()))"

definition Checkpoint :: "io \<Rightarrow> WAL \<Rightarrow> (WAL \<times> (wal_error + unit)) option" where
  "Checkpoint i w =
     Option.bind (WriteCheckpointRecord i w) (\<lambda>(w, r). Some (
       case r of Inl e \<Rightarrow> (w, Inl e) | Inr txID \<Rightarrow> TruncateWAL i w))"

subsection \<open>Opening and recovery\<close>

text \<open>
  Seeking to the start or the end of the open file succeeds. \<open>scanAndTruncate\<close>: where the damaged tail
  cannot be cut off, the file is renamed and a new one created.
\<close>

record open_io =
  stat_ok :: bool
  trunc_ok :: bool
  rename_ok :: bool
  reopen_ok :: bool

definition seek_end :: "os_file \<Rightarrow> os_file" where
  "seek_end f = f\<lparr>pos := length (content f)\<rparr>"

definition scanAndTruncate :: "open_io \<Rightarrow> os_file \<Rightarrow> WAL \<Rightarrow> WAL \<times> (wal_error + u64)" where
  "scanAndTruncate oi f w =
     (let (maxTxID, validEnd) = scan_loop (keys w) (content f) 0 0
      in if stat_ok oi \<and> length (content f) > validEnd then
           if trunc_ok oi then (w\<lparr>wal_file := Some (seek_end (file_truncate validEnd f))\<rparr>, Inr maxTxID)
           else if \<not> rename_ok oi then (w, Inl ErrRename)
           else if \<not> reopen_ok oi then (w, Inl ErrFileClosed)
           else (w\<lparr>wal_file := Some \<lparr>content = [], pos = 0, stable = 0\<rparr>\<rparr>, Inr maxTxID)
         else (w\<lparr>wal_file := Some (seek_end f)\<rparr>, Inr maxTxID))"

definition Open :: "open_io \<Rightarrow> os_file \<Rightarrow> wal_error + WAL" where
  "Open oi f =
     (let w = \<lparr>wal_file = Some f, nextTxID = 0, syncCounter = 0, SyncBatchSize = 64, keys = no_keys,
               writeSeq = 0, syncedSeq = 0, writeErr = False\<rparr>
      in case scanAndTruncate oi f w of
           (w, Inl e) \<Rightarrow> Inl e
         | (w, Inr maxTx) \<Rightarrow> Inr (w\<lparr>nextTxID := maxTx\<rparr>))"

text \<open>\<open>Recover\<close> without a point-in-time target.\<close>

definition Recover :: "WAL \<Rightarrow> WAL \<times> (wal_error + Entry list)" where
  "Recover w =
     (case wal_file w of
        None \<Rightarrow> (w, Inl ErrFileClosed)
      | Some f \<Rightarrow>
          (case recover_loop (keys w) (content f) 0 [] 0 of
             (Inl e, p) \<Rightarrow> (w\<lparr>wal_file := Some (f\<lparr>pos := p\<rparr>)\<rparr>, Inl (ErrRecover e))
           | (Inr (entries, maxTxID), p) \<Rightarrow>
               (let w = (if maxTxID > nextTxID w then w\<lparr>nextTxID := maxTxID\<rparr> else w)
                in (w\<lparr>wal_file := Some (seek_end f)\<rparr>, Inr entries))))"

definition analyze_entry :: "u64 set \<times> u64 set \<Rightarrow> Entry \<Rightarrow> u64 set \<times> u64 set" where
  "analyze_entry s entry =
     (case s of (committed, inProgress) \<Rightarrow>
        if OpType entry = OpCommit then (insert (TxID entry) committed, inProgress - {TxID entry})
        else if OpType entry = OpAbort then (committed - {TxID entry}, inProgress - {TxID entry})
        else if TxID entry \<noteq> 0 \<and> TxID entry \<notin> committed then (committed, insert (TxID entry) inProgress)
        else (committed, inProgress))"

definition AnalyzeTransactions :: "WAL \<Rightarrow> WAL \<times> (wal_error + u64 set \<times> u64 set)" where
  "AnalyzeTransactions w =
     (case wal_file w of
        None \<Rightarrow> (w, Inl ErrFileClosed)
      | Some f \<Rightarrow>
          (case read_all (keys w) (content f) of
             (es, e, n) \<Rightarrow> (w\<lparr>wal_file := Some (seek_end f)\<rparr>, Inr (foldl analyze_entry ({}, {}) es))))"

text \<open>A callback changes a state of its own and reports whether it succeeded.\<close>

fun run_callbacks :: "(Entry \<Rightarrow> 's \<Rightarrow> 's \<times> bool) \<Rightarrow> Entry list \<Rightarrow> 's \<Rightarrow> 's \<times> (wal_error + unit)" where
  "run_callbacks cb [] s = (s, Inr ())"
| "run_callbacks cb (e # es) s =
     (case cb e s of (s, ok) \<Rightarrow> if ok then run_callbacks cb es s else (s, Inl ErrCallback))"

definition replay_filtered ::
  "(Entry \<Rightarrow> bool) \<Rightarrow> (Entry \<Rightarrow> 's \<Rightarrow> 's \<times> bool) \<Rightarrow> WAL \<Rightarrow> 's \<Rightarrow> WAL \<times> 's \<times> (wal_error + unit)" where
  "replay_filtered P cb w s =
     (case wal_file w of
        None \<Rightarrow> (w, s, Inl ErrFileClosed)
      | Some f \<Rightarrow>
          (case read_all (keys w) (content f) of
             (es, e, n) \<Rightarrow>
               if e = EOF \<or> e = ErrUnexpectedEOF
               then (w\<lparr>wal_file := Some (seek_end f)\<rparr>, run_callbacks cb (filter P es) s)
               else (w\<lparr>wal_file := Some (f\<lparr>pos := n\<rparr>)\<rparr>, s, Inl (ErrReadEntry e))))"

definition Replay :: "(Entry \<Rightarrow> 's \<Rightarrow> 's \<times> bool) \<Rightarrow> WAL \<Rightarrow> 's \<Rightarrow> WAL \<times> 's \<times> (wal_error + unit)" where
  "Replay cb w s = replay_filtered (\<lambda>e. True) cb w s"

definition ReplayTransaction ::
  "u64 \<Rightarrow> (Entry \<Rightarrow> 's \<Rightarrow> 's \<times> bool) \<Rightarrow> WAL \<Rightarrow> 's \<Rightarrow> WAL \<times> 's \<times> (wal_error + unit)" where
  "ReplayTransaction txID cb w s = replay_filtered (\<lambda>e. TxID e = txID) cb w s"

definition vacuum_match :: "'j JSON \<Rightarrow> bytes \<Rightarrow> bytes \<Rightarrow> Entry \<Rightarrow> bool" where
  "vacuum_match js db table entry \<longleftrightarrow>
     (OpType entry = OpVacuumCommit \<or> OpType entry = OpVacuumBegin)
     \<and> (case DecodeWALPayload js (Payload entry) (OpType entry) of
          Inr (Some (PVacuum p)) \<Rightarrow> va_DB p = db \<and> va_Table p = table
        | _ \<Rightarrow> False)"

definition FindLastVacuumCommit :: "'j JSON \<Rightarrow> bytes \<Rightarrow> bytes \<Rightarrow> WAL \<Rightarrow> WAL \<times> (wal_error + bool \<times> u64)" where
  "FindLastVacuumCommit js db table w =
     (case wal_file w of
        None \<Rightarrow> (w, Inl ErrFileClosed)
      | Some f \<Rightarrow>
          (case read_all (keys w) (content f) of
             (es, e, n) \<Rightarrow>
               (w\<lparr>wal_file := Some (seek_end f)\<rparr>,
                Inr (case filter (vacuum_match js db table) es of
                       [] \<Rightarrow> (False, 0)
                     | ms \<Rightarrow> (OpType (last ms) = OpVacuumCommit, TxID (last ms))))))"

subsection \<open>Record queues\<close>

record WALRecord =
  Data :: bytes
  rec_TxID :: u64

definition writeRecordRaw :: "io \<Rightarrow> WALRecord \<Rightarrow> WAL \<Rightarrow> WAL \<times> (wal_error + unit)" where
  "writeRecordRaw i rec w =
     (case wal_file w of
        None \<Rightarrow> (w, Inl ErrFileClosed)
      | Some f \<Rightarrow>
          (case writeLocked i (Data rec) f w of
             (w, Inl e) \<Rightarrow> (w, Inl e)
           | (w, Inr u) \<Rightarrow> (bump_next (rec_TxID rec) w, Inr ())))"

text \<open>The batch is written record by record; the \<open>k\<close>-th file call has outcome \<open>ios k\<close>.\<close>

fun write_batch :: "(nat \<Rightarrow> io) \<Rightarrow> nat \<Rightarrow> WALRecord list \<Rightarrow> WAL \<Rightarrow> WAL \<times> (wal_error + unit)" where
  "write_batch ios k [] w = syncLocked (ios k) w"
| "write_batch ios k (r # rs) w =
     (case writeRecordRaw (ios k) r w of
        (w, Inl e) \<Rightarrow> (w, Inl e)
      | (w, Inr u) \<Rightarrow> write_batch ios (k + 1) rs w)"

record GroupCommit =
  gc_pending :: "WALRecord list"
  batchSize :: int

definition AppendBatch :: "WALRecord \<Rightarrow> GroupCommit \<Rightarrow> GroupCommit \<times> bool" where
  "AppendBatch rec gc =
     (let p = gc_pending gc @ [rec] in (gc\<lparr>gc_pending := p\<rparr>, int (length p) \<ge> batchSize gc))"

definition gc_doFlush :: "(nat \<Rightarrow> io) \<Rightarrow> GroupCommit \<Rightarrow> WAL \<Rightarrow> GroupCommit \<times> WAL" where
  "gc_doFlush ios gc w =
     (if gc_pending gc = [] then (gc, w)
      else (gc\<lparr>gc_pending := []\<rparr>, fst (write_batch ios 0 (gc_pending gc) w)))"

record WriteBehindBuffer =
  wb_buffer :: "WALRecord list"
  maxBuffer :: int
  dirty :: bool

definition wb_Append :: "WALRecord \<Rightarrow> WriteBehindBuffer \<Rightarrow> WriteBehindBuffer \<times> bool" where
  "wb_Append rec b =
     (let p = wb_buffer b @ [rec]
      in (b\<lparr>wb_buffer := p, dirty := True\<rparr>, int (length p) \<ge> maxBuffer b))"

definition wb_doFlush :: "(nat \<Rightarrow> io) \<Rightarrow> WriteBehindBuffer \<Rightarrow> WAL \<Rightarrow> WriteBehindBuffer \<times> WAL" where
  "wb_doFlush ios b w =
     (if \<not> dirty b \<or> wb_buffer b = [] then (b, w)
      else (b\<lparr>wb_buffer := [], dirty := False\<rparr>, fst (write_batch ios 0 (wb_buffer b) w)))"

definition AppendWithWriteBehind ::
  "'j JSON \<Rightarrow> io \<Rightarrow> bytes option \<Rightarrow> u64 \<Rightarrow> u8 \<Rightarrow> 'j payload \<Rightarrow> WriteBehindBuffer option \<Rightarrow> WAL
     \<Rightarrow> (WriteBehindBuffer option \<times> WAL \<times> (wal_error + u64)) option" where
  "AppendWithWriteBehind js i rnd xid opType payload wbb w =
     (case wbb of
        None \<Rightarrow> map_option (Pair None) (AppendWithTx js i rnd xid opType payload w)
      | Some b \<Rightarrow>
          (case EncodeWALPayloadBinary js payload of
             Inl e \<Rightarrow> Some (wbb, w, Inl (ErrMarshal e))
           | Inr bs \<Rightarrow>
               Option.bind (buildRecord (keys w) rnd xid opType bs) (\<lambda>r. Some (
                 case r of
                   Inl e \<Rightarrow> (wbb, w, Inl (ErrBuild e))
                 | Inr data \<Rightarrow> (Some (fst (wb_Append \<lparr>Data = data, rec_TxID = xid\<rparr> b)), w, Inr xid)))))"

section \<open>The log as a list of entries\<close>

text \<open>
  \<open>log_record ks e rec\<close>: \<open>rec\<close> is read as \<open>e\<close> with the keys \<open>ks\<close>, and without keys as a record of the same
  transaction (which is how \<open>Open\<close> reads it). \<open>torn_ok\<close>: bytes that are the beginning of a record.
\<close>

definition log_record :: "wal_keys \<Rightarrow> Entry \<Rightarrow> bytes \<Rightarrow> bool" where
  "log_record ks e rec \<longleftrightarrow> is_record ks e rec \<and> (\<exists>e'. is_record no_keys e' rec \<and> TxID e' = TxID e)"

definition torn_ok :: "wal_keys \<Rightarrow> bytes \<Rightarrow> bool" where
  "torn_ok ks t \<longleftrightarrow> (\<forall>m. log_ends ks (take m t) \<and> log_ends no_keys (take m t))"

lemma torn_ok_nil [simp]: "torn_ok ks []"
  by (simp add: torn_ok_def)

lemma torn_ok_take: "torn_ok ks t \<Longrightarrow> torn_ok ks (take m t)"
  by (simp add: torn_ok_def)

lemma torn_ok_ends: "torn_ok ks t \<Longrightarrow> log_ends ks t \<and> log_ends no_keys t"
  unfolding torn_ok_def by (metis order_refl take_all)

lemma log_record_torn: "log_record ks e rec \<Longrightarrow> k < length rec \<Longrightarrow> torn_ok ks (take k rec)"
  by (auto simp: log_record_def is_record_def torn_ok_def min_def)

lemma sealed_log_record: "keys_ok ks \<Longrightarrow> sealed ks e rec \<Longrightarrow> log_record ks e rec"
  using sealed_is_record sealed_scan by (fastforce simp: log_record_def)

lemma log_record_long: "log_record ks e rec \<Longrightarrow> 38 \<le> length rec"
proof -
  assume "log_record ks e rec"
  then have "readEntryFrom ks (rec @ []) = (Inr (e, length rec), length rec)"
    unfolding log_record_def is_record_def by blast
  from readEntryFrom_Inr(2) [OF this] show ?thesis .
qed

text \<open>
  \<open>holds ks c es\<close>: the bytes \<open>c\<close> are the records of \<open>es\<close>, possibly with a torn record behind them.
  \<open>wal_holds w es\<close> is the invariant of an open log: its file holds \<open>es\<close>, and unless the log refuses
  further writes there is nothing torn and the write position is the end.
\<close>

definition holds :: "wal_keys \<Rightarrow> bytes \<Rightarrow> Entry list \<Rightarrow> bool" where
  "holds ks c es \<longleftrightarrow> (\<exists>rs torn. c = concat rs @ torn \<and> list_all2 (log_record ks) es rs \<and> torn_ok ks torn)"

definition holds_exactly :: "wal_keys \<Rightarrow> bytes \<Rightarrow> Entry list \<Rightarrow> bool" where
  "holds_exactly ks c es \<longleftrightarrow> (\<exists>rs. c = concat rs \<and> list_all2 (log_record ks) es rs)"

definition wal_holds :: "WAL \<Rightarrow> Entry list \<Rightarrow> bool" where
  "wal_holds w es \<longleftrightarrow> keys_ok (keys w) \<and> (\<forall>e \<in> set es. \<not> Encrypted e)
     \<and> (\<exists>f. wal_file w = Some f \<and> stable f \<le> length (content f) \<and> holds (keys w) (content f) es
          \<and> (\<not> writeErr w \<longrightarrow> holds_exactly (keys w) (content f) es \<and> pos f = length (content f)))"

lemma holds_exactly_holds: "holds_exactly ks c es \<Longrightarrow> holds ks c es"
  unfolding holds_exactly_def holds_def by (metis append_Nil2 torn_ok_nil)

lemma holds_exactly_snoc:
  assumes "holds_exactly ks c es" and "log_record ks e rec"
  shows "holds_exactly ks (c @ rec) (es @ [e])"
proof -
  obtain rs where "c = concat rs" "list_all2 (log_record ks) es rs"
    using assms(1) by (auto simp: holds_exactly_def)
  then have "c @ rec = concat (rs @ [rec])" "list_all2 (log_record ks) (es @ [e]) (rs @ [rec])"
    using assms(2) by (auto intro: list_all2_appendI)
  then show ?thesis unfolding holds_exactly_def by blast
qed

lemma holds_torn:
  assumes "holds_exactly ks c es" and "log_record ks e rec" and "k < length rec"
  shows "holds ks (c @ take k rec) es"
  using assms log_record_torn unfolding holds_exactly_def holds_def by blast

lemma write_at_end [simp]: "write_at (length c) bs c = c @ bs"
  by (simp add: write_at_def)

text \<open>
  \<open>writeLocked\<close> under every outcome of the file system calls: a record that is reported written is
  appended; otherwise the log is what it was, or the log refuses further writes and holds at most a
  torn piece of the record or the whole of it.
\<close>

lemma writeLocked_ok:
  assumes "writeLocked i rec f w = (w', Inr u)" and "wal_holds w es" and "wal_file w = Some f"
    and "log_record (keys w) e rec" and "\<not> Encrypted e"
  shows "wal_holds w' (es @ [e])" "\<not> writeErr w'" "writeSeq w' = writeSeq w + 1"
proof -
  have w': "\<not> writeErr w" "written (io_write i) rec = length rec"
    "w' = w\<lparr>wal_file := Some (file_write (io_write i) rec f), writeSeq := writeSeq w + 1\<rparr>"
    using assms(1) by (auto simp: writeLocked_def Let_def split: if_splits)
  have inv: "stable f \<le> length (content f)" "holds_exactly (keys w) (content f) es" "pos f = length (content f)"
    "keys_ok (keys w)" "\<forall>e \<in> set es. \<not> Encrypted e"
    using assms(2,3) w'(1) by (auto simp: wal_holds_def)
  have f': "file_write (io_write i) rec f = f\<lparr>content := content f @ rec, pos := length (content f @ rec)\<rparr>"
    using w'(2) inv(1,3) by (simp add: file_write_def)
  have "holds_exactly (keys w) (content f @ rec) (es @ [e])"
    using inv(2) assms(4) by (rule holds_exactly_snoc)
  then show "wal_holds w' (es @ [e])"
    using inv assms(5) holds_exactly_holds by (auto simp: wal_holds_def w'(3) f')
  show "\<not> writeErr w'" "writeSeq w' = writeSeq w + 1" using w' by simp_all
qed

lemma undo_holds:
  assumes inv: "holds_exactly (keys w) c es" "stable f \<le> length c" "keys_ok (keys w)" "\<forall>e \<in> set es. \<not> Encrypted e"
    and rec: "log_record (keys w) e rec" "\<not> Encrypted e" and n: "n \<le> length rec"
    and f: "content f = c @ take n rec" "pos f = length c + n" and w: "\<not> writeErr w"
    and w': "undoPartialWriteLocked i n f w = w'"
  shows "wal_holds w' es \<or> writeErr w' \<and> wal_holds w' (es @ [e])"
proof -
  have t: "holds (keys w) (c @ take n rec) es \<or> holds (keys w) (c @ take n rec) (es @ [e])"
  proof (cases "n < length rec")
    case True
    then show ?thesis using holds_torn [OF inv(1) rec(1)] by blast
  next
    case False
    then show ?thesis using n holds_exactly_snoc [OF inv(1) rec(1)] holds_exactly_holds by fastforce
  qed
  show ?thesis
  proof (cases "undo_tell i \<and> undo_trunc i")
    case True
    have "content (file_truncate (length c) f) = c" "stable (file_truncate (length c) f) = stable f"
      using f inv(2) by (simp_all add: file_truncate_def)
    then have "wal_holds w' es"
      using True w' f inv w holds_exactly_holds [OF inv(1)]
      by (cases "undo_seek i") (auto simp: wal_holds_def undoPartialWriteLocked_def Let_def)
    then show ?thesis ..
  next
    case False
    then have "w' = w\<lparr>wal_file := Some f, writeErr := True\<rparr>"
      using w' by (auto simp: undoPartialWriteLocked_def)
    then show ?thesis using t inv rec(2) f by (auto simp: wal_holds_def)
  qed
qed

lemma writeLocked_err:
  assumes "writeLocked i rec f w = (w', Inl x)" and "wal_holds w es" and "wal_file w = Some f"
    and "log_record (keys w) e rec" and "\<not> Encrypted e"
  shows "wal_holds w' es \<or> writeErr w' \<and> wal_holds w' (es @ [e])"
proof (cases "writeErr w")
  case True
  then have "w' = w" using assms(1) by (simp add: writeLocked_def)
  then show ?thesis using assms(2) by simp
next
  case False
  define n where "n = written (io_write i) rec"
  define g where "g = file_write (io_write i) rec f"
  have inv: "stable f \<le> length (content f)" "holds_exactly (keys w) (content f) es" "pos f = length (content f)"
    "keys_ok (keys w)" "\<forall>e \<in> set es. \<not> Encrypted e"
    using assms(2,3) False by (auto simp: wal_holds_def)
  have n: "n \<le> length rec" by (cases "io_write i") (auto simp: n_def)
  have g: "content g = content f @ take n rec" "pos g = length (content f) + n" "stable g = stable f"
    using inv(1,3) n by (simp_all add: g_def file_write_def n_def [symmetric] Let_def)
  have w': "w' = (if n > 0 then undoPartialWriteLocked i n g w else w\<lparr>wal_file := Some g\<rparr>)"
    using assms(1) False by (auto simp: writeLocked_def Let_def n_def g_def split: if_splits)
  show ?thesis
  proof (cases "n > 0")
    case True
    then show ?thesis
      using undo_holds [OF inv(2) _ inv(4,5) assms(4,5) n g(1,2) False, of i w'] inv(1) g(3) w' by simp
  next
    case n0: False
    then have "wal_holds w' es"
      using w' g inv False holds_exactly_holds [OF inv(2)] by (auto simp: wal_holds_def)
    then show ?thesis ..
  qed
qed

section \<open>Appending keeps the log readable\<close>

lemma fsync_holds:
  assumes "fsync i w = (r, w')" and "wal_holds w es"
  shows "wal_holds w' es" "keys w' = keys w" "writeErr w' = writeErr w" "nextTxID w' = nextTxID w"
    "writeSeq w' = writeSeq w" "SyncBatchSize w' = SyncBatchSize w" "syncedSeq w' = syncedSeq w"
  using assms by (auto simp: fsync_def wal_holds_def file_sync_def split: if_splits)

lemma wal_holds_cong:
  "wal_holds w es \<Longrightarrow> keys w' = keys w \<Longrightarrow> wal_file w' = wal_file w \<Longrightarrow> writeErr w' = writeErr w \<Longrightarrow> wal_holds w' es"
  by (simp add: wal_holds_def)

lemma wal_holds_upd [simp]:
  "wal_holds (w\<lparr>nextTxID := a\<rparr>) es = wal_holds w es" "wal_holds (w\<lparr>syncCounter := b\<rparr>) es = wal_holds w es"
  "wal_holds (w\<lparr>syncedSeq := c\<rparr>) es = wal_holds w es" "wal_holds (w\<lparr>writeSeq := c\<rparr>) es = wal_holds w es"
  by (simp_all add: wal_holds_def)

lemma advanceSynced_holds [simp]:
  "wal_holds (advanceSynced s w) es = wal_holds w es" "keys (advanceSynced s w) = keys w"
  "nextTxID (advanceSynced s w) = nextTxID w" "wal_file (advanceSynced s w) = wal_file w"
  "writeSeq (advanceSynced s w) = writeSeq w" "writeErr (advanceSynced s w) = writeErr w"
  by (simp_all add: advanceSynced_def)

lemma bump_next_holds [simp]:
  "wal_holds (bump_next t w) es = wal_holds w es" "keys (bump_next t w) = keys w"
  "wal_file (bump_next t w) = wal_file w" "writeSeq (bump_next t w) = writeSeq w"
  by (simp_all add: bump_next_def)

lemma maybeSyncLocked_holds:
  assumes "maybeSyncLocked i w = (w', r)" and "wal_holds w es"
  shows "wal_holds w' es" "keys w' = keys w" "nextTxID w' = nextTxID w"
  using assms fsync_holds [of i "w\<lparr>syncCounter := 0\<rparr>"] fsync_holds [of i w]
  by (auto simp: maybeSyncLocked_def Let_def split: if_splits prod.splits sum.splits)

lemma syncLocked_holds:
  assumes "syncLocked i w = (w', r)" and "wal_holds w es"
  shows "wal_holds w' es" "keys w' = keys w" "nextTxID w' = nextTxID w"
  using assms fsync_holds [of i w] by (auto simp: syncLocked_def split: prod.splits sum.splits)

lemma writeLocked_frame:
  assumes "writeLocked i rec f w = (w', r)"
  shows "keys w' = keys w" "nextTxID w' = nextTxID w" "SyncBatchSize w' = SyncBatchSize w" "syncedSeq w' = syncedSeq w"
  using assms by (auto simp: writeLocked_def undoPartialWriteLocked_def Let_def split: if_splits)

text \<open>
  \<open>record_fits\<close>: the record made of a payload is within the size limit of the reader. Without encryption
  every record that \<open>buildRecord\<close> accepts is.
\<close>

definition entry :: "u64 \<Rightarrow> u8 \<Rightarrow> bytes \<Rightarrow> Entry" where
  "entry tx op p = \<lparr>TxID = tx, OpType = op, Payload = p, Encrypted = False\<rparr>"

definition record_fits :: "wal_keys \<Rightarrow> bytes \<Rightarrow> u64 \<Rightarrow> bytes \<Rightarrow> bool" where
  "record_fits ks n tx p \<longleftrightarrow>
     (case seal_payload ks (Some n) tx p of
        Some (Inr (fl, kv, nonce, stored)) \<Rightarrow> length stored \<le> maxPayloadSize
      | _ \<Rightarrow> True)"

lemma record_fits_clear: "length p \<le> maxPayloadSize \<Longrightarrow> record_fits no_keys n tx p"
  by (simp add: record_fits_def seal_payload_def no_keys_def)

lemma buildRecord_log_record:
  assumes "keys_ok ks" and "length n = 12" and "record_fits ks n tx p"
  shows "length p > maxPayloadSize \<and> buildRecord ks (Some n) tx op p = Some (Inl ErrPayloadTooLarge)
    \<or> (\<exists>rec. buildRecord ks (Some n) tx op p = Some (Inr rec) \<and> log_record ks (entry tx op p) rec)"
proof (cases "length p > maxPayloadSize")
  case True
  then show ?thesis by (simp add: buildRecord_def)
next
  case False
  obtain fl kv nonce q where s: "seal_payload ks (Some n) tx p = Some (Inr (fl, kv, nonce, q))" "length nonce = 12"
    using seal_open [OF assms(1,2)] by blast
  define rec where "rec = frame (record_header tx op fl kv nonce q) q"
  have b: "buildRecord ks (Some n) tx op p = Some (Inr rec)"
    using False s by (simp add: buildRecord_def rec_def)
  have "length q \<le> maxPayloadSize" using assms(3) s by (simp add: record_fits_def)
  then have "sealed ks (entry tx op p) rec"
    using assms(2) b s(2) by (auto simp: sealed_def entry_def rec_def)
  then show ?thesis using b sealed_log_record [OF assms(1)] by blast
qed

lemma appendBytesLockedWithTx_holds:
  assumes inv: "wal_holds w es" and n: "length n = 12" and fits: "record_fits (keys w) n tx p"
  shows "\<exists>w' r. appendBytesLockedWithTx i (Some n) tx op p w = Some (w', r) \<and> keys w' = keys w
    \<and> (case r of Inr t \<Rightarrow> t = tx \<and> wal_holds w' (es @ [entry tx op p])
        | Inl x \<Rightarrow> wal_holds w' es \<or> wal_holds w' (es @ [entry tx op p]))"
proof -
  obtain f where f: "wal_file w = Some f" using inv by (auto simp: wal_holds_def)
  have ks: "keys_ok (keys w)" using inv by (simp add: wal_holds_def)
  from buildRecord_log_record [OF ks n fits, of op] show ?thesis
  proof (elim disjE conjE exE)
    fix rec assume b: "buildRecord (keys w) (Some n) tx op p = Some (Inr rec)"
      and lr: "log_record (keys w) (entry tx op p) rec"
    have e: "\<not> Encrypted (entry tx op p)" by (simp add: entry_def)
    obtain w1 r1 where w1: "writeLocked i rec f w = (w1, r1)" by fastforce
    show ?thesis
    proof (cases r1)
      case (Inl x)
      then show ?thesis
        using f b w1 writeLocked_err [OF _ inv f lr e] writeLocked_frame [OF w1]
        by (auto simp: appendBytesLockedWithTx_def)
    next
      case (Inr u)
      note ok = writeLocked_ok [OF w1 [unfolded Inr] inv f lr e]
      obtain w2 r2 where w2: "maybeSyncLocked i w1 = (w2, r2)" by fastforce
      show ?thesis
        using f b w1 Inr w2 maybeSyncLocked_holds [OF w2 ok(1)] writeLocked_frame [OF w1]
        by (cases r2) (auto simp: appendBytesLockedWithTx_def)
    qed
  qed (use f inv in \<open>auto simp: appendBytesLockedWithTx_def\<close>)
qed

section \<open>Recovery after a crash\<close>

lemma take_concat_records:
  "list_all2 (log_record ks) es rs \<Longrightarrow> torn_ok ks torn \<Longrightarrow>
     \<exists>j t. take m (concat rs @ torn) = concat (take j rs) @ t \<and> torn_ok ks t
       \<and> (\<forall>k. length (concat (take k rs)) \<le> m \<longrightarrow> min k (length rs) \<le> j)"
proof (induction es rs arbitrary: m rule: list_all2_induct)
  case Nil
  then show ?case using torn_ok_take by (intro exI [of _ 0] exI [of _ "take m torn"]) auto
next
  case (Cons e es r rs)
  show ?case
  proof (cases "m < length r")
    case True
    then have "torn_ok ks (take m r)" using log_record_torn [OF Cons.hyps(1)] by blast
    moreover have "min k (length (r # rs)) \<le> 0" if "length (concat (take k (r # rs))) \<le> m" for k
      using that True by (cases k) auto
    ultimately show ?thesis using True by (intro exI [of _ 0] exI [of _ "take m r"]) auto
  next
    case False
    obtain j t where jt: "take (m - length r) (concat rs @ torn) = concat (take j rs) @ t" "torn_ok ks t"
        "\<forall>k. length (concat (take k rs)) \<le> m - length r \<longrightarrow> min k (length rs) \<le> j"
      using Cons.IH [OF Cons.prems] by blast
    have "min k (length (r # rs)) \<le> Suc j" if "length (concat (take k (r # rs))) \<le> m" for k
      using that jt(3) False by (cases k) auto
    then show ?thesis
      using jt False by (intro exI [of _ "Suc j"] exI [of _ t]) auto
  qed
qed

lemma holds_take:
  assumes "holds ks c es"
  shows "\<exists>k. holds ks (take m c) (take k es) \<and> (length c \<le> m \<longrightarrow> take k es = es)"
proof -
  obtain rs torn where c: "c = concat rs @ torn" "list_all2 (log_record ks) es rs" "torn_ok ks torn"
    using assms by (auto simp: holds_def)
  obtain j t where j: "take m c = concat (take j rs) @ t" "torn_ok ks t"
      "\<And>k. length (concat (take k rs)) \<le> m \<Longrightarrow> min k (length rs) \<le> j"
    using take_concat_records [OF c(2,3), of m] c(1) by blast
  have "holds ks (take m c) (take j es)"
    unfolding holds_def using j(1,2) list_all2_takeI [OF c(2)] by blast
  moreover have "take j es = es" if "length c \<le> m"
    using that j(3) [of "length rs"] c list_all2_lengthD [OF c(2)] by auto
  ultimately show ?thesis by blast
qed

lemma scan_loop_holds:
  assumes "holds ks c es"
  shows "\<exists>v. scan_loop no_keys c 0 0 = (max_tx 0 es, v) \<and> v \<le> length c \<and> holds_exactly ks (take v c) es"
proof -
  obtain rs torn where c: "c = concat rs @ torn" "list_all2 (log_record ks) es rs" "torn_ok ks torn"
    using assms by (auto simp: holds_def)
  obtain es' where es': "list_all2 (is_record no_keys) es' rs" "map TxID es' = map TxID es"
  proof -
    have "\<exists>es'. list_all2 (is_record no_keys) es' rs \<and> map TxID es' = map TxID es"
      using c(2)
    proof (induction es rs rule: list_all2_induct)
      case (Cons e es r rs)
      then obtain es' e' where "list_all2 (is_record no_keys) es' rs" "map TxID es' = map TxID es"
        "is_record no_keys e' r" "TxID e' = TxID e" by (auto simp: log_record_def)
      then show ?case by (intro exI [of _ "e' # es'"]) auto
    qed simp
    then show ?thesis using that by blast
  qed
  have m: "max_tx 0 es' = max_tx 0 es" using es'(2) by (simp add: max_tx_Max flip: set_map)
  have "scan_loop no_keys c 0 0 = (max_tx 0 es, length (concat rs))"
    using scan_loop_records [OF es'(1), of "[]" torn 0] scan_loop_end [of no_keys torn "concat rs"]
      torn_ok_ends [OF c(3)] c(1) m by simp
  then show ?thesis using c by (auto simp: holds_exactly_def)
qed

lemma recover_loop_holds:
  assumes "holds ks c es" and "\<forall>e \<in> set es. \<not> Encrypted e"
  shows "\<exists>p. recover_loop ks c 0 [] 0 = (Inr (es, max_tx 0 es), p)"
proof -
  obtain rs torn where c: "c = concat rs @ torn" "list_all2 (log_record ks) es rs" "torn_ok ks torn"
    using assms by (auto simp: holds_def)
  have "list_all2 (is_record ks) es rs"
    using c(2) by (rule list_all2_mono) (simp add: log_record_def)
  then show ?thesis
    using recover_loop_records [of ks es rs "[]" torn "[]" 0] recover_loop_end [of ks torn "concat rs" es "max_tx 0 es"]
      assms(2) c torn_ok_ends [OF c(3)] by (simp add: unreadable_def)
qed

lemma Recover_holds:
  assumes "wal_holds w es"
  shows "\<exists>w'. Recover w = (w', Inr es) \<and> nextTxID w' = max (nextTxID w) (max_tx 0 es) \<and> keys w' = keys w
    \<and> (\<not> writeErr w \<longrightarrow> wal_holds w' es)"
proof -
  obtain f where f: "wal_file w = Some f" "holds (keys w) (content f) es" "\<forall>e \<in> set es. \<not> Encrypted e"
    using assms by (auto simp: wal_holds_def)
  obtain p where "recover_loop (keys w) (content f) 0 [] 0 = (Inr (es, max_tx 0 es), p)"
    using recover_loop_holds [OF f(2,3)] by blast
  then show ?thesis
    using assms f by (auto simp: Recover_def wal_holds_def seek_end_def max_def)
qed

text \<open>Opening what a crash left: the torn tail is cut off.\<close>

lemma Open_holds:
  assumes "holds ks (content f) es" and "stable f \<le> length (content f)" and "stat_ok oi" "trunc_ok oi"
    and "keys_ok ks" and "\<forall>e \<in> set es. \<not> Encrypted e"
  shows "\<exists>w. Open oi f = Inr w \<and> wal_holds (w\<lparr>keys := ks\<rparr>) es \<and> nextTxID w = max_tx 0 es
    \<and> \<not> writeErr w"
proof -
  obtain v where v: "scan_loop no_keys (content f) 0 0 = (max_tx 0 es, v)" "v \<le> length (content f)"
      "holds_exactly ks (take v (content f)) es"
    using scan_loop_holds [OF assms(1)] by blast
  show ?thesis
  proof (cases "v < length (content f)")
    case True
    then show ?thesis
      using v assms(2-6) holds_exactly_holds [OF v(3)]
      by (simp add: Open_def scanAndTruncate_def Let_def wal_holds_def seek_end_def file_truncate_def)
  next
    case False
    then have "take v (content f) = content f" by simp
    then show ?thesis
      using False v assms holds_exactly_holds [OF v(3)]
      by (simp add: Open_def scanAndTruncate_def Let_def wal_holds_def seek_end_def)
  qed
qed

lemma crash_holds:
  assumes "wal_holds w es" and "wal_file w = Some f" and "crash f c"
  shows "\<exists>k. holds (keys w) c (take k es) \<and> (stable f = length (content f) \<longrightarrow> take k es = es)"
proof -
  obtain m where "c = take m (content f)" "stable f \<le> m" using assms(3) by (auto simp: crash_def)
  then show ?thesis
    using holds_take [of "keys w" "content f" es m] assms(1,2) by (auto simp: wal_holds_def)
qed

section \<open>Committing\<close>

lemma commit_write_holds:
  assumes "commit_write js i (Some n) tx p w = Some (w', Inr seq)" and "EncodeWALPayloadBinary js p = Inr bs"
    and "wal_holds w es" and "length n = 12" and "record_fits (keys w) n tx bs"
  shows "wal_holds w' (es @ [entry tx OpCommit bs])" "seq = writeSeq w + 1" "writeSeq w' = seq"
    "keys w' = keys w" "syncedSeq w' = syncedSeq w"
proof -
  obtain f where f: "wal_file w = Some f" using assms(3) by (auto simp: wal_holds_def)
  have ks: "keys_ok (keys w)" using assms(3) by (simp add: wal_holds_def)
  obtain rec where rec: "buildRecord (keys w) (Some n) tx OpCommit bs = Some (Inr rec)"
      "log_record (keys w) (entry tx OpCommit bs) rec"
    using buildRecord_log_record [OF ks assms(4,5), of OpCommit] assms(1,2) f
    by (auto simp: commit_write_def)
  obtain w1 u where w1: "writeLocked i rec f w = (w1, Inr u)" "w' = bump_next tx w1" "seq = writeSeq w'"
    using assms(1,2) f rec(1) by (auto simp: commit_write_def split: prod.splits sum.splits)
  have "\<not> Encrypted (entry tx OpCommit bs)" by (simp add: entry_def)
  note ok = writeLocked_ok [OF w1(1) assms(3) f rec(2) this]
  show "wal_holds w' (es @ [entry tx OpCommit bs])" "seq = writeSeq w + 1" "writeSeq w' = seq"
    "keys w' = keys w" "syncedSeq w' = syncedSeq w"
    using ok w1 writeLocked_frame [OF w1(1)] by (auto simp: bump_next_def)
qed

lemma syncUpTo_synced:
  assumes "syncUpTo i seq w = (w', Inr u)" and "syncedSeq w < seq" and "wal_holds w es"
  shows "wal_holds w' es" "keys w' = keys w" "\<exists>f. wal_file w' = Some f \<and> stable f = length (content f)"
proof -
  obtain f where f: "wal_file w = Some f" using assms(3) by (auto simp: wal_holds_def)
  have s: "\<not> seq \<le> syncedSeq w" using assms(2) by simp
  obtain w1 where w1: "fsync i w = (Inr (), w1)" "w' = advanceSynced (writeSeq w) w1"
    using assms(1) f s by (auto simp: syncUpTo_def Let_def split: prod.splits sum.splits)
  show "wal_holds w' es" "keys w' = keys w" using fsync_holds [OF w1(1) assms(3)] w1(2) by simp_all
  show "\<exists>f. wal_file w' = Some f \<and> stable f = length (content f)"
    using w1 f by (auto simp: fsync_def file_sync_def split: if_splits)
qed

lemma AppendCommitSync_synced:
  assumes run: "AppendCommitSync js i (Some n) tx p w = Some (w', Inr t)" and enc: "EncodeWALPayloadBinary js p = Inr bs"
    and inv: "wal_holds w es" and n: "length n = 12" "record_fits (keys w) n tx bs"
    and seq: "syncedSeq w \<le> writeSeq w" "unat (writeSeq w) + 1 < 2 ^ 64"
  shows "wal_holds w' (es @ [entry tx OpCommit bs])" "keys w' = keys w"
    "\<exists>f. wal_file w' = Some f \<and> stable f = length (content f)"
proof -
  obtain w1 r where cr: "commit_write js i (Some n) tx p w = Some (w1, r)"
    using run by (cases "commit_write js i (Some n) tx p w") (auto simp: AppendCommitSync_def)
  then obtain s where s: "r = Inr s"
    using run by (cases r) (auto simp: AppendCommitSync_def)
  obtain w2 r2 where "syncUpTo i s w1 = (w2, r2)" by fastforce
  with cr s run obtain u where w1: "commit_write js i (Some n) tx p w = Some (w1, Inr s)" "syncUpTo i s w1 = (w', Inr u)"
    by (cases r2) (auto simp: AppendCommitSync_def)
  note cw = commit_write_holds [OF w1(1) enc inv n]
  have "unat (writeSeq w + 1) = unat (writeSeq w) + 1" using seq(2) by (simp add: unat_word_ariths)
  then have "syncedSeq w1 < s" using seq(1) cw(2,5) by (simp add: word_less_nat_alt word_le_nat_alt)
  note su = syncUpTo_synced [OF w1(2) this cw(1)]
  show "wal_holds w' (es @ [entry tx OpCommit bs])" "keys w' = keys w"
    "\<exists>f. wal_file w' = Some f \<and> stable f = length (content f)"
    using su cw(4) by simp_all
qed

text \<open>A server restart: open the file, install the keys, recover.\<close>

definition restart :: "open_io \<Rightarrow> wal_keys \<Rightarrow> bytes \<Rightarrow> wal_error + WAL" where
  "restart oi ks c =
     map_sum id (\<lambda>w. SetTDEEngine (tde ks) (SetEncryptionManager (em ks) w))
       (Open oi \<lparr>content = c, pos = 0, stable = length c\<rparr>)"

lemma restart_holds:
  assumes "holds ks c es" and "stat_ok oi" "trunc_ok oi" and "keys_ok ks" and "\<forall>e \<in> set es. \<not> Encrypted e"
  shows "\<exists>w1 w2. restart oi ks c = Inr w1 \<and> Recover w1 = (w2, Inr es) \<and> wal_holds w2 es
    \<and> nextTxID w2 = max_tx 0 es"
proof -
  obtain w where w: "Open oi \<lparr>content = c, pos = 0, stable = length c\<rparr> = Inr w"
      "wal_holds (w\<lparr>keys := ks\<rparr>) es" "nextTxID w = max_tx 0 es" "\<not> writeErr w"
    using Open_holds [of ks "\<lparr>content = c, pos = 0, stable = length c\<rparr>" es oi] assms by auto
  have "SetTDEEngine (tde ks) (SetEncryptionManager (em ks) w) = w\<lparr>keys := ks\<rparr>"
    by (cases ks; cases "keys w") (simp add: SetTDEEngine_def SetEncryptionManager_def)
  then show ?thesis
    using Recover_holds [OF w(2)] w by (auto simp: restart_def)
qed

lemma max_tx_upper: "e \<in> set es \<Longrightarrow> TxID e \<le> max_tx 0 es"
  by (simp add: max_tx_Max)

section \<open>Committed and unfinished transactions\<close>

text \<open>The entries of a transaction since its last abort record.\<close>

definition since_abort :: "u64 \<Rightarrow> Entry list \<Rightarrow> Entry list" where
  "since_abort tx es = rev (takeWhile (\<lambda>e. OpType e \<noteq> OpAbort) (rev (filter (\<lambda>e. TxID e = tx) es)))"

lemma since_abort_Nil [simp]: "since_abort tx [] = []"
  by (simp add: since_abort_def)

lemma since_abort_snoc [simp]:
  "since_abort tx (es @ [e]) =
     (if TxID e \<noteq> tx then since_abort tx es
      else if OpType e = OpAbort then [] else since_abort tx es @ [e])"
  by (simp add: since_abort_def)

lemma analyze_spec:
  "foldl analyze_entry ({}, {}) es = (c, p) \<Longrightarrow>
     (\<forall>tx. (tx \<in> c) = (\<exists>e \<in> set (since_abort tx es). OpType e = OpCommit))
     \<and> (\<forall>tx. (tx \<in> p) = (tx \<noteq> 0 \<and> tx \<notin> c \<and> since_abort tx es \<noteq> []))"
proof (induction es arbitrary: c p rule: rev_induct)
  case (snoc e es)
  obtain c0 p0 where 0: "foldl analyze_entry ({}, {}) es = (c0, p0)" by fastforce
  have neq: "OpCommit \<noteq> OpAbort" by (simp add: op_defs)
  have "analyze_entry (c0, p0) e = (c, p)" using snoc.prems 0 by simp
  with snoc.IH [OF 0] neq show ?case
    by (auto simp: analyze_entry_def split: if_splits)
qed simp

section \<open>Properties\<close>

text \<open>An empty log without keys, for the witnesses.\<close>

definition empty_wal :: WAL where
  "empty_wal = \<lparr>wal_file = Some \<lparr>content = [], pos = 0, stable = 0\<rparr>, nextTxID = 0, syncCounter = 0,
     SyncBatchSize = 64, keys = no_keys, writeSeq = 0, syncedSeq = 0, writeErr = False\<rparr>"

definition ok_io :: io where
  "ok_io = \<lparr>io_write = WriteOk, undo_tell = True, undo_trunc = True, undo_seek = True, io_sync = True,
     io_trunc = True, io_seek = True\<rparr>"

definition ok_open :: open_io where
  "ok_open = \<lparr>stat_ok = True, trunc_ok = True, rename_ok = True, reopen_ok = True\<rparr>"

lemma no_keys_ok [simp]: "keys_ok no_keys"
  by (simp add: keys_ok_def no_keys_def)

lemma empty_wal_holds: "wal_holds empty_wal []"
proof -
  have "holds_exactly no_keys [] []" by (simp add: holds_exactly_def)
  then show ?thesis
    using holds_exactly_holds by (auto simp: wal_holds_def empty_wal_def)
qed

text \<open>
  C30: \<open>readEntryFrom\<close> inverts \<open>buildRecord\<close>: under the same keys a record is read back as the entry it
  was made of, whatever follows it in the file, and the reader consumes exactly its bytes. The record
  must be within the reader's size limit, which \<open>buildRecord\<close> checks before it encrypts.
\<close>

theorem record_round_trip:
  assumes "keys_ok ks" and "length n = 12" and "record_fits ks n tx p" and "length p \<le> maxPayloadSize"
  shows "\<exists>rec. buildRecord ks (Some n) tx op p = Some (Inr rec)
    \<and> (\<forall>rest. readEntryFrom ks (rec @ rest) = (Inr (entry tx op p, length rec), length rec))"
  using buildRecord_log_record [OF assms(1-3), of op] assms(4)
  by (auto simp: log_record_def is_record_def)

theorem record_round_trip_witness:
  "\<exists>rec. buildRecord no_keys (Some (replicate 12 0)) 7 OpCommit [1, 2] = Some (Inr rec)
    \<and> (\<forall>rest. readEntryFrom no_keys (rec @ rest) = (Inr (entry 7 OpCommit [1, 2], length rec), length rec))"
  by (rule record_round_trip) (simp_all add: record_fits_clear maxPayloadSize_def)

text \<open>
  C25: whatever the file system does, \<open>AppendWithTx\<close> keeps the log readable. It never panics. When it
  succeeds the entry is the last one of the log; when it fails, the log holds what it held, or that and
  the entry; a partially written record is removed, or the log refuses all further writes.
\<close>

theorem AppendWithTx_keeps_log:
  assumes "wal_holds w es" and "EncodeWALPayloadBinary js p = Inr bs" and "length n = 12"
    and "record_fits (keys w) n tx bs"
  shows "\<exists>w' r. AppendWithTx js i (Some n) tx op p w = Some (w', r) \<and> keys w' = keys w
    \<and> (case r of Inr t \<Rightarrow> t = tx \<and> wal_holds w' (es @ [entry tx op bs])
        | Inl x \<Rightarrow> wal_holds w' es \<or> wal_holds w' (es @ [entry tx op bs]))"
  using appendBytesLockedWithTx_holds [OF assms(1,3,4), of i op] assms(2)
  by (simp add: AppendWithTx_def)

theorem AppendWithTx_keeps_log_witness:
  "\<exists>w' r. AppendWithTx demo_json (ok_io\<lparr>io_write := WriteFail 5, undo_tell := False\<rparr>) (Some (replicate 12 0)) 3
       OpAbort (PCommit \<lparr>co_Timestamp = 9\<rparr>) empty_wal = Some (w', r)
    \<and> (case r of Inr t \<Rightarrow> t = 3 \<and> wal_holds w' ([] @ [entry 3 OpAbort (binaryPayloadMarker # le64 9)])
        | Inl x \<Rightarrow> wal_holds w' [] \<or> wal_holds w' ([] @ [entry 3 OpAbort (binaryPayloadMarker # le64 9)]))"
proof -
  have "record_fits (keys empty_wal) (replicate 12 0) 3 (binaryPayloadMarker # le64 9)"
    by (simp add: empty_wal_def record_fits_clear maxPayloadSize_def)
  moreover have "EncodeWALPayloadBinary demo_json (PCommit \<lparr>co_Timestamp = 9\<rparr>) = Inr (binaryPayloadMarker # le64 9)"
    by (simp add: encodeCommitBinary_def)
  ultimately show ?thesis
    using AppendWithTx_keeps_log [OF empty_wal_holds, of demo_json "PCommit \<lparr>co_Timestamp = 9\<rparr>" _ "replicate 12 0" 3
        "ok_io\<lparr>io_write := WriteFail 5, undo_tell := False\<rparr>" OpAbort] by fastforce
qed



text \<open>
  C16: an acknowledged commit is durable. Once \<open>AppendCommitSync\<close> has returned without error, every
  crash leaves a file from which a restart recovers all earlier entries and the commit record.
\<close>

theorem commit_durable:
  assumes "AppendCommitSync js i (Some n) tx p w = Some (w', Inr t)" and "EncodeWALPayloadBinary js p = Inr bs"
    and "wal_holds w es" and "length n = 12" and "record_fits (keys w) n tx bs"
    and "syncedSeq w \<le> writeSeq w" and "unat (writeSeq w) + 1 < 2 ^ 64"
    and "wal_file w' = Some f" and "crash f c" and "stat_ok oi" "trunc_ok oi"
  shows "\<exists>w1 w2. restart oi (keys w) c = Inr w1 \<and> Recover w1 = (w2, Inr (es @ [entry tx OpCommit bs]))"
proof -
  note s = AppendCommitSync_synced [OF assms(1-7)]
  have full: "stable f = length (content f)" using s(3) assms(8) by auto
  have h: "holds (keys w) c (es @ [entry tx OpCommit bs])"
    using crash_holds [OF s(1) assms(8,9)] full s(2) by auto
  have "keys_ok (keys w)" "\<forall>e \<in> set (es @ [entry tx OpCommit bs]). \<not> Encrypted e"
    using s(1,2) by (auto simp: wal_holds_def)
  from restart_holds [OF h assms(10,11) this] show ?thesis by blast
qed

theorem commit_durable_witness:
  "\<exists>w' f. AppendCommitSync demo_json ok_io (Some (replicate 12 0)) 3 (PCommit \<lparr>co_Timestamp = 9\<rparr>) empty_wal = Some (w', Inr 3)
     \<and> wal_file w' = Some f
     \<and> (\<exists>w1 w2. restart ok_open no_keys (content f) = Inr w1
          \<and> Recover w1 = (w2, Inr [entry 3 OpCommit (binaryPayloadMarker # le64 9)]))"
proof -
  let ?bs = "binaryPayloadMarker # le64 9"
  have enc: "EncodeWALPayloadBinary demo_json (PCommit \<lparr>co_Timestamp = 9\<rparr>) = Inr ?bs"
    by (simp add: encodeCommitBinary_def)
  obtain rec where rec: "buildRecord no_keys (Some (replicate 12 0)) 3 OpCommit ?bs = Some (Inr rec)"
    using buildRecord_log_record [OF no_keys_ok, of "replicate 12 0" 3 ?bs OpCommit]
    by (auto simp: record_fits_clear maxPayloadSize_def)
  obtain w' f where run: "AppendCommitSync demo_json ok_io (Some (replicate 12 0)) 3 (PCommit \<lparr>co_Timestamp = 9\<rparr>) empty_wal
      = Some (w', Inr 3)" "wal_file w' = Some f"
    using rec enc
    by (simp add: AppendCommitSync_def commit_write_def empty_wal_def writeLocked_def ok_io_def Let_def
        file_write_def bump_next_def syncUpTo_def fsync_def advanceSynced_def)
  have cr: "crash f (content f)"
    unfolding crash_def by (rule exI [of _ "max (stable f) (length (content f))"]) simp
  have fits: "record_fits (keys empty_wal) (replicate 12 0) 3 ?bs"
    by (simp add: empty_wal_def record_fits_clear maxPayloadSize_def)
  have seq: "syncedSeq empty_wal \<le> writeSeq empty_wal" "unat (writeSeq empty_wal) + 1 < 2 ^ 64"
    by (simp_all add: empty_wal_def)
  from commit_durable [OF run(1) enc empty_wal_holds _ fits seq run(2) cr, of ok_open] run
  show ?thesis by (auto simp: empty_wal_def ok_open_def)
qed

lemma log_records_read: "list_all2 (log_record ks) es rs \<Longrightarrow> list_all2 (is_record ks) es rs"
  by (erule list_all2_mono) (simp add: log_record_def)



text \<open>
  which transactions \<open>AnalyzeTransactions\<close> reports. Committed are those with a commit record since
  their last abort record, in progress the others (0 excepted) that have any record since then; no
  transaction is both.
\<close>

theorem AnalyzeTransactions_classifies:
  assumes "wal_holds w es"
  shows "\<exists>w' c p. AnalyzeTransactions w = (w', Inr (c, p)) \<and> c \<inter> p = {}
    \<and> (\<forall>tx. tx \<in> c \<longleftrightarrow> (\<exists>e \<in> set (since_abort tx es). OpType e = OpCommit))
    \<and> (\<forall>tx. tx \<in> p \<longleftrightarrow> tx \<noteq> 0 \<and> tx \<notin> c \<and> since_abort tx es \<noteq> [])"
proof -
  obtain f where f: "wal_file w = Some f" "holds (keys w) (content f) es"
    using assms by (auto simp: wal_holds_def)
  obtain rs torn where c: "content f = concat rs @ torn" "list_all2 (is_record (keys w)) es rs" "torn_ok (keys w) torn"
    using f(2) log_records_read unfolding holds_def by blast
  obtain x n where "read_all (keys w) (content f) = (es, x, n)"
    using read_all_records [OF c(2), of torn] read_all_end torn_ok_ends [OF c(3)] c(1) by force
  moreover obtain cm ip where cp: "foldl analyze_entry ({}, {}) es = (cm, ip)" by fastforce
  ultimately have "\<exists>w'. AnalyzeTransactions w = (w', Inr (cm, ip))"
    using f(1) by (simp add: AnalyzeTransactions_def)
  then show ?thesis using analyze_spec [OF cp] by blast
qed

theorem AnalyzeTransactions_classifies_witness:
  "\<exists>w' c p. AnalyzeTransactions empty_wal = (w', Inr (c, p)) \<and> c \<inter> p = {}
    \<and> (\<forall>tx. tx \<in> c \<longleftrightarrow> (\<exists>e \<in> set (since_abort tx []). OpType e = OpCommit))
    \<and> (\<forall>tx. tx \<in> p \<longleftrightarrow> tx \<noteq> 0 \<and> tx \<notin> c \<and> since_abort tx [] \<noteq> [])"
  by (rule AnalyzeTransactions_classifies [OF empty_wal_holds])

text \<open>
  After an unreadable record \<open>Replay\<close> returns an error and leaves the file position behind the bytes it
  consumed. The next append then writes there: it overwrites records that are still in the log.
\<close>

lemma Replay_error_position:
  assumes "wal_file w = Some f" and "read_all (keys w) (content f) = (es, x, n)" and "x \<noteq> EOF" "x \<noteq> ErrUnexpectedEOF"
  shows "Replay cb w s = (w\<lparr>wal_file := Some (f\<lparr>pos := n\<rparr>)\<rparr>, s, Inl (ErrReadEntry x))"
  using assms by (simp add: Replay_def replay_filtered_def)

lemma append_after_error_overwrites:
  assumes "n + length rec \<le> length (content f)" and "\<not> writeErr w"
  shows "fst (writeLocked ok_io rec (f\<lparr>pos := n\<rparr>) w) = w\<lparr>wal_file :=
      Some (f\<lparr>content := take n (content f) @ rec @ drop (n + length rec) (content f), pos := n + length rec,
              stable := min (stable f) n\<rparr>), writeSeq := writeSeq w + 1\<rparr>"
  using assms by (simp add: writeLocked_def ok_io_def Let_def file_write_def write_at_def)

end
