(* ===== verification/Wal_Sync.thy ===== *)
theory Wal_Sync
  imports Wal_Log
begin

text \<open>
  Group commit by leader and follower: \<open>AppendCommitSync\<close> and \<open>syncUpTo\<close> of \<^verbatim>\<open>wal/wal.go\<close> run by any
  number of threads at once. The steps of a thread are those between which other threads may run: the
  critical section of \<^verbatim>\<open>w.mu\<close> that writes the commit record, each atomic load of \<^verbatim>\<open>syncedSeq\<close>, taking
  \<^verbatim>\<open>syncMu\<close>, the critical section that reads the target, the fsync, and the advance of \<^verbatim>\<open>syncedSeq\<close>.

  Sequence numbers are naturals: a run has fewer than \<open>2^64\<close> records. \<open>durable\<close> is a ghost, the number of
  records that an fsync has made durable.
\<close>

section \<open>The threads\<close>

datatype pc =
  Idle
| FirstLoad nat
| WaitLock nat
| SecondLoad nat
| ReadTarget nat
| Syncing nat nat
| Synced nat nat
| NotSynced nat
| Returned nat
| Failed nat

record sync_state =
  open_file :: bool
  written_seq :: nat
  synced_seq :: nat
  syncMu :: "nat option"
  durable :: nat
  pcs :: "nat \<Rightarrow> pc"

definition sync_init :: sync_state where
  "sync_init = \<lparr>open_file = True, written_seq = 0, synced_seq = 0, syncMu = None, durable = 0, pcs = \<lambda>_. Idle\<rparr>"

abbreviation goto :: "nat \<Rightarrow> pc \<Rightarrow> sync_state \<Rightarrow> sync_state" where
  "goto t p s \<equiv> s\<lparr>pcs := (pcs s)(t := p)\<rparr>"

text \<open>
  \<open>sync_step t s s'\<close>: thread \<open>t\<close> takes a step. The last three rules are the other writers of the log:
  a data record appended without a sync, an fsync under \<^verbatim>\<open>w.mu\<close> (\<open>maybeSyncLocked\<close>, \<open>Flush\<close>), and \<open>Close\<close>.
\<close>

inductive sync_step :: "nat \<Rightarrow> sync_state \<Rightarrow> sync_state \<Rightarrow> bool" where
  write_commit: "pcs s t = Idle \<Longrightarrow> open_file s \<Longrightarrow>
    sync_step t s (goto t (FirstLoad (written_seq s + 1)) (s\<lparr>written_seq := written_seq s + 1\<rparr>))"
| first_load_done: "pcs s t = FirstLoad q \<Longrightarrow> q \<le> synced_seq s \<Longrightarrow> sync_step t s (goto t (Returned q) s)"
| first_load_go: "pcs s t = FirstLoad q \<Longrightarrow> synced_seq s < q \<Longrightarrow> sync_step t s (goto t (WaitLock q) s)"
| lock: "pcs s t = WaitLock q \<Longrightarrow> syncMu s = None \<Longrightarrow>
    sync_step t s (goto t (SecondLoad q) (s\<lparr>syncMu := Some t\<rparr>))"
| second_load_done: "pcs s t = SecondLoad q \<Longrightarrow> q \<le> synced_seq s \<Longrightarrow>
    sync_step t s (goto t (Returned q) (s\<lparr>syncMu := None\<rparr>))"
| second_load_go: "pcs s t = SecondLoad q \<Longrightarrow> synced_seq s < q \<Longrightarrow> sync_step t s (goto t (ReadTarget q) s)"
| read_target: "pcs s t = ReadTarget q \<Longrightarrow> open_file s \<Longrightarrow> sync_step t s (goto t (Syncing q (written_seq s)) s)"
| read_closed: "pcs s t = ReadTarget q \<Longrightarrow> \<not> open_file s \<Longrightarrow> sync_step t s (goto t (NotSynced q) s)"
| fsync_ok: "pcs s t = Syncing q tg \<Longrightarrow> tg \<le> d \<Longrightarrow> d \<le> written_seq s \<Longrightarrow>
    sync_step t s (goto t (Synced q tg) (s\<lparr>durable := max (durable s) d\<rparr>))"
| fsync_error: "pcs s t = Syncing q tg \<Longrightarrow> sync_step t s (goto t (NotSynced q) s)"
| advance: "pcs s t = Synced q tg \<Longrightarrow>
    sync_step t s (goto t (Returned q) (s\<lparr>synced_seq := max (synced_seq s) tg, syncMu := None\<rparr>))"
| not_synced_done: "pcs s t = NotSynced q \<Longrightarrow> q \<le> synced_seq s \<Longrightarrow>
    sync_step t s (goto t (Returned q) (s\<lparr>syncMu := None\<rparr>))"
| not_synced_fail: "pcs s t = NotSynced q \<Longrightarrow> synced_seq s < q \<Longrightarrow>
    sync_step t s (goto t (Failed q) (s\<lparr>syncMu := None\<rparr>))"
| write_data: "pcs s t = Idle \<Longrightarrow> open_file s \<Longrightarrow> sync_step t s (s\<lparr>written_seq := written_seq s + 1\<rparr>)"
| sync_locked: "pcs s t = Idle \<Longrightarrow> open_file s \<Longrightarrow>
    sync_step t s (s\<lparr>durable := written_seq s, synced_seq := max (synced_seq s) (written_seq s)\<rparr>)"
| close: "pcs s t = Idle \<Longrightarrow> open_file s \<Longrightarrow>
    sync_step t s (s\<lparr>open_file := False, durable := written_seq s,
                      synced_seq := max (synced_seq s) (written_seq s)\<rparr>)"

inductive sync_reach :: "sync_state \<Rightarrow> bool" where
  init: "sync_reach sync_init"
| step: "sync_reach s \<Longrightarrow> sync_step t s s' \<Longrightarrow> sync_reach s'"

inductive_cases sync_stepE: "sync_step t s s'"

section \<open>The invariant\<close>

fun in_critical :: "pc \<Rightarrow> bool" where
  "in_critical (SecondLoad q) = True"
| "in_critical (ReadTarget q) = True"
| "in_critical (Syncing q tg) = True"
| "in_critical (Synced q tg) = True"
| "in_critical (NotSynced q) = True"
| "in_critical _ = False"

fun pc_ok :: "nat \<Rightarrow> nat \<Rightarrow> pc \<Rightarrow> bool" where
  "pc_ok w d Idle = True"
| "pc_ok w d (FirstLoad q) = (q \<le> w)"
| "pc_ok w d (WaitLock q) = (q \<le> w)"
| "pc_ok w d (SecondLoad q) = (q \<le> w)"
| "pc_ok w d (ReadTarget q) = (q \<le> w)"
| "pc_ok w d (Syncing q tg) = (q \<le> tg \<and> tg \<le> w)"
| "pc_ok w d (Synced q tg) = (q \<le> tg \<and> tg \<le> d)"
| "pc_ok w d (NotSynced q) = (q \<le> w)"
| "pc_ok w d (Returned q) = (q \<le> d)"
| "pc_ok w d (Failed q) = (q \<le> w)"

definition sync_inv :: "sync_state \<Rightarrow> bool" where
  "sync_inv s \<longleftrightarrow> synced_seq s \<le> durable s \<and> durable s \<le> written_seq s
     \<and> (\<forall>t. pc_ok (written_seq s) (durable s) (pcs s t))
     \<and> (\<forall>t. in_critical (pcs s t) \<longleftrightarrow> syncMu s = Some t)"

lemma pc_ok_mono: "pc_ok w d p \<Longrightarrow> w \<le> w' \<Longrightarrow> d \<le> d' \<Longrightarrow> pc_ok w' d' p"
  by (cases p) auto

lemma sync_inv_init: "sync_inv sync_init"
  by (simp add: sync_inv_def sync_init_def)

lemma sync_inv_step:
  assumes "sync_step t s s'" and inv: "sync_inv s"
  shows "sync_inv s'"
proof -
  have mu: "\<And>u. in_critical (pcs s u) \<longleftrightarrow> syncMu s = Some u"
    and ok: "\<And>u. pc_ok (written_seq s) (durable s) (pcs s u)"
    and ord: "synced_seq s \<le> durable s" "durable s \<le> written_seq s"
    using inv by (auto simp: sync_inv_def)
  have mono: "pc_ok w d (pcs s u)" if "written_seq s \<le> w" "durable s \<le> d" for u w d
    using pc_ok_mono [OF ok that] .
  note here = ok [of t] mu [of t]
  show ?thesis
    using assms(1) by cases (use here ord in \<open>auto simp: sync_inv_def mu intro!: mono\<close>)
qed

lemma sync_reach_inv: "sync_reach s \<Longrightarrow> sync_inv s"
  by (induction rule: sync_reach.induct) (auto intro: sync_inv_init sync_inv_step)

section \<open>Properties\<close>

text \<open>
  C24: whatever the interleaving, a thread returns successfully from waiting for its commit record only
  when an fsync has made that record, and every record written before it, durable. At most one thread is
  ever in the fsync section.
\<close>

theorem sync_returned_durable:
  assumes "sync_reach s"
  shows "(pcs s t = Returned q \<longrightarrow> q \<le> durable s) \<and> synced_seq s \<le> durable s
    \<and> (in_critical (pcs s t) \<longrightarrow> in_critical (pcs s u) \<longrightarrow> t = u)"
proof -
  have inv: "sync_inv s" using sync_reach_inv [OF assms] .
  then have "pc_ok (written_seq s) (durable s) (pcs s t)" by (simp add: sync_inv_def)
  then have "pcs s t = Returned q \<longrightarrow> q \<le> durable s" by auto
  then show ?thesis using inv by (auto simp: sync_inv_def)
qed

definition demo_returned :: sync_state where
  "demo_returned = \<lparr>open_file = True, written_seq = 1, synced_seq = 1, syncMu = None, durable = 1,
     pcs = (\<lambda>_. Idle)(0 := Returned 1)\<rparr>"

lemma demo_returned_reach: "sync_reach demo_returned"
proof -
  define st where "st sy mu d p = \<lparr>open_file = True, written_seq = 1, synced_seq = sy, syncMu = mu, durable = d,
     pcs = (\<lambda>_. Idle)(0 := p)\<rparr>" for sy mu d p
  have 1: "sync_reach (st 0 None 0 (FirstLoad 1))"
    using sync_reach.step [OF sync_reach.init write_commit [of sync_init 0]]
    by (simp add: sync_init_def st_def)
  have 2: "sync_reach (st 0 None 0 (WaitLock 1))"
    using sync_reach.step [OF 1 first_load_go [of _ 0 1]] by (simp add: st_def)
  have 3: "sync_reach (st 0 (Some 0) 0 (SecondLoad 1))"
    using sync_reach.step [OF 2 lock [of _ 0 1]] by (simp add: st_def)
  have 4: "sync_reach (st 0 (Some 0) 0 (ReadTarget 1))"
    using sync_reach.step [OF 3 second_load_go [of _ 0 1]] by (simp add: st_def)
  have 5: "sync_reach (st 0 (Some 0) 0 (Syncing 1 1))"
    using sync_reach.step [OF 4 read_target [of _ 0 1]] by (simp add: st_def)
  have 6: "sync_reach (st 0 (Some 0) 1 (Synced 1 1))"
    using sync_reach.step [OF 5 fsync_ok [of _ 0 1 1 1]] by (simp add: st_def)
  show ?thesis
    using sync_reach.step [OF 6 advance [of _ 0 1 1]] by (simp add: st_def demo_returned_def)
qed

theorem sync_returned_durable_witness:
  "sync_reach demo_returned \<and> pcs demo_returned 0 = Returned 1 \<and> 1 \<le> durable demo_returned"
  using sync_returned_durable [OF demo_returned_reach, of 0 1 0] demo_returned_reach
  by (simp add: demo_returned_def)

text \<open>
  C37: a waiting committer is never stuck. In every reachable state in which a thread has not yet
  returned or failed, that thread or the holder of \<open>syncMu\<close> can take a step.
\<close>

theorem sync_progress:
  assumes "sync_reach s" and "pcs s t \<noteq> Idle" and "\<forall>q. pcs s t \<noteq> Returned q \<and> pcs s t \<noteq> Failed q"
  shows "\<exists>u s'. (u = t \<or> syncMu s = Some u) \<and> sync_step u s s'"
proof -
  have inv: "sync_inv s" using sync_reach_inv [OF assms(1)] .
  have crit: "\<exists>s'. sync_step u s s'" if "in_critical (pcs s u)" for u
  proof (cases "pcs s u")
    case (SecondLoad q)
    then show ?thesis by (meson second_load_done second_load_go not_le)
  next
    case (ReadTarget q)
    then show ?thesis by (meson read_target read_closed)
  next
    case (Syncing q tg)
    then show ?thesis using fsync_error by blast
  next
    case (Synced q tg)
    then show ?thesis using advance by blast
  next
    case (NotSynced q)
    then show ?thesis by (meson not_synced_done not_synced_fail not_le)
  qed (use that in auto)
  show ?thesis
  proof (cases "pcs s t")
    case (FirstLoad q)
    then have "\<exists>s'. sync_step t s s'" by (meson first_load_done first_load_go not_le)
    then show ?thesis by blast
  next
    case (WaitLock q)
    show ?thesis
    proof (cases "syncMu s")
      case None
      then show ?thesis using WaitLock lock by blast
    next
      case (Some u)
      then have "in_critical (pcs s u)" using inv by (simp add: sync_inv_def)
      then show ?thesis using crit Some by blast
    qed
  qed (use assms(2,3) crit [of t] in auto)
qed

theorem sync_progress_witness:
  "\<exists>s u s'. sync_reach s \<and> pcs s 0 = FirstLoad 1 \<and> (u = 0 \<or> syncMu s = Some u) \<and> sync_step u s s'"
proof -
  define s where "s = goto 0 (FirstLoad (written_seq sync_init + 1)) (sync_init\<lparr>written_seq := written_seq sync_init + 1\<rparr>)"
  have r: "sync_reach s" unfolding s_def
    by (rule sync_reach.step [OF sync_reach.init write_commit]) (simp_all add: sync_init_def)
  have p: "pcs s 0 = FirstLoad 1" by (simp add: s_def sync_init_def)
  from sync_progress [OF r, of 0] p r show ?thesis by auto
qed

end
