(* ===== verification/Heap.thy ===== *)
theory Heap
  imports Page Crypto
begin

text \<open>
  The heap file of a table, \<^verbatim>\<open>server/internal/core/storage/heap/heapfile.go\<close>: pages in numbered segment
  files, read and written with a checksum, in the clear, through the TDE engine or through the
  encryption manager. A segment is the list of the bytes of its file; the shared memory map of
  \<^verbatim>\<open>mmap_unix.go\<close> covers the whole file, so it shows the same bytes. Outcomes of the operating system
  are arguments: \<open>grow_ok\<close> says whether extending a file succeeds, \<open>create_ok\<close> whether a new file could be
  created. A failing \<^verbatim>\<open>munmap\<close>, \<^verbatim>\<open>mmap\<close>, \<^verbatim>\<open>stat\<close> or \<^verbatim>\<open>close\<close> is not modelled. Offsets fit in an \<^verbatim>\<open>int64\<close>
  (a page number has 32 bits), so they are naturals. Locking is not modelled.
\<close>

unbundle bit_operations_syntax

section \<open>Segments\<close>

text \<open>
  \<open>seg_ReadAt\<close> gives the buffer after the call and whether the whole of it was read: a read past the end
  of the file goes to \<^verbatim>\<open>os.File.ReadAt\<close>, which fills what there is and reports an error.
\<close>

definition seg_ReadAt :: "bytes \<Rightarrow> bytes \<Rightarrow> nat \<Rightarrow> bytes \<times> bool" where
  "seg_ReadAt seg b off =
     (if off + length b > length seg then (overwrite 0 (drop off seg) b, False)
      else (window off (length b) seg, True))"

definition seg_WriteAt :: "bool \<Rightarrow> bytes \<Rightarrow> bytes \<Rightarrow> nat \<Rightarrow> bytes option" where
  "seg_WriteAt grow_ok seg b off =
     (if off + length b > length seg
      then if grow_ok then Some (overwrite off b (seg @ replicate (off + length b - length seg) 0)) else None
      else Some (overwrite off b seg))"

section \<open>Heap files\<close>

record HeapFile =
  segments :: "bytes list"
  hf_closed :: bool
  cachedPageCount :: u32
  pageCountValid :: bool
  hf_tde :: "TDEEngine option"

datatype heap_error =
  ErrHeapClosed | ErrNoSegment | ErrReadAt | ErrDecryptPage crypto_error | ErrChecksumMismatch
| ErrNotEncryptedPage | ErrBadHeader header_error | ErrEncryptPage crypto_error | ErrSegmentRange
| ErrPageCountRange | ErrCreateSegment | ErrOpenSegment | ErrWriteAt

definition PagesPerSegment :: u32 where "PagesPerSegment = 131072"
definition GCMTagSize :: nat where "GCMTagSize = 16"
definition EncryptedOnDiskPageSize :: nat where
  "EncryptedOnDiskPageSize = EncryptedPageHeaderSize + PageSize + GCMTagSize"

definition onDiskPageSize :: "HeapFile \<Rightarrow> nat" where
  "onDiskPageSize hf = (if hf_tde hf \<noteq> None then PageSize + 16 else PageSize)"

definition EncryptedFileOffset :: "PageID \<Rightarrow> nat" where
  "EncryptedFileOffset p = unat (PageNo p) * EncryptedOnDiskPageSize"

definition Heap_SetTDEEngine :: "TDEEngine option \<Rightarrow> HeapFile \<Rightarrow> HeapFile" where
  "Heap_SetTDEEngine t hf = hf\<lparr>hf_tde := t\<rparr>"

text \<open>The page engine numbers the pages of a table across segments (\<^verbatim>\<open>page_engine_io.go\<close>).\<close>

definition pageIDAt :: "u32 \<Rightarrow> u32 \<Rightarrow> PageID" where
  "pageIDAt tableID global =
     \<lparr>TableID = tableID, SegmentNo = ucast (global div PagesPerSegment), PageNo = global mod PagesPerSegment\<rparr>"

text \<open>\<open>segmentName\<close>: the number in decimal, at least four digits.\<close>

fun decimal :: "nat \<Rightarrow> nat list" where
  "decimal n = (if n < 10 then [n] else decimal (n div 10) @ [n mod 10])"

definition digit_char :: "nat \<Rightarrow> char" where
  "digit_char d = char_of (48 + d)"

definition pad4 :: "nat list \<Rightarrow> nat list" where
  "pad4 ds = replicate (4 - length ds) 0 @ ds"

definition segmentName :: "u16 \<Rightarrow> string" where
  "segmentName segNo = map digit_char (pad4 (decimal (unat segNo))) @ ''.heap''"

definition CreateHeapFile :: "bool \<Rightarrow> heap_error + HeapFile" where
  "CreateHeapFile create_ok =
     (if create_ok
      then Inr \<lparr>segments = [[]], hf_closed = False, cachedPageCount = 0, pageCountValid = True, hf_tde = None\<rparr>
      else Inl ErrCreateSegment)"

text \<open>
  \<open>OpenHeapFile\<close> opens the consecutive segments of the directory, here a map from names to contents;
  \<open>can_open\<close> says which files can be opened. The loop counter has 16 bits: with all 65536 segments in
  the directory the loop does not end, which is the value \<^const>\<open>None\<close>.
\<close>

partial_function (option) open_segments ::
  "(string \<Rightarrow> bool) \<Rightarrow> (string \<rightharpoonup> bytes) \<Rightarrow> u16 \<Rightarrow> bytes list \<Rightarrow> (heap_error + bytes list) option" where
  "open_segments can_open files segNo segs =
     (case files (segmentName segNo) of
        None \<Rightarrow> Some (Inr segs)
      | Some content \<Rightarrow>
          if can_open (segmentName segNo) then open_segments can_open files (segNo + 1) (segs @ [content])
          else Some (Inl ErrOpenSegment))"

definition OpenHeapFile :: "(string \<Rightarrow> bool) \<Rightarrow> (string \<rightharpoonup> bytes) \<Rightarrow> (heap_error + HeapFile) option" where
  "OpenHeapFile can_open files =
     Option.bind (open_segments can_open files 0 []) (\<lambda>r. Some (
       case r of
         Inl e \<Rightarrow> Inl e
       | Inr segs \<Rightarrow>
           if segs = [] then Inl ErrNoSegment
           else Inr \<lparr>segments = segs, hf_closed = False, cachedPageCount = 0, pageCountValid = False, hf_tde = None\<rparr>))"

definition Heap_Close :: "HeapFile \<Rightarrow> HeapFile" where
  "Heap_Close hf = hf\<lparr>hf_closed := True, segments := []\<rparr>"

text \<open>The number that makes the nonce of a page under TDE: the table and the page, not the segment.\<close>

definition tde_page_id :: "PageID \<Rightarrow> u64" where
  "tde_page_id pid = push_bit 32 (ucast (TableID pid)) OR ucast (PageNo pid)"

definition get_segment :: "HeapFile \<Rightarrow> PageID \<Rightarrow> heap_error + bytes" where
  "get_segment hf pid =
     (if hf_closed hf then Inl ErrHeapClosed
      else if unat (SegmentNo pid) \<ge> length (segments hf) then Inl ErrNoSegment
      else Inr (segments hf ! unat (SegmentNo pid)))"

text \<open>
  The reads give the caller's page as they leave it, which they may have filled when they report an
  error, and the result.
\<close>

definition verify :: "page \<Rightarrow> page \<times> (heap_error + unit)" where
  "verify buf = (buf, if VerifyChecksum buf then Inr () else Inl ErrChecksumMismatch)"

definition read_plain :: "bytes \<Rightarrow> page \<Rightarrow> nat \<Rightarrow> page \<times> (heap_error + unit)" where
  "read_plain seg buf offset =
     (case seg_ReadAt seg buf offset of
        (buf, False) \<Rightarrow> (buf, Inl ErrReadAt)
      | (buf, True) \<Rightarrow> verify buf)"

definition ReadPage :: "HeapFile \<Rightarrow> PageID \<Rightarrow> page \<Rightarrow> page \<times> (heap_error + unit)" where
  "ReadPage hf pid buf =
     (case get_segment hf pid of
        Inl e \<Rightarrow> (buf, Inl e)
      | Inr seg \<Rightarrow>
          (let offset = unat (PageNo pid) * onDiskPageSize hf
           in case hf_tde hf of
                Some t \<Rightarrow>
                  (case seg_ReadAt seg (replicate (PageSize + 16) 0) offset of
                     (raw, False) \<Rightarrow> (buf, Inl ErrReadAt)
                   | (raw, True) \<Rightarrow>
                       (case TDE_DecryptPage t raw (tde_page_id pid) of
                          Inl e \<Rightarrow> (buf, Inl (ErrDecryptPage e))
                        | Inr plaintext \<Rightarrow> verify (overwrite 0 (take (length buf) plaintext) buf)))
              | None \<Rightarrow> read_plain seg buf offset))"

definition ReadPageEncrypted ::
  "HeapFile \<Rightarrow> PageID \<Rightarrow> page \<Rightarrow> EncryptionManager option \<Rightarrow> page \<times> (heap_error + unit)" where
  "ReadPageEncrypted hf pid buf em =
     (case get_segment hf pid of
        Inl e \<Rightarrow> (buf, Inl e)
      | Inr seg \<Rightarrow>
          (case em of
             None \<Rightarrow> read_plain seg buf (FileOffset pid)
           | Some m \<Rightarrow>
               (case seg_ReadAt seg (replicate EncryptedOnDiskPageSize 0) (EncryptedFileOffset pid) of
                  (raw, False) \<Rightarrow> (buf, Inl ErrReadAt)
                | (raw, True) \<Rightarrow>
                    if \<not> IsEncryptedPage raw then (buf, Inl ErrNotEncryptedPage)
                    else
                      (case ParseEncryptedHeader raw of
                         Inl e \<Rightarrow> (buf, Inl (ErrBadHeader e))
                       | Inr hdr \<Rightarrow>
                           (case DecryptPage m (eph_Nonce hdr) (drop EncryptedPageHeaderSize raw)
                                   (PageID_Bytes pid) (eph_KeyVersion hdr) of
                              Inl e \<Rightarrow> (buf, Inl (ErrDecryptPage e))
                            | Inr plaintext \<Rightarrow> verify (overwrite 0 (take (length buf) plaintext) buf))))))"

text \<open>
  The writes set the checksum in the caller's page, which is part of the result, and store it.
  \<open>put_segment\<close> is the call of \<open>WriteAt\<close> on the segment of the page.
\<close>

definition put_segment :: "bool \<Rightarrow> HeapFile \<Rightarrow> nat \<Rightarrow> bytes \<Rightarrow> nat \<Rightarrow> HeapFile \<times> (heap_error + unit)" where
  "put_segment grow_ok hf segNo b offset =
     (case seg_WriteAt grow_ok (segments hf ! segNo) b offset of
        None \<Rightarrow> (hf, Inl ErrWriteAt)
      | Some seg \<Rightarrow> (hf\<lparr>segments := (segments hf)[segNo := seg]\<rparr>, Inr ()))"

definition WritePage :: "bool \<Rightarrow> HeapFile \<Rightarrow> PageID \<Rightarrow> page \<Rightarrow> HeapFile \<times> page \<times> (heap_error + unit)" where
  "WritePage grow_ok hf pid buf =
     (case get_segment hf pid of
        Inl e \<Rightarrow> (hf, buf, Inl e)
      | Inr seg \<Rightarrow>
          (let buf = SetChecksum buf;
               offset = unat (PageNo pid) * onDiskPageSize hf;
               stored = (case hf_tde hf of Some t \<Rightarrow> TDE_EncryptPage t buf (tde_page_id pid) | None \<Rightarrow> buf);
               (hf, r) = put_segment grow_ok hf (unat (SegmentNo pid)) stored offset
           in (hf, buf, r)))"

definition encrypted_frame :: "EncryptionManager \<Rightarrow> bytes \<Rightarrow> bytes \<Rightarrow> bytes" where
  "encrypted_frame m nonce ciphertext =
     (let out = replicate EncryptedOnDiskPageSize 0;
          out = overwrite 0 EncryptedPageMagic out;
          out = overwrite 4 (le32 (KeyVersion m)) out;
          out = overwrite 8 (take 12 nonce) out
      in overwrite 20 (take (EncryptedOnDiskPageSize - 20) ciphertext) out)"

definition WritePageEncrypted ::
  "bool \<Rightarrow> HeapFile \<Rightarrow> PageID \<Rightarrow> page \<Rightarrow> EncryptionManager option \<Rightarrow> bytes option
     \<Rightarrow> (HeapFile \<times> page \<times> (heap_error + unit)) option" where
  "WritePageEncrypted grow_ok hf pid buf em rnd =
     (case get_segment hf pid of
        Inl e \<Rightarrow> Some (hf, buf, Inl e)
      | Inr seg \<Rightarrow>
          (let buf = SetChecksum buf; segNo = unat (SegmentNo pid)
           in case em of
                None \<Rightarrow> (case put_segment grow_ok hf segNo buf (FileOffset pid) of (hf, r) \<Rightarrow> Some (hf, buf, r))
              | Some m \<Rightarrow>
                  Option.bind (EncryptPage m rnd buf (PageID_Bytes pid)) (\<lambda>r.
                    case r of
                      Inl e \<Rightarrow> Some (hf, buf, Inl (ErrEncryptPage e))
                    | Inr (nonce, ciphertext) \<Rightarrow>
                        (case put_segment grow_ok hf segNo (encrypted_frame m nonce ciphertext)
                                (EncryptedFileOffset pid) of
                           (hf, r) \<Rightarrow> Some (hf, buf, r)))))"

text \<open>
  \<open>AllocatePage\<close> puts a new page at the end of the last segment, or in a new one. The new file is created
  with \<^verbatim>\<open>O_EXCL\<close>: the call fails when the number, which has 16 bits, has wrapped to that of a segment the
  heap file already has. The page id it returns has table 0.
\<close>

definition new_segment :: "bool \<Rightarrow> u16 \<Rightarrow> u32 \<Rightarrow> HeapFile \<Rightarrow> heap_error + HeapFile \<times> u16 \<times> u32" where
  "new_segment create_ok segNo pageNo hf =
     (if pageNo \<ge> PagesPerSegment
      then if create_ok \<and> unat (segNo + 1) \<ge> length (segments hf)
           then Inr (hf\<lparr>segments := segments hf @ [[]]\<rparr>, segNo + 1, 0)
           else Inl ErrCreateSegment
      else Inr (hf, segNo, pageNo))"

definition AllocatePage :: "bool \<Rightarrow> bool \<Rightarrow> u8 \<Rightarrow> HeapFile \<Rightarrow> HeapFile \<times> (heap_error + PageID \<times> page)" where
  "AllocatePage create_ok grow_ok pageType hf =
     (if hf_closed hf \<or> segments hf = [] then (hf, Inl ErrHeapClosed)
      else if length (segments hf) - 1 > 0xFFFF then (hf, Inl ErrSegmentRange)
      else
        let segNo = (word_of_nat (length (segments hf) - 1) :: u16);
            pagesInSeg = length (segments hf ! unat segNo) div onDiskPageSize hf
        in if pagesInSeg > 0xFFFFFFFF then (hf, Inl ErrPageCountRange)
        else case new_segment create_ok segNo (word_of_nat pagesInSeg) hf of
          Inl e \<Rightarrow> (hf, Inl e)
        | Inr (hf, segNo, pageNo) \<Rightarrow>
            (let pid = \<lparr>TableID = 0, SegmentNo = segNo, PageNo = pageNo\<rparr>;
                 buf = SetChecksum (Init pageType);
                 offset = unat pageNo * onDiskPageSize hf;
                 stored = (case hf_tde hf of Some t \<Rightarrow> TDE_EncryptPage t buf (tde_page_id pid) | None \<Rightarrow> buf)
             in case put_segment grow_ok hf (unat segNo) stored offset of
                  (hf, Inl e) \<Rightarrow> (hf, Inl e)
                | (hf, Inr u) \<Rightarrow> (hf\<lparr>pageCountValid := False\<rparr>, Inr (pid, buf))))"

definition Heap_PageCount :: "HeapFile \<Rightarrow> HeapFile \<times> (heap_error + u32)" where
  "Heap_PageCount hf =
     (if pageCountValid hf then (hf, Inr (cachedPageCount hf))
      else if hf_closed hf then (hf, Inl ErrHeapClosed)
      else let total = (\<Sum>seg\<leftarrow>segments hf. length seg div onDiskPageSize hf)
        in if total > 0xFFFFFFFF then (hf, Inl ErrPageCountRange)
        else (hf\<lparr>cachedPageCount := word_of_nat total, pageCountValid := True\<rparr>, Inr (word_of_nat total)))"

definition InvalidatePageCount :: "HeapFile \<Rightarrow> HeapFile" where
  "InvalidatePageCount hf = hf\<lparr>pageCountValid := False\<rparr>"

definition SegmentCount :: "HeapFile \<Rightarrow> nat" where
  "SegmentCount hf = (if hf_closed hf then 0 else length (segments hf))"

text \<open>\<open>ReadPageAhead\<close>: the pages read before the first error, and that error.\<close>

fun read_ahead :: "HeapFile \<Rightarrow> PageID \<Rightarrow> nat \<Rightarrow> nat \<Rightarrow> page list \<times> (heap_error + unit)" where
  "read_ahead hf pid i 0 = ([], Inr ())"
| "read_ahead hf pid i (Suc n) =
     (case ReadPage hf (pid\<lparr>PageNo := PageNo pid + word_of_nat i\<rparr>) (replicate PageSize 0) of
        (p, Inl e) \<Rightarrow> ([], Inl e)
      | (p, Inr u) \<Rightarrow> (case read_ahead hf pid (i + 1) n of (ps, r) \<Rightarrow> (p # ps, r)))"

definition ReadPageAhead :: "HeapFile \<Rightarrow> PageID \<Rightarrow> int \<Rightarrow> HeapFile \<times> page list \<times> (heap_error + unit)" where
  "ReadPageAhead hf pid ahead =
     (if ahead \<le> 0 then (hf, [], Inr ())
      else case Heap_PageCount hf of
        (hf, Inl e) \<Rightarrow> (hf, [], Inl e)
      | (hf, Inr pages) \<Rightarrow>
          (let ahead = (if uint (PageNo pid) + ahead > uint pages then uint pages - uint (PageNo pid) else ahead)
           in if ahead \<le> 0 then (hf, [], Inr ()) else (hf, read_ahead hf pid 0 (nat ahead))))"

section \<open>Reading back what was written\<close>

lemma VerifyChecksum_SetChecksum: "length p = PageSize \<Longrightarrow> VerifyChecksum (SetChecksum p)"
  by (simp add: VerifyChecksum_def SetChecksum_def ComputeChecksum_def overwrite_overwrite)
     (simp add: overwrite_def)

lemma length_SetChecksum [simp]: "length p = PageSize \<Longrightarrow> length (SetChecksum p) = PageSize"
  by (simp add: SetChecksum_def)

lemma window_append_left: "i + n \<le> length p \<Longrightarrow> window i n (p @ q) = window i n p"
  by (simp add: window_def)

definition seg_put :: "bytes \<Rightarrow> bytes \<Rightarrow> nat \<Rightarrow> bytes" where
  "seg_put seg b off = overwrite off b (seg @ replicate (off + length b - length seg) 0)"

lemma seg_WriteAt_eq:
  "seg_WriteAt g seg b off =
     (if g \<or> off + length b \<le> length seg then Some (seg_put seg b off) else None)"
  by (auto simp: seg_WriteAt_def seg_put_def)

lemma seg_put_facts:
  "length (seg_put seg b off) = max (length seg) (off + length b)"
  "window off (length b) (seg_put seg b off) = b"
  "j + n \<le> length seg \<Longrightarrow> j + n \<le> off \<or> off + length b \<le> j \<Longrightarrow> window j n (seg_put seg b off) = window j n seg"
proof -
  let ?s = "seg @ replicate (off + length b - length seg) 0"
  have len: "length ?s = max (length seg) (off + length b)" by simp
  show "length (seg_put seg b off) = max (length seg) (off + length b)"
    unfolding seg_put_def by (subst length_overwrite) (simp_all add: len)
  show "window off (length b) (seg_put seg b off) = b"
    unfolding seg_put_def by (rule window_overwrite_same) (simp_all add: len)
  assume n: "j + n \<le> length seg" and d: "j + n \<le> off \<or> off + length b \<le> j"
  have "window j n (seg_put seg b off) = window j n ?s"
    unfolding seg_put_def using d
    by (elim disjE) (simp_all add: window_overwrite_before window_overwrite_after len)
  then show "window j n (seg_put seg b off) = window j n seg"
    using n by (simp add: window_append_left)
qed

lemma seg_ReadAt_True:
  "seg_ReadAt seg b off = (b', True) \<longleftrightarrow> off + length b \<le> length seg \<and> b' = window off (length b) seg"
  by (auto simp: seg_ReadAt_def)

text \<open>What is relied on of the engine: GCM adds a tag of 16 bytes.\<close>

definition seals_with_tag :: "AEAD \<Rightarrow> bool" where
  "seals_with_tag a \<longleftrightarrow> aead_ok a \<and> (\<forall>n p ad. length (Seal a n p ad) = length p + 16)"

definition heap_open :: "HeapFile \<Rightarrow> bool" where
  "heap_open hf \<longleftrightarrow> \<not> hf_closed hf \<and> (\<forall>t. hf_tde hf = Some t \<longrightarrow> seals_with_tag (aead t))"

definition has_segment :: "HeapFile \<Rightarrow> PageID \<Rightarrow> bool" where
  "has_segment hf pid \<longleftrightarrow> unat (SegmentNo pid) < length (segments hf)"

definition same_place :: "PageID \<Rightarrow> PageID \<Rightarrow> bool" where
  "same_place p q \<longleftrightarrow> SegmentNo p = SegmentNo q \<and> PageNo p = PageNo q"

lemma get_segment_Inr:
  "get_segment hf pid = Inr seg \<longleftrightarrow> \<not> hf_closed hf \<and> has_segment hf pid \<and> seg = segments hf ! unat (SegmentNo pid)"
  by (auto simp: get_segment_def has_segment_def)

definition stored_form :: "HeapFile \<Rightarrow> PageID \<Rightarrow> page \<Rightarrow> bytes" where
  "stored_form hf pid p = (case hf_tde hf of Some t \<Rightarrow> TDE_EncryptPage t p (tde_page_id pid) | None \<Rightarrow> p)"

lemma length_stored_form: "heap_open hf \<Longrightarrow> length p = PageSize \<Longrightarrow> length (stored_form hf pid p) = onDiskPageSize hf"
  by (auto simp: stored_form_def onDiskPageSize_def heap_open_def seals_with_tag_def TDE_EncryptPage_def
      split: option.splits)

lemma put_segment_eq:
  "put_segment g hf n b off =
     (if g \<or> off + length b \<le> length (segments hf ! n)
      then (hf\<lparr>segments := (segments hf)[n := seg_put (segments hf ! n) b off]\<rparr>, Inr ()) else (hf, Inl ErrWriteAt))"
  by (simp add: put_segment_def seg_WriteAt_eq)

text \<open>\<open>decode\<close>: what \<open>ReadPage\<close> makes of the bytes of a page on disk.\<close>

definition decode :: "HeapFile \<Rightarrow> PageID \<Rightarrow> page \<Rightarrow> bytes \<Rightarrow> page \<times> (heap_error + unit)" where
  "decode hf pid buf raw =
     (case hf_tde hf of
        None \<Rightarrow> verify raw
      | Some t \<Rightarrow> (case TDE_DecryptPage t raw (tde_page_id pid) of
            Inl e \<Rightarrow> (buf, Inl (ErrDecryptPage e))
          | Inr q \<Rightarrow> verify (overwrite 0 (take (length buf) q) buf)))"

definition disk_range :: "HeapFile \<Rightarrow> PageID \<Rightarrow> bool" where
  "disk_range hf pid \<longleftrightarrow> unat (PageNo pid) * onDiskPageSize hf + onDiskPageSize hf
     \<le> length (segments hf ! unat (SegmentNo pid))"

definition disk_bytes :: "HeapFile \<Rightarrow> PageID \<Rightarrow> bytes" where
  "disk_bytes hf pid = window (unat (PageNo pid) * onDiskPageSize hf) (onDiskPageSize hf)
     (segments hf ! unat (SegmentNo pid))"

lemma ReadPage_in_range:
  assumes "\<not> hf_closed hf" and "has_segment hf pid" and "disk_range hf pid" and "length buf = PageSize"
  shows "ReadPage hf pid buf = decode hf pid buf (disk_bytes hf pid)"
  using assms
  by (auto simp: ReadPage_def get_segment_def has_segment_def disk_range_def disk_bytes_def decode_def
      onDiskPageSize_def seg_ReadAt_def read_plain_def Let_def split: option.splits)

lemma ReadPage_Inr:
  assumes "ReadPage hf pid buf = (q, Inr ())" and "length buf = PageSize"
  shows "\<not> hf_closed hf \<and> has_segment hf pid \<and> disk_range hf pid"
  using assms
  by (auto simp: ReadPage_def get_segment_def has_segment_def disk_range_def onDiskPageSize_def seg_ReadAt_def
      read_plain_def Let_def not_le split: option.splits if_splits)

lemma decode_stored_form:
  assumes "heap_open hf" and "length p = PageSize" and "length buf = PageSize" and "VerifyChecksum p"
  shows "decode hf pid buf (stored_form hf pid p) = (p, Inr ())"
  using assms
  by (auto simp: decode_def stored_form_def verify_def TDE_EncryptPage_def TDE_DecryptPage_def heap_open_def
      seals_with_tag_def aead_ok_def overwrite_def split: option.splits)

definition put_page :: "HeapFile \<Rightarrow> PageID \<Rightarrow> bytes \<Rightarrow> HeapFile" where
  "put_page hf pid b = hf\<lparr>segments := (segments hf)[unat (SegmentNo pid) :=
     seg_put (segments hf ! unat (SegmentNo pid)) b (unat (PageNo pid) * onDiskPageSize hf)]\<rparr>"

lemma put_page_simps [simp]:
  "hf_closed (put_page hf pid b) = hf_closed hf" "hf_tde (put_page hf pid b) = hf_tde hf"
  "onDiskPageSize (put_page hf pid b) = onDiskPageSize hf"
  "heap_open (put_page hf pid b) = heap_open hf" "has_segment (put_page hf pid b) q = has_segment hf q"
  "stored_form (put_page hf pid b) q = stored_form hf q" "decode (put_page hf pid b) q = decode hf q"
  "length (segments (put_page hf pid b)) = length (segments hf)"
  by (simp_all add: put_page_def onDiskPageSize_def heap_open_def has_segment_def stored_form_def decode_def fun_eq_iff)

lemma put_page_same:
  assumes "has_segment hf pid" and "length b = onDiskPageSize hf"
  shows "disk_range (put_page hf pid b) pid" and "disk_bytes (put_page hf pid b) pid = b"
  using assms seg_put_facts(1,2) [where seg = "segments hf ! unat (SegmentNo pid)" and b = b
      and off = "unat (PageNo pid) * onDiskPageSize hf"]
  by (simp_all add: disk_range_def disk_bytes_def has_segment_def)
     (simp_all add: put_page_def)

lemma page_ranges_disjoint:
  "m \<noteq> n \<Longrightarrow> m * s + s \<le> n * s \<or> n * s + s \<le> m * (s :: nat)"
proof -
  assume "m \<noteq> n"
  then have "Suc m \<le> n \<or> Suc n \<le> m" by auto
  then show ?thesis using mult_le_mono1 [of "Suc m" n s] mult_le_mono1 [of "Suc n" m s] by auto
qed

lemma put_page_other:
  assumes "\<not> same_place pid q" and "length b = onDiskPageSize hf" and r: "disk_range hf q"
  shows "disk_range (put_page hf pid b) q" and "disk_bytes (put_page hf pid b) q = disk_bytes hf q"
proof -
  let ?s = "onDiskPageSize hf" and ?seg = "segments hf ! unat (SegmentNo pid)"
  have "disk_range (put_page hf pid b) q \<and> disk_bytes (put_page hf pid b) q = disk_bytes hf q"
  proof (cases "unat (SegmentNo pid) = unat (SegmentNo q) \<and> unat (SegmentNo q) < length (segments hf)")
    case True
    then have "unat (PageNo pid) \<noteq> unat (PageNo q)"
      using assms(1) by (auto simp: same_place_def word_unat_eq_iff)
    then have "unat (PageNo q) * ?s + ?s \<le> unat (PageNo pid) * ?s \<or> unat (PageNo pid) * ?s + length b \<le> unat (PageNo q) * ?s"
      using page_ranges_disjoint assms(2) by metis
    moreover have "unat (PageNo q) * ?s + ?s \<le> length ?seg" using r True by (simp add: disk_range_def)
    ultimately show ?thesis
      using True seg_put_facts(1) [where seg = ?seg and b = b and off = "unat (PageNo pid) * ?s"]
        seg_put_facts(3) [of "unat (PageNo q) * ?s" ?s ?seg "unat (PageNo pid) * ?s" b]
      by (simp add: disk_range_def disk_bytes_def) (simp add: put_page_def)
  next
    case False
    have "segments (put_page hf pid b) ! unat (SegmentNo q) = segments hf ! unat (SegmentNo q)"
      using False by (cases "unat (SegmentNo pid) < length (segments hf)") (auto simp: put_page_def list_update_beyond)
    then show ?thesis using r by (simp add: disk_range_def disk_bytes_def)
  qed
  then show "disk_range (put_page hf pid b) q" and "disk_bytes (put_page hf pid b) q = disk_bytes hf q" by auto
qed

lemma WritePage_eq:
  assumes "heap_open hf" and "has_segment hf pid" and "length p = PageSize" and "g \<or> disk_range hf pid"
  shows "WritePage g hf pid p = (put_page hf pid (stored_form hf pid (SetChecksum p)), SetChecksum p, Inr ())"
proof -
  have l: "length (stored_form hf pid (SetChecksum p)) = onDiskPageSize hf"
    using assms(1,3) by (simp add: length_stored_form)
  have g: "get_segment hf pid = Inr (segments hf ! unat (SegmentNo pid))"
    using assms(1,2) by (simp add: get_segment_Inr heap_open_def)
  have w: "WritePage g hf pid p = (case put_segment g hf (unat (SegmentNo pid)) (stored_form hf pid (SetChecksum p))
       (unat (PageNo pid) * onDiskPageSize hf) of (hf, r) \<Rightarrow> (hf, SetChecksum p, r))"
    by (simp add: WritePage_def g stored_form_def Let_def)
  show ?thesis
    unfolding w put_segment_eq using assms(4) l by (simp add: disk_range_def put_page_def)
qed

lemma put_page_read:
  assumes "heap_open hf" and "has_segment hf pid" and "length p = PageSize" and "length b = PageSize"
    and "VerifyChecksum p"
  shows "ReadPage (put_page hf pid (stored_form hf pid p)) pid b = (p, Inr ())"
proof -
  have l: "length (stored_form hf pid p) = onDiskPageSize hf" using assms(1,3) by (rule length_stored_form)
  show ?thesis
    using assms put_page_same [OF assms(2) l]
    by (subst ReadPage_in_range) (simp_all add: heap_open_def [THEN iffD1] decode_stored_form)
qed

lemma put_page_frame:
  assumes "heap_open hf" and "length b = onDiskPageSize hf" and "\<not> same_place pid q"
    and "ReadPage hf q buf = (p, Inr ())" and "length buf = PageSize"
  shows "ReadPage (put_page hf pid b) q buf = (p, Inr ())"
proof -
  note q = ReadPage_Inr [OF assms(4,5)]
  show ?thesis
    using assms q put_page_other [OF assms(3,2)] ReadPage_in_range [of hf q buf]
      ReadPage_in_range [of "put_page hf pid b" q buf] by simp
qed


lemma demo_gcm_tag: "k \<noteq> [] \<Longrightarrow> seals_with_tag (demo_gcm k)"
  using length_concat_replicate [of k] demo_gcm_ok [of k]
  by (auto simp: seals_with_tag_def demo_gcm_def min_def)


section \<open>Pages under the encryption manager\<close>

lemma encrypted_frame_eq:
  "length nonce = 12 \<Longrightarrow> length c = PageSize + 16 \<Longrightarrow>
     encrypted_frame m nonce c = EncryptedPageMagic @ le32 (KeyVersion m) @ nonce @ c"
  by (simp add: encrypted_frame_def EncryptedOnDiskPageSize_def EncryptedPageHeaderSize_def GCMTagSize_def
      EncryptedPageMagic_def overwrite_def Let_def)

lemma length_encrypted_frame:
  "length nonce = 12 \<Longrightarrow> length c = PageSize + 16 \<Longrightarrow>
     length (encrypted_frame m nonce c) = EncryptedOnDiskPageSize"
  by (simp add: encrypted_frame_eq EncryptedPageMagic_def EncryptedOnDiskPageSize_def
      EncryptedPageHeaderSize_def GCMTagSize_def)

lemma encrypted_frame_parse:
  assumes "length nonce = 12" and "length c = PageSize + 16"
  shows "IsEncryptedPage (encrypted_frame m nonce c)"
    and "ParseEncryptedHeader (encrypted_frame m nonce c) =
      Inr \<lparr>eph_Magic = EncryptedPageMagic, eph_KeyVersion = KeyVersion m, eph_Nonce = nonce\<rparr>"
    and "drop EncryptedPageHeaderSize (encrypted_frame m nonce c) = c"
  using assms
  by (simp_all add: encrypted_frame_eq IsEncryptedPage_def ParseEncryptedHeader_def EncryptedPageMagic_def
      EncryptedPageHeaderSize_def window_def)

text \<open>
  A page written through the encryption manager is read back by the manager after any number of later
  key rotations: the frame on disk carries the key version and the nonce that the decryption needs, and
  the page identity is authenticated with it.
\<close>

theorem WritePageEncrypted_rotate_ReadPageEncrypted:
  assumes "\<not> hf_closed hf" and "has_segment hf pid" and "length p = PageSize" and "length b = PageSize"
    and "em_ok em" and "\<forall>a \<in> ran (the (aeads em)). seals_with_tag a" and "length nonce = 12"
    and "\<forall>k \<in> set ks. length k = 32 \<and> aead_ok (gcm k)" and "unat (KeyVersion em) + length ks < 2 ^ 32"
  shows "\<exists>hf' em'. WritePageEncrypted True hf pid p (Some em) (Some nonce) = Some (hf', SetChecksum p, Inr ())
    \<and> rotate_all gcm ks em = Some (Inr em')
    \<and> ReadPageEncrypted hf' pid b (Some em') = (SetChecksum p, Inr ())"
proof -
  let ?n = "unat (SegmentNo pid)"
  obtain a where a: "go_map_get (aeads em) (activeVer em) = Some a" "aead_ok a"
      "EncryptPage em (Some nonce) (SetChecksum p) (PageID_Bytes pid)
         = Some (Inr (nonce, Seal a nonce (SetChecksum p) (PageID_Bytes pid)))"
    using EncryptPage_Inr [OF assms(5)] by blast
  define c where "c = Seal a nonce (SetChecksum p) (PageID_Bytes pid)"
  have "a \<in> ran (the (aeads em))"
    using a(1) by (cases "aeads em") (auto simp: go_map_get_def ran_def)
  then have lc: "length c = PageSize + 16" using assms(3,6) by (simp add: c_def seals_with_tag_def)
  obtain em' where em': "rotate_all gcm ks em = Some (Inr em')" "em_ok em'"
      "go_map_get (aeads em') (activeVer em) = Some a"
    using rotate_all_props [OF assms(5,8)] assms(9) a(1) by (auto simp: KeyVersion_def)
  have dec: "DecryptPage em' nonce c (PageID_Bytes pid) (KeyVersion em) = Inr (SetChecksum p)"
    unfolding c_def KeyVersion_def using em' a(2) by (intro DecryptPage_get) (auto simp: em_ok_def)
  define f where "f = encrypted_frame em nonce c"
  note f = encrypted_frame_parse [OF assms(7) lc, of em, folded f_def]
  have lf: "length f = EncryptedOnDiskPageSize" using assms(7) lc by (simp add: f_def length_encrypted_frame)
  define seg where "seg = seg_put (segments hf ! ?n) f (EncryptedFileOffset pid)"
  define hf' where "hf' = hf\<lparr>segments := (segments hf)[?n := seg]\<rparr>"
  have w: "WritePageEncrypted True hf pid p (Some em) (Some nonce) = Some (hf', SetChecksum p, Inr ())"
    using assms(1,2) a(3)
    by (simp add: WritePageEncrypted_def get_segment_Inr [THEN iffD2] put_segment_eq Let_def hf'_def seg_def
        c_def [symmetric] f_def)
  have "seg_ReadAt seg (replicate EncryptedOnDiskPageSize 0) (EncryptedFileOffset pid) = (f, True)"
    using seg_put_facts(1,2) [where seg = "segments hf ! ?n" and b = f and off = "EncryptedFileOffset pid"] lf
    by (simp add: seg_ReadAt_True seg_def)
  moreover have "get_segment hf' pid = Inr seg"
    using assms(1,2) by (simp add: get_segment_def hf'_def has_segment_def)
  ultimately have "ReadPageEncrypted hf' pid b (Some em') = (SetChecksum p, Inr ())"
    using assms(3,4) f dec
    by (simp add: ReadPageEncrypted_def verify_def VerifyChecksum_SetChecksum overwrite_def)
  then show ?thesis using w em'(1) by blast
qed

theorem WritePageEncrypted_rotate_ReadPageEncrypted_witness:
  "\<exists>em hf hf' em' pid. NewEncryptionManager demo_gcm (replicate 32 7) ''v1'' = Inr em \<and> segments hf = [[]]
     \<and> WritePageEncrypted True hf pid (Init 1) (Some em) (Some (replicate 12 5)) = Some (hf', SetChecksum (Init 1), Inr ())
     \<and> rotate_all demo_gcm [replicate 32 8] em = Some (Inr em')
     \<and> ReadPageEncrypted hf' pid (Init 4) (Some em') = (SetChecksum (Init 1), Inr ())"
proof -
  define em where "em = \<lparr>activeDEK = replicate 32 (7::byte), activeVer = 1, oldDEKs = Some Map.empty,
                aeads = Some [1 \<mapsto> demo_gcm (replicate 32 7)], keyID = ''v1'', closed = False\<rparr>"
  have new: "NewEncryptionManager demo_gcm (replicate 32 7) ''v1'' = Inr em"
    by (simp add: NewEncryptionManager_def em_def)
  have ok: "em_ok em" using NewEncryptionManager_ok [OF new] demo_gcm_ok by simp
  define hf where "hf = \<lparr>segments = [[]], hf_closed = False, cachedPageCount = 0, pageCountValid = True, hf_tde = None\<rparr>"
  define pid where "pid = \<lparr>TableID = 3, SegmentNo = 0, PageNo = 1\<rparr>"
  have "\<forall>a \<in> ran (the (aeads em)). seals_with_tag a" by (simp add: em_def demo_gcm_tag)
  then obtain hf' em' where
      "WritePageEncrypted True hf pid (Init 1) (Some em) (Some (replicate 12 5)) = Some (hf', SetChecksum (Init 1), Inr ())"
      "rotate_all demo_gcm [replicate 32 8] em = Some (Inr em')"
      "ReadPageEncrypted hf' pid (Init 4) (Some em') = (SetChecksum (Init 1), Inr ())"
    using WritePageEncrypted_rotate_ReadPageEncrypted [of hf pid "Init 1" "Init 4" em "replicate 12 5"
        "[replicate 32 8]" demo_gcm] ok
    by (auto simp: demo_gcm_ok hf_def has_segment_def pid_def KeyVersion_def em_def)
  moreover have "segments hf = [[]]" by (simp add: hf_def)
  ultimately show ?thesis using new by blast
qed

section \<open>Allocation\<close>

text \<open>
  \<open>seg_layout s segs k\<close>: all segments but the last are full and the last holds \<open>k\<close> pages of \<open>s\<close> bytes.
  \<open>heap_pages\<close> is the number of pages, which the cached count agrees with when it is marked valid.
\<close>

definition seg_layout :: "nat \<Rightarrow> bytes list \<Rightarrow> nat \<Rightarrow> bool" where
  "seg_layout s segs k \<longleftrightarrow> segs \<noteq> [] \<and> (\<forall>x \<in> set (butlast segs). length x = 131072 * s)
     \<and> length (last segs) = k * s \<and> k \<le> 131072"

definition heap_pages :: "HeapFile \<Rightarrow> nat" where
  "heap_pages hf = (\<Sum>seg\<leftarrow>segments hf. length seg div onDiskPageSize hf)"

definition heap_wf :: "HeapFile \<Rightarrow> bool" where
  "heap_wf hf \<longleftrightarrow> heap_open hf \<and> (\<exists>k. seg_layout (onDiskPageSize hf) (segments hf) k)
     \<and> (pageCountValid hf \<longrightarrow> unat (cachedPageCount hf) = heap_pages hf)"

lemma onDiskPageSize_pos [simp]: "0 < onDiskPageSize hf"
  by (simp add: onDiskPageSize_def)

lemma seg_layout_pages:
  assumes "seg_layout s segs k" and "0 < s"
  shows "(\<Sum>seg\<leftarrow>segs. length seg div s) = (length segs - 1) * 131072 + k"
proof -
  obtain init x where segs: "segs = init @ [x]"
    using assms(1) by (metis append_butlast_last_id seg_layout_def)
  have "\<forall>y \<in> set init. length y = 131072 * s" "length x = k * s"
    using assms(1) by (simp_all add: seg_layout_def segs)
  moreover have "map (\<lambda>seg. length seg div s) init = replicate (length init) 131072"
    using calculation(1) assms(2) by (auto intro!: replicate_eqI)
  ultimately show ?thesis using assms(2) by (simp add: segs sum_list_replicate)
qed

lemma heap_pages_layout:
  "seg_layout (onDiskPageSize hf) (segments hf) k \<Longrightarrow> heap_pages hf = (length (segments hf) - 1) * 131072 + k"
  unfolding heap_pages_def by (rule seg_layout_pages [OF _ onDiskPageSize_pos])

lemma pageIDAt_parts:
  assumes "k < 131072" and "n * 131072 + k < 2 ^ 32"
  shows "pageIDAt t (word_of_nat (n * 131072 + k)) = \<lparr>TableID = t, SegmentNo = word_of_nat n, PageNo = word_of_nat k\<rparr>"
proof -
  define w where "w = (word_of_nat (n * 131072 + k) :: u32)"
  have g: "unat w = n * 131072 + k"
    unfolding w_def using assms(2) by (intro unat_of_nat_u32) simp
  have "unat (w div PagesPerSegment) = n" "unat (w mod PagesPerSegment) = k"
    using assms(1) by (simp_all add: unat_div_distrib unat_mod_distrib g PagesPerSegment_def)
  moreover have "n < 65536" using assms(2) by simp
  ultimately have "ucast (w div PagesPerSegment) = (word_of_nat n :: u16)" "w mod PagesPerSegment = word_of_nat k"
    using assms(1)
    by (simp_all add: word_unat_eq_iff unat_of_nat_u16 unat_of_nat_u32 unsigned_ucast_eq take_bit_eq_mod)
  then show ?thesis unfolding w_def [symmetric] by (simp add: pageIDAt_def)
qed

lemma seg_layout_append:
  assumes l: "seg_layout s segs k" and k: "k < 131072" and b: "length b = s" and s: "0 < s"
  shows "seg_layout s (segs[length segs - 1 := seg_put (last segs) b (k * s)]) (k + 1)"
proof -
  obtain init x where segs: "segs = init @ [x]" using l by (metis append_butlast_last_id seg_layout_def)
  have "length x = k * s" using l by (simp add: seg_layout_def segs)
  then have "length (seg_put x b (k * s)) = (k + 1) * s" using b by (simp add: seg_put_facts(1))
  then show ?thesis using l k by (simp add: seg_layout_def segs list_update_append)
qed

lemma put_page_extend:
  assumes open': "heap_open hf" and l: "seg_layout (onDiskPageSize hf) (segments hf) k" and k: "k < 131072"
    and n: "length (segments hf) \<le> 65536" and b: "length b = onDiskPageSize hf"
    and pid: "SegmentNo pid = word_of_nat (length (segments hf) - 1)" "PageNo pid = word_of_nat k"
  shows "heap_wf ((put_page hf pid b)\<lparr>pageCountValid := False\<rparr>)"
    and "heap_pages ((put_page hf pid b)\<lparr>pageCountValid := False\<rparr>) = heap_pages hf + 1"
proof -
  let ?hf = "(put_page hf pid b)\<lparr>pageCountValid := False\<rparr>" and ?s = "onDiskPageSize hf"
  have ne: "segments hf \<noteq> []" using l by (simp add: seg_layout_def)
  have u: "unat (SegmentNo pid) = length (segments hf) - 1" "unat (PageNo pid) = k"
    using n k ne by (simp_all add: pid unat_of_nat_u16 unat_of_nat_u32)
  have s: "onDiskPageSize ?hf = ?s" by (simp add: onDiskPageSize_def put_page_def)
  have "segments ?hf = (segments hf)[length (segments hf) - 1 := seg_put (last (segments hf)) b (k * ?s)]"
    using ne by (simp add: put_page_def u last_conv_nth)
  then have l': "seg_layout ?s (segments ?hf) (k + 1)"
    using seg_layout_append [OF l k b] by simp
  have "heap_open ?hf" using open' by (simp add: heap_open_def put_page_def)
  then show "heap_wf ?hf" using l' s by (auto simp: heap_wf_def)
  have "length (segments ?hf) = length (segments hf)" by simp
  then show "heap_pages ?hf = heap_pages hf + 1"
    using heap_pages_layout [OF l] heap_pages_layout [of ?hf "k + 1"] l' s by simp
qed

text \<open>\<open>grown\<close>: the heap file with an empty segment at the end when its last one is full.\<close>

definition grown :: "HeapFile \<Rightarrow> nat \<Rightarrow> HeapFile" where
  "grown hf k = (if k < 131072 then hf else hf\<lparr>segments := segments hf @ [[]]\<rparr>)"

lemma grown_simps [simp]:
  "hf_closed (grown hf k) = hf_closed hf" "hf_tde (grown hf k) = hf_tde hf"
  "onDiskPageSize (grown hf k) = onDiskPageSize hf" "heap_open (grown hf k) = heap_open hf"
  "stored_form (grown hf k) = stored_form hf"
  by (simp_all add: grown_def onDiskPageSize_def heap_open_def stored_form_def fun_eq_iff)

lemma grown_layout:
  assumes "seg_layout (onDiskPageSize hf) (segments hf) k"
  shows "seg_layout (onDiskPageSize hf) (segments (grown hf k)) (k mod 131072)"
    and "heap_pages (grown hf k) = heap_pages hf"
proof -
  have k: "k \<le> 131072" using assms by (simp add: seg_layout_def)
  have "butlast (segments hf) @ [last (segments hf)] = segments hf"
    using assms by (simp add: seg_layout_def)
  then have "set (segments hf) = set (butlast (segments hf)) \<union> {last (segments hf)}"
    by (metis set_append list.set(1) list.set(2))
  then show "seg_layout (onDiskPageSize hf) (segments (grown hf k)) (k mod 131072)"
    using assms k by (cases "k = 131072") (auto simp: grown_def seg_layout_def)
  show "heap_pages (grown hf k) = heap_pages hf"
    by (simp add: heap_pages_def) (simp add: grown_def)
qed

lemma grown_read:
  assumes "ReadPage hf q b = (r, Inr ())" and "length b = PageSize"
  shows "ReadPage (grown hf k) q b = (r, Inr ())"
proof -
  have "has_segment hf q" using ReadPage_Inr [OF assms] by simp
  then have "get_segment (grown hf k) q = get_segment hf q"
    by (simp add: grown_def get_segment_def has_segment_def nth_append)
  then have "ReadPage (grown hf k) q b = ReadPage hf q b"
    by (simp only: ReadPage_def grown_simps)
  then show ?thesis using assms(1) by simp
qed

lemma AllocatePage_eq:
  assumes op: "heap_open hf" and l: "seg_layout (onDiskPageSize hf) (segments hf) k"
    and n: "length (segments hf) < 65536"
  defines "pid \<equiv> \<lparr>TableID = 0, SegmentNo = word_of_nat (length (segments (grown hf k)) - 1),
      PageNo = word_of_nat (k mod 131072)\<rparr>"
  shows "AllocatePage True True t hf =
    ((put_page (grown hf k) pid (stored_form hf pid (SetChecksum (Init t))))\<lparr>pageCountValid := False\<rparr>,
     Inr (pid, SetChecksum (Init t)))"
proof -
  have ne: "segments hf \<noteq> []" and k: "k \<le> 131072" using l by (simp_all add: seg_layout_def)
  have u: "unat (word_of_nat (length (segments hf) - 1) :: u16) = length (segments hf) - 1"
    using n by (simp add: unat_of_nat_u16)
  have p: "length (segments hf ! (length (segments hf) - 1)) div onDiskPageSize hf = k"
    using l ne by (simp add: seg_layout_def last_conv_nth)
  have uk: "unat (word_of_nat k :: u32) = k" using k by (simp add: unat_of_nat_u32)
  have s1: "(word_of_nat (length (segments hf) - 1) :: u16) + 1 = word_of_nat (length (segments hf))"
    using ne by (cases "segments hf") simp_all
  have s2: "unat (word_of_nat (length (segments hf)) :: u16) = length (segments hf)"
    using n by (simp add: unat_of_nat_u16)
  have ns: "new_segment True (word_of_nat (length (segments hf) - 1)) (word_of_nat k) hf =
      Inr (grown hf k, SegmentNo pid, PageNo pid)"
    using k s1 s2 uk
    by (cases "k = 131072") (simp_all add: new_segment_def PagesPerSegment_def grown_def pid_def word_le_nat_alt)
  have pid: "\<lparr>TableID = 0, SegmentNo = SegmentNo pid, PageNo = PageNo pid\<rparr> = pid" by (simp add: pid_def)
  have "\<not> hf_closed hf" and "\<not> 65535 < length (segments hf) - 1" using op n by (simp_all add: heap_open_def)
  then show ?thesis
    using ne k
    by (cases "hf_tde hf")
       (simp_all add: AllocatePage_def Let_def u p ns put_segment_eq put_page_def stored_form_def pid del: One_nat_def)
qed

text \<open>
  C22: Allocation on a heap file of full segments followed by a partly filled one gives the page whose
  global number (the numbering of \<open>pageIDAt\<close>) is the page count, across the segment boundary too; the count
  grows by one, the layout is kept, the new page reads back as an initialised page, and every page that
  could be read before reads the same after.
\<close>

theorem AllocatePage_appends:
  assumes "heap_wf hf" and "heap_pages hf + 1 < 2 ^ 32"
  shows "\<exists>hf'. let pid = pageIDAt 0 (word_of_nat (heap_pages hf)) in
    AllocatePage True True t hf = (hf', Inr (pid, SetChecksum (Init t)))
    \<and> heap_wf hf' \<and> snd (Heap_PageCount hf') = Inr (word_of_nat (heap_pages hf + 1))
    \<and> (\<forall>b. length b = PageSize \<longrightarrow> ReadPage hf' pid b = (SetChecksum (Init t), Inr ()))
    \<and> (\<forall>q b r. length b = PageSize \<longrightarrow> ReadPage hf q b = (r, Inr ()) \<longrightarrow> ReadPage hf' q b = (r, Inr ()))"
proof -
  let ?s = "onDiskPageSize hf" and ?buf = "SetChecksum (Init t)"
  obtain k where op: "heap_open hf" and l: "seg_layout ?s (segments hf) k"
    using assms(1) by (auto simp: heap_wf_def)
  let ?g = "grown hf k" and ?k = "k mod 131072"
  note gl = grown_layout [OF l]
  have pages: "heap_pages hf = (length (segments hf) - 1) * 131072 + k" using l by (rule heap_pages_layout)
  have gpages: "heap_pages hf = (length (segments ?g) - 1) * 131072 + ?k"
    using heap_pages_layout [of ?g ?k] gl by simp
  have n: "length (segments hf) < 65536" "length (segments ?g) \<le> 65536"
    using assms(2) pages gpages by simp_all
  define pid where "pid = \<lparr>TableID = 0, SegmentNo = word_of_nat (length (segments ?g) - 1), PageNo = word_of_nat ?k\<rparr>"
  define b0 where "b0 = stored_form hf pid ?buf"
  define hf' where "hf' = (put_page ?g pid b0)\<lparr>pageCountValid := False\<rparr>"
  have pid: "pageIDAt 0 (word_of_nat (heap_pages hf)) = pid"
    unfolding gpages pid_def by (rule pageIDAt_parts) (use assms(2) gpages in simp_all)
  have b0: "length b0 = ?s" using op by (simp add: b0_def length_stored_form)
  have alloc: "AllocatePage True True t hf = (hf', Inr (pid, ?buf))"
    using AllocatePage_eq [OF op l n(1)] by (simp add: hf'_def pid_def b0_def)
  have wf: "heap_wf hf'" and pg: "heap_pages hf' = heap_pages hf + 1"
    unfolding hf'_def
    using put_page_extend [of ?g ?k b0 pid] op gl n(2) b0 by (simp_all add: pid_def)
  have cnt: "snd (Heap_PageCount hf') = Inr (word_of_nat (heap_pages hf + 1))"
    using pg assms(2) wf by (auto simp: Heap_PageCount_def hf'_def heap_pages_def Let_def heap_wf_def heap_open_def)
  have rd: "ReadPage hf' q b = ReadPage (put_page ?g pid b0) q b" for q b
    by (simp add: hf'_def ReadPage_def get_segment_def onDiskPageSize_def split: option.splits)
  have "segments ?g \<noteq> []" using gl(1) by (simp add: seg_layout_def)
  then have has: "has_segment ?g pid" using n(2) by (simp add: has_segment_def pid_def unat_of_nat_u16)
  have new: "ReadPage hf' pid b = (?buf, Inr ())" if "length b = PageSize" for b
    using put_page_read [of ?g pid ?buf b] op has that by (simp add: rd b0_def VerifyChecksum_SetChecksum)
  have old: "ReadPage hf' q b = (r, Inr ())" if b: "length b = PageSize" and r: "ReadPage hf q b = (r, Inr ())" for q b r
  proof -
    have g: "ReadPage ?g q b = (r, Inr ())" using grown_read r b by blast
    have "\<not> same_place pid q"
    proof
      assume "same_place pid q"
      then have "disk_range ?g pid"
        using ReadPage_Inr [OF g b] by (simp add: disk_range_def same_place_def)
      then show False
        using gl(1) n(2) \<open>segments ?g \<noteq> []\<close> onDiskPageSize_pos [of hf]
        by (simp add: disk_range_def pid_def unat_of_nat_u16 unat_of_nat_u32 seg_layout_def last_conv_nth)
    qed
    then show ?thesis using put_page_frame [of ?g b0 pid q b r] op b0 g b by (simp add: rd)
  qed
  show ?thesis using alloc wf cnt new old by (auto simp: Let_def pid)
qed

theorem AllocatePage_appends_witness:
  "\<exists>hf hf'. CreateHeapFile True = Inr hf
     \<and> AllocatePage True True 1 hf = (hf', Inr (\<lparr>TableID = 0, SegmentNo = 0, PageNo = 0\<rparr>, SetChecksum (Init 1)))
     \<and> snd (Heap_PageCount hf') = Inr 1 \<and> heap_wf hf'"
proof -
  define hf where "hf = \<lparr>segments = [[]], hf_closed = False, cachedPageCount = 0, pageCountValid = True, hf_tde = None\<rparr>"
  have p: "heap_pages hf = 0" by (simp add: hf_def heap_pages_def)
  have "heap_wf hf" by (auto simp: heap_wf_def heap_open_def seg_layout_def p) (simp_all add: hf_def, force)
  then obtain hf' where
      "AllocatePage True True 1 hf = (hf', Inr (pageIDAt 0 (word_of_nat (heap_pages hf)), SetChecksum (Init 1)))"
      "heap_wf hf'" "snd (Heap_PageCount hf') = Inr (word_of_nat (heap_pages hf + 1))"
    using AllocatePage_appends [of hf 1] p by (auto simp: Let_def)
  moreover have "CreateHeapFile True = Inr hf" by (simp add: CreateHeapFile_def hf_def)
  moreover have "pageIDAt 0 0 = \<lparr>TableID = 0, SegmentNo = 0, PageNo = 0\<rparr>"
    by (simp add: pageIDAt_def PagesPerSegment_def)
  ultimately show ?thesis by (auto simp: p)
qed

section \<open>Opening the segments of a directory\<close>

definition digits_val :: "nat list \<Rightarrow> nat" where
  "digits_val ds = foldl (\<lambda>a d. a * 10 + d) 0 ds"

declare decimal.simps [simp del]

lemma decimal_digits: "\<forall>d \<in> set (decimal n). d < 10"
  by (induction n rule: decimal.induct) (subst decimal.simps, auto)

lemma digits_val_decimal: "digits_val (decimal n) = n"
  by (induction n rule: decimal.induct) (subst decimal.simps, auto simp: digits_val_def)

lemma digits_val_pad4: "digits_val (pad4 ds) = digits_val ds"
proof -
  have "foldl (\<lambda>a d. a * 10 + d) 0 (replicate m 0) = (0 :: nat)" for m by (induction m) simp_all
  then show ?thesis by (simp add: digits_val_def pad4_def)
qed

lemma digit_char_inj: "a < 10 \<Longrightarrow> b < 10 \<Longrightarrow> digit_char a = digit_char b \<longleftrightarrow> a = b"
  by (auto simp: digit_char_def char_of_eq_iff take_bit_eq_mod)

lemma segmentName_inj: "segmentName a = segmentName b \<longleftrightarrow> a = b"
proof
  let ?d = "\<lambda>w :: u16. pad4 (decimal (unat w))"
  assume "segmentName a = segmentName b"
  then have "map digit_char (?d a) = map digit_char (?d b)" by (simp add: segmentName_def)
  moreover have "\<forall>d \<in> set (?d w). d < 10" for w using decimal_digits by (auto simp: pad4_def)
  ultimately have "?d a = ?d b" using digit_char_inj
    by (intro map_inj_on [of digit_char]) (auto simp: inj_on_def)
  then have "unat a = unat b" using digits_val_pad4 digits_val_decimal by metis
  then show "a = b" by (simp add: word_unat_eq_iff)
qed simp

text \<open>\<open>heap_dir\<close>: the directory that holds the given segments under their names, and nothing else.\<close>

definition heap_dir :: "bytes list \<Rightarrow> string \<rightharpoonup> bytes" where
  "heap_dir segs = map_of (zip (map (\<lambda>i. segmentName (word_of_nat i)) [0 ..< length segs]) segs)"

lemma heap_dir_get:
  assumes "length segs \<le> 65536"
  shows "heap_dir segs (segmentName w) = (if unat w < length segs then Some (segs ! unat w) else None)"
proof -
  let ?names = "map (\<lambda>i. segmentName (word_of_nat i)) [0 ..< length segs]"
  have u: "unat (word_of_nat i :: u16) = i" if "i < length segs" for i
    using that assms by (simp add: unat_of_nat_u16)
  have d: "distinct ?names"
    unfolding distinct_map by (auto simp: inj_on_def segmentName_inj word_unat_eq_iff u)
  have n: "?names ! i = segmentName w \<longleftrightarrow> i = unat w" if "i < length segs" for i
    using that by (simp add: segmentName_inj word_unat_eq_iff u)
  show ?thesis
  proof (cases "unat w < length segs")
    case True
    have "map_of (zip ?names segs) (?names ! unat w) = Some (segs ! unat w)"
      using d True by (intro map_of_zip_nth) simp_all
    moreover have "?names ! unat w = segmentName w" using n [OF True] by blast
    ultimately show ?thesis using True by (simp add: heap_dir_def)
  next
    case False
    then have "segmentName w \<notin> set ?names" using n by (fastforce simp: in_set_conv_nth)
    then have "map_of (zip ?names segs) (segmentName w) = None"
      using map_of_zip_is_None [of ?names segs "segmentName w"] by simp
    then show ?thesis using False by (simp add: heap_dir_def)
  qed
qed

lemma open_segments_step:
  assumes "length segs < 65536" and "i < length segs"
  shows "open_segments (\<lambda>_. True) (heap_dir segs) (word_of_nat i) acc =
    open_segments (\<lambda>_. True) (heap_dir segs) (word_of_nat (Suc i)) (acc @ [segs ! i])"
  using assms
  by (subst open_segments.simps) (simp add: heap_dir_get unat_of_nat_u16 add.commute)

lemma open_segments_all:
  assumes "length segs < 65536" and "i \<le> length segs"
  shows "open_segments (\<lambda>_. True) (heap_dir segs) (word_of_nat i) acc = Some (Inr (acc @ drop i segs))"
  using assms(2)
proof (induction "length segs - i" arbitrary: i acc)
  case 0
  then show ?case using assms(1)
    by (subst open_segments.simps) (simp add: heap_dir_get unat_of_nat_u16)
next
  case (Suc n)
  then have "i < length segs" by simp
  then show ?case
    using Suc(1) [of "Suc i" "acc @ [segs ! i]"] Suc(2) open_segments_step [OF assms(1), of i acc]
      Cons_nth_drop_Suc [of i segs] by (simp del: of_nat_Suc)
qed

lemma open_segments_hangs:
  assumes "\<forall>w. files (segmentName w) \<noteq> None"
  shows "open_segments (\<lambda>_. True) files w acc = None"
proof -
  have "c = (\<lambda>_. True) \<longrightarrow> files' = files \<longrightarrow> False" if "open_segments c files' w acc = Some r" for c files' w acc r
    using that
    by (rule open_segments.raw_induct
        [where P = "\<lambda>c files' w acc r. c = (\<lambda>_. True) \<longrightarrow> files' = files \<longrightarrow> False", rotated])
       (use assms in \<open>auto split: option.splits\<close>, metis option.distinct(1), blast)
  then show ?thesis by (cases "open_segments (\<lambda>_. True) files w acc") blast+
qed

text \<open>
  C38: Opening the directory of a heap file gives its segments in order. The loop ends because some
  16-bit number has no file; with all 65536 segments present the counter wraps and it never ends.
\<close>

theorem OpenHeapFile_reopens:
  assumes "segs \<noteq> []" and "length segs \<le> 65536"
  shows "OpenHeapFile (\<lambda>_. True) (heap_dir segs) =
    (if length segs < 65536
     then Some (Inr \<lparr>segments = segs, hf_closed = False, cachedPageCount = 0, pageCountValid = False, hf_tde = None\<rparr>)
     else None)"
proof (cases "length segs < 65536")
  case True
  then show ?thesis
    using assms open_segments_all [OF True, of 0 "[]"] by (simp add: OpenHeapFile_def)
next
  case False
  then have "\<forall>w. heap_dir segs (segmentName w) \<noteq> None"
    using assms(2) unat_u16_less by (auto simp: heap_dir_get)
  then show ?thesis using False open_segments_hangs by (simp add: OpenHeapFile_def)
qed

theorem OpenHeapFile_reopens_witness:
  "OpenHeapFile (\<lambda>_. True) (heap_dir [[1], [2, 3]]) =
     Some (Inr \<lparr>segments = [[1], [2, 3]], hf_closed = False, cachedPageCount = 0, pageCountValid = False, hf_tde = None\<rparr>)"
  using OpenHeapFile_reopens [of "[[1], [2, 3]]"] by simp

section \<open>The interface of the heap files of a database\<close>

text \<open>
  \<open>page_store\<close> is what a cache of pages relies on: a written page is read back as \<open>stamp\<close> leaves it, and
  a write keeps every other page that could be read. \<open>view c h\<close> is the content a client sees of each page
  through a cache \<open>c\<close> over a store \<open>h\<close>, up to \<open>norm\<close>, which forgets what \<open>stamp\<close> changes.
\<close>

locale page_store =
  fixes ok :: "'h \<Rightarrow> bool"
    and rd :: "'h \<Rightarrow> 'k \<Rightarrow> 'p option"
    and wr :: "'h \<Rightarrow> 'k \<Rightarrow> 'p \<Rightarrow> 'h option"
    and valid :: "'p \<Rightarrow> bool"
    and stamp :: "'p \<Rightarrow> 'p"
    and norm :: "'p \<Rightarrow> 'p"
  assumes wr_ok: "ok h \<Longrightarrow> valid p \<Longrightarrow> wr h k p = Some h' \<Longrightarrow> ok h'"
    and rd_wr_same: "ok h \<Longrightarrow> valid p \<Longrightarrow> wr h k p = Some h' \<Longrightarrow> rd h' k = Some (stamp p)"
    and rd_wr_other: "ok h \<Longrightarrow> valid p \<Longrightarrow> wr h k p = Some h' \<Longrightarrow> j \<noteq> k \<Longrightarrow> rd h j = Some q \<Longrightarrow> rd h' j = Some q"
    and norm_stamp: "valid p \<Longrightarrow> norm (stamp p) = norm p"
begin

definition view :: "('k \<rightharpoonup> 'p) \<Rightarrow> 'h \<Rightarrow> 'k \<rightharpoonup> 'p" where
  "view c h k = map_option norm (case c k of Some p \<Rightarrow> Some p | None \<Rightarrow> rd h k)"

lemma view_load: "c k = None \<Longrightarrow> rd h k = Some p \<Longrightarrow> view (c(k \<mapsto> p)) h = view c h"
  by (auto simp: view_def fun_eq_iff)

lemma view_drop: "c k = Some p \<Longrightarrow> rd h k = Some p \<Longrightarrow> view (c(k := None)) h = view c h"
  by (auto simp: view_def fun_eq_iff)

lemma view_restamp: "c k = Some p \<Longrightarrow> norm q = norm p \<Longrightarrow> view (c(k \<mapsto> q)) h = view c h"
  by (auto simp: view_def fun_eq_iff)

lemma view_write_back:
  assumes "ok h" and "valid p" and "c k = Some p" and "wr h k p = Some h'"
  shows "view c h \<subseteq>\<^sub>m view (c(k \<mapsto> stamp p)) h'"
  using assms rd_wr_other [OF assms(1,2,4)]
  by (auto simp: map_le_def view_def norm_stamp split: option.splits)

end

text \<open>
  The heap files of a database as one store: \<open>route\<close> gives the heap file of a table, and tables with
  different numbers have different heap files.
\<close>

definition db_ok :: "(u32 \<Rightarrow> nat) \<Rightarrow> (nat \<Rightarrow> HeapFile) \<Rightarrow> bool" where
  "db_ok route hs \<longleftrightarrow> inj route \<and> (\<forall>h. heap_open (hs h))"

definition db_read :: "(u32 \<Rightarrow> nat) \<Rightarrow> (nat \<Rightarrow> HeapFile) \<Rightarrow> PageID \<Rightarrow> page option" where
  "db_read route hs pid =
     (case ReadPage (hs (route (TableID pid))) pid (replicate PageSize 0) of
        (p, Inr u) \<Rightarrow> Some p | (p, Inl e) \<Rightarrow> None)"

definition db_write :: "bool \<Rightarrow> (u32 \<Rightarrow> nat) \<Rightarrow> (nat \<Rightarrow> HeapFile) \<Rightarrow> PageID \<Rightarrow> page \<Rightarrow> (nat \<Rightarrow> HeapFile) option" where
  "db_write g route hs pid p =
     (case WritePage g (hs (route (TableID pid))) pid p of
        (hf, p', Inr u) \<Rightarrow> Some (hs(route (TableID pid) := hf)) | (hf, p', Inl e) \<Rightarrow> None)"

definition sans_checksum :: "page \<Rightarrow> page" where
  "sans_checksum p = overwrite 8 (le32 0) p"

lemma sans_checksum_SetChecksum: "length p = PageSize \<Longrightarrow> sans_checksum (SetChecksum p) = sans_checksum p"
  by (simp add: sans_checksum_def SetChecksum_def overwrite_overwrite)

lemma db_read_Some: "db_read route hs pid = Some p \<longleftrightarrow>
    ReadPage (hs (route (TableID pid))) pid (replicate PageSize 0) = (p, Inr ())"
  by (auto simp: db_read_def split: prod.splits sum.splits)

lemma WritePage_Inr:
  assumes "heap_open hf" and "length p = PageSize" and "WritePage g hf pid p = (hf', p', Inr ())"
  shows "has_segment hf pid \<and> hf' = put_page hf pid (stored_form hf pid (SetChecksum p)) \<and> p' = SetChecksum p"
proof -
  have s: "has_segment hf pid"
    using assms(3) by (auto simp: WritePage_def get_segment_def has_segment_def split: if_splits)
  have l: "length (stored_form hf pid (SetChecksum p)) = onDiskPageSize hf"
    using assms(1,2) by (simp add: length_stored_form)
  have "g \<or> disk_range hf pid"
    using assms(3) s l
    by (auto simp: WritePage_def get_segment_def put_segment_eq disk_range_def stored_form_def [symmetric]
        Let_def split: if_splits)
  then show ?thesis using WritePage_eq [OF assms(1) s assms(2)] assms(3) s by auto
qed

lemma WritePage_Inl:
  "WritePage g hf pid p = (hf', p', Inl e) \<Longrightarrow> hf' = hf \<and> (p' = p \<or> p' = SetChecksum p)"
  by (auto simp: WritePage_def put_segment_eq Let_def split: sum.splits if_splits prod.splits)

lemma db_write_Some:
  assumes "db_ok route hs" and "length p = PageSize" and "db_write g route hs pid p = Some hs'"
  defines "h \<equiv> route (TableID pid)"
  shows "heap_open (hs h) \<and> has_segment (hs h) pid
    \<and> hs' = hs(h := put_page (hs h) pid (stored_form (hs h) pid (SetChecksum p)))"
proof -
  have o: "heap_open (hs h)" using assms(1) by (simp add: db_ok_def)
  obtain hf p' where w: "WritePage g (hs h) pid p = (hf, p', Inr ())" "hs' = hs(h := hf)"
    using assms(3) by (auto simp: db_write_def h_def split: prod.splits sum.splits)
  show ?thesis using WritePage_Inr [OF o assms(2) w(1)] w(2) o by simp
qed

interpretation db: page_store "db_ok route" "db_read route" "db_write g route" "\<lambda>p. length p = PageSize"
  SetChecksum sans_checksum
  for route g
proof
  fix h h' k p assume a: "db_ok route h" "length p = PageSize" "db_write g route h k p = Some h'"
  let ?h = "route (TableID k)" and ?b = "stored_form (h (route (TableID k))) k (SetChecksum p)"
  note w = db_write_Some [OF a]
  show "db_ok route h'" using w a(1) by (simp add: db_ok_def)
  show "db_read route h' k = Some (SetChecksum p)"
    using w a(2) put_page_read [of "h ?h" k "SetChecksum p"]
    by (simp add: db_read_Some VerifyChecksum_SetChecksum)
  show "db_read route h' j = Some q" if j: "j \<noteq> k" "db_read route h j = Some q" for j q
  proof (cases "TableID j = TableID k")
    case True
    then have "\<not> same_place k j" using j(1) by (auto simp: same_place_def)
    moreover have "length ?b = onDiskPageSize (h ?h)" using w a(2) by (simp add: length_stored_form)
    ultimately show ?thesis
      using put_page_frame [of "h ?h" ?b k j "replicate PageSize 0" q] w j(2) True
      by (simp add: db_read_Some)
  next
    case False
    then have "route (TableID j) \<noteq> ?h" using a(1) by (auto simp: db_ok_def inj_def)
    then show ?thesis using w j(2) by (simp add: db_read_def)
  qed
next
  show "sans_checksum (SetChecksum p) = sans_checksum p" if "length p = PageSize" for p
    using that by (rule sans_checksum_SetChecksum)
qed

end
