(* ===== verification/BufferPool.thy ===== *)
theory BufferPool
  imports Heap Wal_Log
begin

text \<open>
  The buffer pool, \<^verbatim>\<open>server/internal/core/storage/buffer_pool.go\<close>: a clock-sweep cache of pages between the
  page engine and the heap files, with write-back and the WAL-before-data rule.

  A pointer to a heap file is a number; \<open>heaps\<close> gives the heap file it points to. The pointer to a page
  that \<open>FetchPage\<close> returns is the frame that holds it: the caller changes the page in place with
  \<open>store_page\<close>. The outcome of the WAL calls of an operation is an argument (\<open>i\<close>), and so is whether the
  heap file can grow when a given page is written (\<open>grow\<close>). The mutex makes each operation atomic, apart
  from \<open>PrefetchPages\<close>, whose two atomic parts are separate definitions. The background flush is a
  sequence of calls of \<open>FlushAll\<close>; its goroutine and timer are not modelled.
\<close>

unbundle bit_operations_syntax

section \<open>Definitions\<close>

record bufferEntry =
  be_pid :: PageID
  be_page :: page
  be_hf :: "nat option"
  pinCnt :: int
  usageCount :: u8
  imageWritten :: bool
  be_db :: bytes
  be_table :: bytes
  dirty :: bool
  lastModifiedLSN :: u64

record BufferPool =
  bp_capacity :: nat
  bp_cache :: "PageID \<rightharpoonup> nat"
  buffers :: "bufferEntry option list"
  freeSlots :: "nat list"
  clockHand :: nat
  bp_count :: int
  bp_wal :: "WAL option"
  heaps :: "nat \<Rightarrow> HeapFile"

datatype bp_error =
  ErrBpRead heap_error | ErrEvictWALFlush wal_error | ErrAllPinned | ErrBpWrite heap_error | ErrNoEmptySlot
| ErrBpFlush wal_error | ErrPageNotDirty | ErrPagePinned

definition defaultBufferPoolCapacity :: nat where "defaultBufferPoolCapacity = 16384"
definition maxUsageCount :: u8 where "maxUsageCount = 5"

definition NewBufferPool :: "int \<Rightarrow> (nat \<Rightarrow> HeapFile) \<Rightarrow> BufferPool" where
  "NewBufferPool capacity hs =
     (let n = (if capacity \<le> 0 then defaultBufferPoolCapacity else nat capacity)
      in \<lparr>bp_capacity = n, bp_cache = Map.empty, buffers = replicate n None,
          freeSlots = map (\<lambda>i. n - 1 - i) [0 ..< n], clockHand = 0, bp_count = 0, bp_wal = None, heaps = hs\<rparr>)"

definition SetWAL :: "WAL option \<Rightarrow> BufferPool \<Rightarrow> BufferPool" where
  "SetWAL w bp = bp\<lparr>bp_wal := w\<rparr>"

definition Reference :: "bufferEntry \<Rightarrow> bufferEntry" where
  "Reference e = (if usageCount e < maxUsageCount then e\<lparr>usageCount := usageCount e + 1\<rparr> else e)"

text \<open>
  The entry of a cached page, and changing it in place. A frame named by the cache is never empty
  (\<open>frames_ok\<close> below), so \<open>cached_entry\<close> is \<^const>\<open>None\<close> only for a page that is not in the cache.
\<close>

definition set_entry :: "nat \<Rightarrow> bufferEntry \<Rightarrow> BufferPool \<Rightarrow> BufferPool" where
  "set_entry idx e bp = bp\<lparr>buffers := (buffers bp)[idx := Some e]\<rparr>"

definition cached_entry :: "BufferPool \<Rightarrow> PageID \<Rightarrow> (nat \<times> bufferEntry) option" where
  "cached_entry bp pid =
     Option.bind (bp_cache bp pid) (\<lambda>idx. map_option (\<lambda>e. (idx, e)) (buffers bp ! idx))"

definition release :: "nat \<Rightarrow> PageID \<Rightarrow> BufferPool \<Rightarrow> BufferPool" where
  "release idx pid bp =
     bp\<lparr>buffers := (buffers bp)[idx := None], freeSlots := freeSlots bp @ [idx],
        bp_cache := (bp_cache bp)(pid := None), bp_count := bp_count bp - 1\<rparr>"

definition install :: "nat \<Rightarrow> bufferEntry \<Rightarrow> BufferPool \<Rightarrow> BufferPool" where
  "install idx e bp =
     bp\<lparr>buffers := (buffers bp)[idx := Some e], bp_cache := (bp_cache bp)(be_pid e \<mapsto> idx),
        bp_count := bp_count bp + 1\<rparr>"

text \<open>Writing an entry back to its heap file, which also sets the checksum in the cached page.\<close>

definition write_back :: "(PageID \<Rightarrow> bool) \<Rightarrow> nat \<Rightarrow> bufferEntry \<Rightarrow> nat \<Rightarrow> BufferPool \<Rightarrow> BufferPool \<times> bufferEntry \<times> (heap_error + unit)" where
  "write_back grow idx e h bp =
     (case WritePage (grow (be_pid e)) (heaps bp h) (be_pid e) (be_page e) of
        (hf, pg, r) \<Rightarrow>
          (let e = e\<lparr>be_page := pg\<rparr>
           in (set_entry idx e (bp\<lparr>heaps := (heaps bp)(h := hf)\<rparr>), e, r)))"

definition flush_wal :: "io \<Rightarrow> BufferPool \<Rightarrow> BufferPool \<times> (wal_error + unit)" where
  "flush_wal i bp =
     (case bp_wal bp of
        None \<Rightarrow> (bp, Inr ())
      | Some w \<Rightarrow> (case Flush i w of
            (w, Inl e) \<Rightarrow> (bp\<lparr>bp_wal := Some w\<rparr>, Inl e)
          | (w, Inr tx) \<Rightarrow> (bp\<lparr>bp_wal := Some w\<rparr>, Inr ())))"

text \<open>
  \<open>evict\<close>: at most two sweeps of the clock hand. \<open>st\<close> is what is known of the WAL flush of this eviction:
  \<^const>\<open>None\<close> not tried, \<open>Some r\<close> its result (\<^verbatim>\<open>walFlushed\<close> and \<^verbatim>\<open>walErr\<close>).
\<close>

fun evict_loop :: "io \<Rightarrow> (PageID \<Rightarrow> bool) \<Rightarrow> nat \<Rightarrow> (wal_error + unit) option \<Rightarrow> BufferPool \<Rightarrow> BufferPool \<times> (bp_error + unit)" where
  "evict_loop i grow 0 st bp = (bp, Inl (case st of Some (Inl e) \<Rightarrow> ErrEvictWALFlush e | _ \<Rightarrow> ErrAllPinned))"
| "evict_loop i grow (Suc n) st bp =
     (let idx = clockHand bp;
          bp = bp\<lparr>clockHand := (clockHand bp + 1) mod bp_capacity bp\<rparr>
      in case buffers bp ! idx of
           None \<Rightarrow> (bp, Inr ())
         | Some buf \<Rightarrow>
             if pinCnt buf > 0 then evict_loop i grow n st bp
             else if usageCount buf > 0
               then evict_loop i grow n st (set_entry idx (buf\<lparr>usageCount := usageCount buf - 1\<rparr>) bp)
             else (case (if dirty buf then be_hf buf else None) of
                 None \<Rightarrow> (release idx (be_pid buf) bp, Inr ())
               | Some h \<Rightarrow>
                   (let (bp, r) = (case st of Some r \<Rightarrow> (bp, r) | None \<Rightarrow> flush_wal i bp)
                    in case r of
                         Inl e \<Rightarrow> evict_loop i grow n (Some r) bp
                       | Inr u \<Rightarrow>
                           (case write_back grow idx buf h bp of
                              (bp, e, Inl err) \<Rightarrow> (bp, Inl (ErrBpWrite err))
                            | (bp, e, Inr u) \<Rightarrow> (release idx (be_pid buf) bp, Inr ())))))"

definition evict :: "io \<Rightarrow> (PageID \<Rightarrow> bool) \<Rightarrow> BufferPool \<Rightarrow> BufferPool \<times> (bp_error + unit)" where
  "evict i grow bp = evict_loop i grow (bp_capacity bp * 2) None bp"

text \<open>The loop \<^verbatim>\<open>for bp.count >= bp.capacity\<close>; \<^const>\<open>None\<close> when it does not end.\<close>

partial_function (option) make_room :: "io \<Rightarrow> (PageID \<Rightarrow> bool) \<Rightarrow> BufferPool \<Rightarrow> (BufferPool \<times> (bp_error + unit)) option" where
  "make_room i grow bp =
     (if bp_count bp \<ge> int (bp_capacity bp)
      then case evict i grow bp of
             (bp, Inl e) \<Rightarrow> Some (bp, Inl e)
           | (bp, Inr u) \<Rightarrow> make_room i grow bp
      else Some (bp, Inr ()))"

definition findEmptySlot :: "BufferPool \<Rightarrow> BufferPool \<times> (bp_error + nat)" where
  "findEmptySlot bp =
     (if freeSlots bp \<noteq> [] then (bp\<lparr>freeSlots := butlast (freeSlots bp)\<rparr>, Inr (last (freeSlots bp)))
      else case find (\<lambda>i. buffers bp ! i = None) [0 ..< bp_capacity bp] of
             Some i \<Rightarrow> (bp, Inr i)
           | None \<Rightarrow> (bp, Inl ErrNoEmptySlot))"

text \<open>Making room and installing an entry, which \<open>FetchPage\<close>, \<open>CachePage\<close> and \<open>PrefetchPages\<close> share.\<close>

definition insert_entry :: "io \<Rightarrow> (PageID \<Rightarrow> bool) \<Rightarrow> bufferEntry \<Rightarrow> BufferPool \<Rightarrow> (BufferPool \<times> (bp_error + nat)) option" where
  "insert_entry i grow e bp =
     Option.bind (make_room i grow bp) (\<lambda>(bp, r). Some (
       case r of
         Inl err \<Rightarrow> (bp, Inl err)
       | Inr u \<Rightarrow> (case findEmptySlot bp of
             (bp, Inl err) \<Rightarrow> (bp, Inl err)
           | (bp, Inr idx) \<Rightarrow> (install idx e bp, Inr idx))))"

definition new_entry :: "PageID \<Rightarrow> page \<Rightarrow> nat \<Rightarrow> int \<Rightarrow> bool \<Rightarrow> bytes list \<Rightarrow> bufferEntry" where
  "new_entry pid pg h pin d dbTable =
     \<lparr>be_pid = pid, be_page = pg, be_hf = Some h, pinCnt = pin, usageCount = 1, imageWritten = False,
      be_db = (if length dbTable \<ge> 2 then dbTable ! 0 else []),
      be_table = (if length dbTable \<ge> 2 then dbTable ! 1 else []), dirty = d, lastModifiedLSN = 0\<rparr>"

definition FetchPage ::
  "io \<Rightarrow> (PageID \<Rightarrow> bool) \<Rightarrow> PageID \<Rightarrow> nat \<Rightarrow> bytes list \<Rightarrow> BufferPool \<Rightarrow> (BufferPool \<times> (bp_error + nat)) option" where
  "FetchPage i grow pid h dbTable bp =
     (case cached_entry bp pid of
        Some (idx, e) \<Rightarrow> Some (set_entry idx (Reference (e\<lparr>pinCnt := pinCnt e + 1\<rparr>)) bp, Inr idx)
      | None \<Rightarrow>
          (case ReadPage (heaps bp h) pid (replicate PageSize 0) of
             (pg, Inl e) \<Rightarrow> Some (bp, Inl (ErrBpRead e))
           | (pg, Inr u) \<Rightarrow> insert_entry i grow (new_entry pid pg h 1 False dbTable) bp))"

definition CachePage ::
  "io \<Rightarrow> (PageID \<Rightarrow> bool) \<Rightarrow> PageID \<Rightarrow> page \<Rightarrow> nat \<Rightarrow> bytes list \<Rightarrow> BufferPool \<Rightarrow> BufferPool option" where
  "CachePage i grow pid pg h dbTable bp =
     (if bp_cache bp pid \<noteq> None then Some bp
      else map_option fst (insert_entry i grow (new_entry pid pg h 1 True dbTable) bp))"

definition WritePreImage :: "'j JSON \<Rightarrow> io \<Rightarrow> bytes option \<Rightarrow> PageID \<Rightarrow> BufferPool \<Rightarrow> BufferPool option" where
  "WritePreImage js i rnd pid bp =
     (case (cached_entry bp pid, bp_wal bp) of
        (Some (idx, e), Some w) \<Rightarrow>
          if imageWritten e then Some bp
          else map_option (\<lambda>(w, r). (set_entry idx (e\<lparr>imageWritten := True\<rparr>) bp)\<lparr>bp_wal := Some w\<rparr>)
                 (WriteFullPageImage js i rnd 0 (be_db e) (be_table e) (SegmentNo pid) (PageNo pid) (be_page e) w)
      | _ \<Rightarrow> Some bp)"

definition unpin :: "bufferEntry \<Rightarrow> bufferEntry" where
  "unpin e = (if pinCnt e > 0 then e\<lparr>pinCnt := pinCnt e - 1\<rparr> else e)"

definition UnpinPage :: "PageID \<Rightarrow> bool \<Rightarrow> BufferPool \<Rightarrow> BufferPool" where
  "UnpinPage pid d bp =
     (case cached_entry bp pid of
        None \<Rightarrow> bp
      | Some (idx, e) \<Rightarrow> set_entry idx (if d then (unpin e)\<lparr>dirty := True\<rparr> else unpin e) bp)"

definition UnpinPageDirty :: "PageID \<Rightarrow> u64 \<Rightarrow> BufferPool \<Rightarrow> BufferPool" where
  "UnpinPageDirty pid lsn bp =
     (case cached_entry bp pid of
        None \<Rightarrow> bp
      | Some (idx, e) \<Rightarrow> set_entry idx ((unpin e)\<lparr>dirty := True, lastModifiedLSN := lsn\<rparr>) bp)"

definition InvalidatePage :: "PageID \<Rightarrow> BufferPool \<Rightarrow> BufferPool" where
  "InvalidatePage pid bp =
     (case cached_entry bp pid of
        None \<Rightarrow> bp
      | Some (idx, e) \<Rightarrow> if pinCnt e > 0 then bp else release idx pid bp)"

definition cleaned :: "bufferEntry \<Rightarrow> bufferEntry" where
  "cleaned e = e\<lparr>dirty := False, lastModifiedLSN := 0, imageWritten := False\<rparr>"

text \<open>The loop of \<open>FlushAll\<close> and \<open>FlushDirtyPagesUpToLSN\<close>; \<open>sel\<close> is the condition on the entry besides \<open>hf != nil\<close>.\<close>

fun flush_loop :: "(PageID \<Rightarrow> bool) \<Rightarrow> (bufferEntry \<Rightarrow> bool) \<Rightarrow> nat list \<Rightarrow> BufferPool \<Rightarrow> BufferPool \<times> (bp_error + unit)" where
  "flush_loop grow sel [] bp = (bp, Inr ())"
| "flush_loop grow sel (idx # idxs) bp =
     (case buffers bp ! idx of
        None \<Rightarrow> flush_loop grow sel idxs bp
      | Some e \<Rightarrow>
          (case (if sel e then be_hf e else None) of
             None \<Rightarrow> flush_loop grow sel idxs bp
           | Some h \<Rightarrow>
               (case write_back grow idx e h bp of
                  (bp, e, Inl err) \<Rightarrow> (bp, Inl (ErrBpWrite err))
                | (bp, e, Inr u) \<Rightarrow> flush_loop grow sel idxs (set_entry idx (cleaned e) bp))))"

definition FlushAll :: "io \<Rightarrow> (PageID \<Rightarrow> bool) \<Rightarrow> BufferPool \<Rightarrow> BufferPool \<times> (bp_error + unit)" where
  "FlushAll i grow bp =
     (case flush_wal i bp of
        (bp, Inl e) \<Rightarrow> (bp, Inl (ErrBpFlush e))
      | (bp, Inr u) \<Rightarrow> flush_loop grow dirty [0 ..< bp_capacity bp] bp)"

definition FlushDirtyPagesUpToLSN :: "io \<Rightarrow> (PageID \<Rightarrow> bool) \<Rightarrow> u64 \<Rightarrow> BufferPool \<Rightarrow> BufferPool \<times> (bp_error + unit)" where
  "FlushDirtyPagesUpToLSN i grow maxLSN bp =
     (case flush_wal i bp of
        (bp, Inl e) \<Rightarrow> (bp, Inl (ErrBpFlush e))
      | (bp, Inr u) \<Rightarrow> flush_loop grow (\<lambda>e. dirty e \<and> lastModifiedLSN e \<le> maxLSN) [0 ..< bp_capacity bp] bp)"

definition drop_where :: "(bufferEntry \<Rightarrow> bool) \<Rightarrow> nat \<Rightarrow> BufferPool \<Rightarrow> BufferPool" where
  "drop_where sel idx bp =
     (case buffers bp ! idx of
        None \<Rightarrow> bp
      | Some e \<Rightarrow> if sel e then release idx (be_pid e) bp else bp)"

definition InvalidateTable :: "u32 \<Rightarrow> BufferPool \<Rightarrow> BufferPool" where
  "InvalidateTable tableID bp =
     fold (drop_where (\<lambda>e. TableID (be_pid e) = tableID \<and> \<not> pinCnt e > 0)) [0 ..< bp_capacity bp] bp"

definition InvalidateTableForce :: "u32 \<Rightarrow> BufferPool \<Rightarrow> BufferPool" where
  "InvalidateTableForce tableID bp =
     fold (drop_where (\<lambda>e. TableID (be_pid e) = tableID)) [0 ..< bp_capacity bp] bp"

text \<open>\<open>PrefetchPages\<close>: the second part runs under the lock, the disk read before it does not.\<close>

definition prefetch_insert ::
  "io \<Rightarrow> (PageID \<Rightarrow> bool) \<Rightarrow> PageID \<Rightarrow> page \<Rightarrow> nat \<Rightarrow> BufferPool \<Rightarrow> (BufferPool \<times> (bp_error + unit)) option" where
  "prefetch_insert i grow pid pg h bp =
     (if bp_cache bp pid \<noteq> None then Some (bp, Inr ())
      else map_option (\<lambda>(bp, r). (bp, case r of Inl e \<Rightarrow> Inl e | Inr idx \<Rightarrow> Inr ()))
             (insert_entry i grow (new_entry pid pg h 0 False []) bp))"

fun PrefetchPages :: "io \<Rightarrow> (PageID \<Rightarrow> bool) \<Rightarrow> PageID list \<Rightarrow> nat \<Rightarrow> BufferPool \<Rightarrow> BufferPool option" where
  "PrefetchPages i grow [] h bp = Some bp"
| "PrefetchPages i grow (pid # pids) h bp =
     (if bp_cache bp pid \<noteq> None then PrefetchPages i grow pids h bp
      else case ReadPage (heaps bp h) pid (replicate PageSize 0) of
          (pg, Inl e) \<Rightarrow> PrefetchPages i grow pids h bp
        | (pg, Inr u) \<Rightarrow>
            Option.bind (prefetch_insert i grow pid pg h bp) (\<lambda>(bp, r).
              case r of Inl e \<Rightarrow> Some bp | Inr u \<Rightarrow> PrefetchPages i grow pids h bp))"

definition Stats :: "BufferPool \<Rightarrow> nat \<times> int \<times> nat" where
  "Stats bp = (bp_capacity bp, bp_count bp,
     length (filter (\<lambda>b. case b of None \<Rightarrow> False | Some e \<Rightarrow> dirty e) (take (bp_capacity bp) (buffers bp))))"

fun collect :: "int \<Rightarrow> bufferEntry option list \<Rightarrow> (bytes \<times> bytes \<times> PageID) list \<Rightarrow> (bytes \<times> bytes \<times> PageID) list" where
  "collect batch [] ks = ks"
| "collect batch (b # bs) ks =
     (case b of
        None \<Rightarrow> collect batch bs ks
      | Some e \<Rightarrow>
          if dirty e \<and> pinCnt e = 0
          then (let ks = ks @ [(be_db e, be_table e, be_pid e)]
                in if int (length ks) \<ge> batch then ks else collect batch bs ks)
          else collect batch bs ks)"

definition CollectDirtyPages :: "int \<Rightarrow> BufferPool \<Rightarrow> (bytes \<times> bytes \<times> PageID) list" where
  "CollectDirtyPages batch bp = collect batch (take (bp_capacity bp) (buffers bp)) []"

definition FlushPage :: "io \<Rightarrow> (PageID \<Rightarrow> bool) \<Rightarrow> PageID \<Rightarrow> BufferPool \<Rightarrow> BufferPool \<times> (bp_error + unit)" where
  "FlushPage i grow pid bp =
     (case cached_entry bp pid of
        None \<Rightarrow> (bp, Inl ErrPageNotDirty)
      | Some (idx, e) \<Rightarrow>
          if \<not> dirty e then (bp, Inl ErrPageNotDirty)
          else if pinCnt e > 0 then (bp, Inl ErrPagePinned)
          else (case be_hf e of
              None \<Rightarrow> (set_entry idx (cleaned e) bp, Inr ())
            | Some h \<Rightarrow>
                (case flush_wal i bp of
                   (bp, Inl err) \<Rightarrow> (bp, Inl (ErrBpFlush err))
                 | (bp, Inr u) \<Rightarrow>
                     (case write_back grow idx e h bp of
                        (bp, e, Inl err) \<Rightarrow> (bp, Inl (ErrBpWrite err))
                      | (bp, e, Inr u) \<Rightarrow> (set_entry idx (cleaned e) bp, Inr ())))))"

text \<open>A client's store through the page pointer it got from \<open>FetchPage\<close>.\<close>

definition store_page :: "nat \<Rightarrow> (page \<Rightarrow> page) \<Rightarrow> BufferPool \<Rightarrow> BufferPool" where
  "store_page idx f bp =
     (case buffers bp ! idx of None \<Rightarrow> bp | Some e \<Rightarrow> set_entry idx (e\<lparr>be_page := f (be_page e)\<rparr>) bp)"

text \<open>The number of a table (\<^verbatim>\<open>tableIDFromPath\<close> in \<^verbatim>\<open>page_engine_io.go\<close>): the FNV-1a hash of its path.\<close>

definition tableIDFromPath :: "bytes \<Rightarrow> u32" where
  "tableIDFromPath path =
     (let h = fold (\<lambda>b h. (h XOR ucast b) * 16777619) path (2166136261 :: u32) in if h = 0 then 1 else h)"

section \<open>The frames\<close>

text \<open>
  \<open>frames_ok\<close>: the cache names exactly the frames in use, the free list holds exactly the others, and the
  count agrees. \<open>entries\<close> is the map from pages to entries that such a pool stands for.
\<close>

definition frames_ok :: "BufferPool \<Rightarrow> bool" where
  "frames_ok bp \<longleftrightarrow> 0 < bp_capacity bp \<and> length (buffers bp) = bp_capacity bp \<and> clockHand bp < bp_capacity bp
     \<and> (\<forall>pid i. bp_cache bp pid = Some i \<longleftrightarrow> i < bp_capacity bp \<and> (\<exists>e. buffers bp ! i = Some e \<and> be_pid e = pid))
     \<and> distinct (freeSlots bp) \<and> set (freeSlots bp) = {i. i < bp_capacity bp \<and> buffers bp ! i = None}
     \<and> bp_count bp + int (length (freeSlots bp)) = int (bp_capacity bp)"

definition entries :: "BufferPool \<Rightarrow> PageID \<rightharpoonup> bufferEntry" where
  "entries bp pid = map_option snd (cached_entry bp pid)"

lemma frames_cache: "frames_ok bp \<Longrightarrow>
    bp_cache bp pid = Some i \<longleftrightarrow> i < bp_capacity bp \<and> (\<exists>e. buffers bp ! i = Some e \<and> be_pid e = pid)"
  unfolding frames_ok_def by blast

lemma cached_entry_Some:
  "frames_ok bp \<Longrightarrow> cached_entry bp pid = Some (i, e) \<longleftrightarrow> i < bp_capacity bp \<and> buffers bp ! i = Some e \<and> be_pid e = pid"
  using frames_cache [of bp pid i] by (auto simp: cached_entry_def bind_eq_Some_conv)

lemma cached_entry_None: "frames_ok bp \<Longrightarrow> cached_entry bp pid = None \<longleftrightarrow> bp_cache bp pid = None"
  using frames_cache [of bp pid] by (cases "bp_cache bp pid") (auto simp: cached_entry_def)

lemma entries_frame: "frames_ok bp \<Longrightarrow> i < bp_capacity bp \<Longrightarrow> buffers bp ! i = Some e \<Longrightarrow> entries bp (be_pid e) = Some e"
  using cached_entry_Some [of bp "be_pid e" i e] by (simp add: entries_def)

lemma entries_Some: "frames_ok bp \<Longrightarrow> entries bp pid = Some e \<longleftrightarrow> (\<exists>i. cached_entry bp pid = Some (i, e))"
  by (auto simp: entries_def)

lemma entries_None: "frames_ok bp \<Longrightarrow> entries bp pid = None \<longleftrightarrow> bp_cache bp pid = None"
  using cached_entry_None [of bp pid] by (simp add: entries_def)

lemma frames_unique:
  "frames_ok bp \<Longrightarrow> i < bp_capacity bp \<Longrightarrow> j < bp_capacity bp \<Longrightarrow> buffers bp ! i = Some e \<Longrightarrow> buffers bp ! j = Some e' \<Longrightarrow>
     be_pid e = be_pid e' \<Longrightarrow> i = j"
  using frames_cache [of bp "be_pid e" i] frames_cache [of bp "be_pid e" j] by auto

lemma frames_set_entry:
  assumes f: "frames_ok bp" and i: "i < bp_capacity bp" "buffers bp ! i = Some e" and p: "be_pid e' = be_pid e"
  shows "frames_ok (set_entry i e' bp)" and "entries (set_entry i e' bp) = (entries bp)(be_pid e \<mapsto> e')"
    and "cached_entry (set_entry i e' bp) = (cached_entry bp)(be_pid e \<mapsto> (i, e'))"
proof -
  have l: "length (buffers bp) = bp_capacity bp" using f by (simp add: frames_ok_def)
  have set': "buffers (set_entry i e' bp) ! j = (if j = i then Some e' else buffers bp ! j)" if "j < bp_capacity bp" for j
    using that l by (simp add: set_entry_def nth_list_update)
  have "(\<exists>x. buffers (set_entry i e' bp) ! j = Some x \<and> be_pid x = pid) \<longleftrightarrow> (\<exists>x. buffers bp ! j = Some x \<and> be_pid x = pid)"
    if "j < bp_capacity bp" for j pid
    using set' [OF that] i p by auto
  moreover have "buffers (set_entry i e' bp) ! j = None \<longleftrightarrow> buffers bp ! j = None" if "j < bp_capacity bp" for j
    using set' [OF that] i by auto
  ultimately show f': "frames_ok (set_entry i e' bp)"
    using f unfolding frames_ok_def by (auto simp: set_entry_def)
  show c: "cached_entry (set_entry i e' bp) = (cached_entry bp)(be_pid e \<mapsto> (i, e'))"
  proof
    fix pid
    show "cached_entry (set_entry i e' bp) pid = ((cached_entry bp)(be_pid e \<mapsto> (i, e'))) pid"
    proof (cases "bp_cache bp pid")
      case None
      then have "pid \<noteq> be_pid e" using frames_cache [OF f, of "be_pid e" i] i by auto
      then show ?thesis using None by (simp add: cached_entry_def set_entry_def)
    next
      case (Some j)
      then have j: "j < bp_capacity bp" "\<exists>x. buffers bp ! j = Some x \<and> be_pid x = pid"
        using frames_cache [OF f] by auto
      then show ?thesis
        using Some i l frames_cache [OF f, of "be_pid e" i]
        by (auto simp: cached_entry_def set_entry_def nth_list_update)
    qed
  qed
  show "entries (set_entry i e' bp) = (entries bp)(be_pid e \<mapsto> e')"
    by (simp add: entries_def c fun_eq_iff)
qed

lemma frames_release:
  assumes f: "frames_ok bp" and i: "i < bp_capacity bp" "buffers bp ! i = Some e"
  shows "frames_ok (release i (be_pid e) bp)" and "cached_entry (release i (be_pid e) bp) = (cached_entry bp)(be_pid e := None)"
    and "entries (release i (be_pid e) bp) = (entries bp)(be_pid e := None)"
proof -
  let ?bp = "release i (be_pid e) bp"
  have l: "length (buffers bp) = bp_capacity bp" using f by (simp add: frames_ok_def)
  have set': "buffers ?bp ! j = (if j = i then None else buffers bp ! j)" if "j < bp_capacity bp" for j
    using that l by (simp add: release_def nth_list_update)
  have "bp_cache ?bp pid = Some j \<longleftrightarrow> j < bp_capacity bp \<and> (\<exists>x. buffers ?bp ! j = Some x \<and> be_pid x = pid)" for pid j
    using frames_cache [OF f, of pid j] frames_cache [OF f, of pid i] set' [of j] i
    by (cases "pid = be_pid e"; auto simp: release_def split: if_splits dest: frames_unique [OF f i(1) _ i(2)]; metis)
  moreover have "set (freeSlots ?bp) = {j. j < bp_capacity bp \<and> buffers ?bp ! j = None}"
    using f i set' by (auto simp: frames_ok_def release_def)
  moreover have "distinct (freeSlots ?bp)" using f i by (auto simp: frames_ok_def release_def)
  ultimately show "frames_ok ?bp"
    using f unfolding frames_ok_def by (auto simp: release_def)
  show c: "cached_entry ?bp = (cached_entry bp)(be_pid e := None)"
  proof
    fix pid
    show "cached_entry ?bp pid = ((cached_entry bp)(be_pid e := None)) pid"
      using frames_cache [OF f, of pid i] i l
      by (cases "bp_cache bp pid = Some i")
         (auto simp: cached_entry_def release_def nth_list_update split: Option.bind_splits)
  qed
  show "entries ?bp = (entries bp)(be_pid e := None)" by (simp add: entries_def c fun_eq_iff)
qed

lemma findEmptySlot_ok:
  assumes f: "frames_ok bp" and c: "bp_count bp < int (bp_capacity bp)"
  shows "\<exists>i. findEmptySlot bp = (bp\<lparr>freeSlots := butlast (freeSlots bp)\<rparr>, Inr i) \<and> freeSlots bp \<noteq> [] \<and> i = last (freeSlots bp)
    \<and> i < bp_capacity bp \<and> buffers bp ! i = None"
proof -
  have "freeSlots bp \<noteq> []" using f c by (auto simp: frames_ok_def)
  then show ?thesis using f by (auto simp: findEmptySlot_def frames_ok_def dest: last_in_set)
qed

lemma frames_install:
  assumes f: "frames_ok bp" and i: "freeSlots bp \<noteq> []" "i = last (freeSlots bp)" and c: "bp_cache bp (be_pid e) = None"
  defines "bp' \<equiv> install i e (bp\<lparr>freeSlots := butlast (freeSlots bp)\<rparr>)"
  shows "frames_ok bp'" and "cached_entry bp' = (cached_entry bp)(be_pid e \<mapsto> (i, e))"
    and "entries bp' = (entries bp)(be_pid e \<mapsto> e)"
proof -
  have l: "length (buffers bp) = bp_capacity bp" using f by (simp add: frames_ok_def)
  obtain fs where fs: "freeSlots bp = fs @ [i]" using i by (metis append_butlast_last_id)
  have ib: "i < bp_capacity bp" "buffers bp ! i = None" using f fs by (auto simp: frames_ok_def)
  have set': "buffers bp' ! j = (if j = i then Some e else buffers bp ! j)" if "j < bp_capacity bp" for j
    using that l by (simp add: bp'_def install_def nth_list_update)
  have "bp_cache bp' pid = Some j \<longleftrightarrow> j < bp_capacity bp \<and> (\<exists>x. buffers bp' ! j = Some x \<and> be_pid x = pid)" for pid j
    using frames_cache [OF f, of pid j] frames_cache [OF f, of pid i] set' [of j] set' [of i] ib c
    by (cases "pid = be_pid e"; auto simp: bp'_def install_def split: if_splits; metis)
  moreover have "set (freeSlots bp') = {j. j < bp_capacity bp \<and> buffers bp' ! j = None}"
  proof -
    have "i \<notin> set fs" "insert i (set fs) = {j. j < bp_capacity bp \<and> buffers bp ! j = None}"
      using f fs by (simp_all add: frames_ok_def)
    then have "set fs = {j. j < bp_capacity bp \<and> buffers bp ! j = None} - {i}" by blast
    also have "\<dots> = {j. j < bp_capacity bp \<and> buffers bp' ! j = None}" using set' by (auto split: if_splits)
    finally show ?thesis using fs by (simp add: bp'_def install_def)
  qed
  moreover have "distinct (freeSlots bp')" "bp_count bp' + int (length (freeSlots bp')) = int (bp_capacity bp)"
    using f fs by (auto simp: frames_ok_def bp'_def install_def)
  moreover have "bp_capacity bp' = bp_capacity bp" "length (buffers bp') = bp_capacity bp" "clockHand bp' = clockHand bp"
    using l by (simp_all add: bp'_def install_def)
  ultimately show "frames_ok bp'"
    using f by (simp add: frames_ok_def)
  show c: "cached_entry bp' = (cached_entry bp)(be_pid e \<mapsto> (i, e))"
  proof
    fix pid
    show "cached_entry bp' pid = ((cached_entry bp)(be_pid e \<mapsto> (i, e))) pid"
      using frames_cache [OF f, of pid i] l ib
      by (auto simp: cached_entry_def bp'_def install_def nth_list_update split: Option.bind_splits)
  qed
  show "entries bp' = (entries bp)(be_pid e \<mapsto> e)" by (simp add: entries_def c fun_eq_iff)
qed

section \<open>Coherence with the heap files\<close>

text \<open>
  \<open>touched\<close> is the set of pages that a client has changed through its pointer since it last reported the
  page dirty. A page that is neither dirty nor touched has the content of its heap file; a touched page is
  pinned.
\<close>

definition entry_ok :: "(u32 \<Rightarrow> nat) \<Rightarrow> PageID set \<Rightarrow> (nat \<Rightarrow> HeapFile) \<Rightarrow> PageID \<Rightarrow> bufferEntry \<Rightarrow> bool" where
  "entry_ok route touched hs pid e \<longleftrightarrow> be_hf e = Some (route (TableID pid)) \<and> length (be_page e) = PageSize
     \<and> 0 \<le> pinCnt e \<and> usageCount e \<le> maxUsageCount
     \<and> (\<not> dirty e \<and> pid \<notin> touched \<longrightarrow> db_read route hs pid = Some (be_page e))
     \<and> (pid \<in> touched \<longrightarrow> 0 < pinCnt e)"

definition bp_wf :: "(u32 \<Rightarrow> nat) \<Rightarrow> PageID set \<Rightarrow> BufferPool \<Rightarrow> bool" where
  "bp_wf route touched bp \<longleftrightarrow> frames_ok bp \<and> db_ok route (heaps bp) \<and> touched \<subseteq> dom (entries bp)
     \<and> (\<forall>pid e. entries bp pid = Some e \<longrightarrow> entry_ok route touched (heaps bp) pid e)"

definition cache_pages :: "BufferPool \<Rightarrow> PageID \<rightharpoonup> page" where
  "cache_pages bp pid = map_option be_page (entries bp pid)"

text \<open>\<open>bp_view\<close>: the content of each page for the clients of the pool, up to the checksum field.\<close>

definition bp_view :: "(u32 \<Rightarrow> nat) \<Rightarrow> BufferPool \<Rightarrow> PageID \<rightharpoonup> page" where
  "bp_view route bp = page_store.view (db_read route) sans_checksum (cache_pages bp) (heaps bp)"

text \<open>\<open>keeps\<close>: a step of the pool that no client can notice.\<close>

definition pinned_kept :: "BufferPool \<Rightarrow> BufferPool \<Rightarrow> bool" where
  "pinned_kept bp bp' \<longleftrightarrow> (\<forall>pid i e. cached_entry bp pid = Some (i, e) \<and> 0 < pinCnt e \<longrightarrow>
     (\<exists>e'. cached_entry bp' pid = Some (i, e') \<and> pinCnt e' = pinCnt e))"

definition keeps :: "(u32 \<Rightarrow> nat) \<Rightarrow> PageID set \<Rightarrow> BufferPool \<Rightarrow> BufferPool \<Rightarrow> bool" where
  "keeps route touched bp bp' \<longleftrightarrow> bp_wf route touched bp' \<and> bp_view route bp \<subseteq>\<^sub>m bp_view route bp'
     \<and> pinned_kept bp bp' \<and> bp_capacity bp' = bp_capacity bp"

lemma keeps_refl [simp]: "keeps route touched bp bp \<longleftrightarrow> bp_wf route touched bp"
  by (auto simp: keeps_def pinned_kept_def)

lemma keeps_trans: "keeps route touched a b \<Longrightarrow> keeps route touched b c \<Longrightarrow> keeps route touched a c"
  unfolding keeps_def pinned_kept_def by (metis map_le_trans)

lemma keeps_wf: "keeps route touched bp bp' \<Longrightarrow> bp_wf route touched bp'"
  by (simp add: keeps_def)

lemma bp_wf_frames: "bp_wf route touched bp \<Longrightarrow> frames_ok bp"
  by (simp add: bp_wf_def)

lemma bp_wf_entry:
  assumes "bp_wf route touched bp" and "i < bp_capacity bp" and "buffers bp ! i = Some e"
  shows "entries bp (be_pid e) = Some e" and "entry_ok route touched (heaps bp) (be_pid e) e"
  using assms entries_frame [of bp i e] by (auto simp: bp_wf_def)

lemma cached_simps [simp]:
  "cached_entry (bp\<lparr>clockHand := c\<rparr>) = cached_entry bp" "cached_entry (bp\<lparr>bp_wal := w\<rparr>) = cached_entry bp"
  "cached_entry (bp\<lparr>heaps := hs\<rparr>) = cached_entry bp"
  "entries (bp\<lparr>clockHand := c\<rparr>) = entries bp" "entries (bp\<lparr>bp_wal := w\<rparr>) = entries bp"
  "entries (bp\<lparr>heaps := hs\<rparr>) = entries bp"
  "cache_pages (bp\<lparr>clockHand := c\<rparr>) = cache_pages bp" "cache_pages (bp\<lparr>bp_wal := w\<rparr>) = cache_pages bp"
  "frames_ok (bp\<lparr>bp_wal := w\<rparr>) = frames_ok bp" "frames_ok (bp\<lparr>heaps := hs\<rparr>) = frames_ok bp"
  by (simp_all add: cached_entry_def entries_def frames_ok_def cache_pages_def fun_eq_iff)

lemma set_entry_simps [simp]:
  "heaps (set_entry i e bp) = heaps bp" "bp_wal (set_entry i e bp) = bp_wal bp"
  "bp_capacity (set_entry i e bp) = bp_capacity bp" "clockHand (set_entry i e bp) = clockHand bp"
  "bp_count (set_entry i e bp) = bp_count bp" "freeSlots (set_entry i e bp) = freeSlots bp"
  "bp_cache (set_entry i e bp) = bp_cache bp"
  by (simp_all add: set_entry_def)

lemma release_simps [simp]:
  "heaps (release i p bp) = heaps bp" "bp_wal (release i p bp) = bp_wal bp"
  "bp_capacity (release i p bp) = bp_capacity bp" "bp_count (release i p bp) = bp_count bp - 1"
  by (simp_all add: release_def)

lemma keeps_clock: "bp_wf route touched bp \<Longrightarrow> c < bp_capacity bp \<Longrightarrow> keeps route touched bp (bp\<lparr>clockHand := c\<rparr>)"
  by (simp add: keeps_def bp_wf_def bp_view_def pinned_kept_def)
     (simp add: frames_ok_def)

lemma keeps_wal: "bp_wf route touched bp \<Longrightarrow> keeps route touched bp (bp\<lparr>bp_wal := w\<rparr>)"
  by (simp add: keeps_def bp_wf_def bp_view_def pinned_kept_def)

lemma cache_pages_set_entry:
  "frames_ok bp \<Longrightarrow> i < bp_capacity bp \<Longrightarrow> buffers bp ! i = Some e \<Longrightarrow> be_pid e' = be_pid e \<Longrightarrow>
     cache_pages (set_entry i e' bp) = (cache_pages bp)(be_pid e \<mapsto> be_page e')"
  by (simp add: cache_pages_def fun_eq_iff frames_set_entry(2))

lemma keeps_set_entry:
  assumes wf: "bp_wf route touched bp" and i: "i < bp_capacity bp" "buffers bp ! i = Some e"
    and e': "be_pid e' = be_pid e" "be_hf e' = be_hf e" "pinCnt e' = pinCnt e" "usageCount e' \<le> maxUsageCount"
      "length (be_page e') = PageSize" "sans_checksum (be_page e') = sans_checksum (be_page e)"
    and d: "dirty e' \<or> be_pid e \<in> touched \<or> db_read route (heaps bp) (be_pid e) = Some (be_page e')"
  shows "keeps route touched bp (set_entry i e' bp)"
proof -
  note f = bp_wf_frames [OF wf] and ent = bp_wf_entry [OF wf i]
  note s = frames_set_entry [OF f i e'(1)]
  have c: "cache_pages bp (be_pid e) = Some (be_page e)" using ent by (simp add: cache_pages_def)
  have "bp_view route (set_entry i e' bp) = bp_view route bp"
    unfolding bp_view_def cache_pages_set_entry [OF f i e'(1)]
    using db.view_restamp [where c = "cache_pages bp" and k = "be_pid e", OF c e'(6)] by simp
  moreover have "entry_ok route touched (heaps bp) (be_pid e) e'"
    using ent(2) e' d by (auto simp: entry_ok_def)
  then have "bp_wf route touched (set_entry i e' bp)"
    using wf s ent(1) unfolding bp_wf_def by auto
  moreover have "pinned_kept bp (set_entry i e' bp)"
    using cached_entry_Some [OF f, of "be_pid e" i e] i e' by (auto simp: pinned_kept_def s(3))
  ultimately show ?thesis by (simp add: keeps_def)
qed

lemma keeps_release:
  assumes wf: "bp_wf route touched bp" and i: "i < bp_capacity bp" "buffers bp ! i = Some e"
    and p: "\<not> 0 < pinCnt e" and d: "db_read route (heaps bp) (be_pid e) = Some (be_page e)"
  shows "keeps route touched bp (release i (be_pid e) bp)"
proof -
  note f = bp_wf_frames [OF wf] and ent = bp_wf_entry [OF wf i]
  note s = frames_release [OF f i]
  have c: "cache_pages bp (be_pid e) = Some (be_page e)" using ent by (simp add: cache_pages_def)
  have "cache_pages (release i (be_pid e) bp) = (cache_pages bp)(be_pid e := None)"
    by (simp add: cache_pages_def s(3) fun_eq_iff)
  then have "bp_view route (release i (be_pid e) bp) = bp_view route bp"
    unfolding bp_view_def using db.view_drop [where c = "cache_pages bp" and k = "be_pid e", OF c d] by simp
  moreover have "be_pid e \<notin> touched" using ent(2) p by (auto simp: entry_ok_def)
  then have "bp_wf route touched (release i (be_pid e) bp)"
    using wf s(1,3) unfolding bp_wf_def by auto
  moreover have "pinned_kept bp (release i (be_pid e) bp)"
    using cached_entry_Some [OF f, of "be_pid e" i e] i p by (auto simp: pinned_kept_def s(2))
  ultimately show ?thesis by (simp add: keeps_def)
qed

lemma keeps_db_write:
  assumes wf: "bp_wf route touched bp" and i: "i < bp_capacity bp" "buffers bp ! i = Some e"
    and w: "db_write g route (heaps bp) (be_pid e) (be_page e) = Some hs"
  shows "keeps route touched bp (set_entry i (e\<lparr>be_page := SetChecksum (be_page e)\<rparr>) (bp\<lparr>heaps := hs\<rparr>))"
    and "db_read route hs (be_pid e) = Some (SetChecksum (be_page e))"
proof -
  let ?e = "e\<lparr>be_page := SetChecksum (be_page e)\<rparr>" and ?bp = "bp\<lparr>heaps := hs\<rparr>"
  note f = bp_wf_frames [OF wf] and ent = bp_wf_entry [OF wf i]
  have f': "frames_ok ?bp" "i < bp_capacity ?bp" "buffers ?bp ! i = Some e" using f i by simp_all
  have s: "frames_ok (set_entry i ?e ?bp)" "entries (set_entry i ?e ?bp) = (entries bp)(be_pid e \<mapsto> ?e)"
      "cached_entry (set_entry i ?e ?bp) = (cached_entry bp)(be_pid e \<mapsto> (i, ?e))"
    using frames_set_entry [OF f', of ?e] by simp_all
  have ok: "db_ok route (heaps bp)" and l: "length (be_page e) = PageSize"
    using wf ent(2) by (simp_all add: bp_wf_def entry_ok_def)
  note rd = db.rd_wr_same [OF ok l w] and rd' = db.rd_wr_other [OF ok l w]
  show "db_read route hs (be_pid e) = Some (SetChecksum (be_page e))" by (rule rd)
  have c: "cache_pages bp (be_pid e) = Some (be_page e)" using ent by (simp add: cache_pages_def)
  have "cache_pages (set_entry i ?e ?bp) = (cache_pages bp)(be_pid e \<mapsto> SetChecksum (be_page e))"
    by (simp add: cache_pages_def s(2) fun_eq_iff)
  then have "bp_view route bp \<subseteq>\<^sub>m bp_view route (set_entry i ?e ?bp)"
    unfolding bp_view_def using db.view_write_back [where c = "cache_pages bp" and k = "be_pid e", OF ok l c w] by simp
  moreover have "entry_ok route touched hs (be_pid e) ?e" using ent(2) rd by (auto simp: entry_ok_def)
  moreover have "entry_ok route touched hs pid x" if "entry_ok route touched (heaps bp) pid x" "pid \<noteq> be_pid e" for pid x
    using that rd' by (auto simp: entry_ok_def)
  ultimately have "bp_view route bp \<subseteq>\<^sub>m bp_view route (set_entry i ?e ?bp)" "bp_wf route touched (set_entry i ?e ?bp)"
    using wf s ent(1) db.wr_ok [OF ok l w] unfolding bp_wf_def by auto
  moreover have "pinned_kept bp (set_entry i ?e ?bp)"
    using cached_entry_Some [OF f, of "be_pid e" i e] i by (auto simp: pinned_kept_def s(3))
  ultimately show "keeps route touched bp (set_entry i ?e ?bp)" by (simp add: keeps_def)
qed

lemma overwrite_window: "i + n \<le> length p \<Longrightarrow> overwrite i (window i n p) p = p"
  by (simp add: overwrite_def window_def) (metis add.commute append_take_drop_id drop_drop)

lemma SetChecksum_verified:
  assumes "length p = PageSize" and "VerifyChecksum p"
  shows "SetChecksum p = p"
proof -
  have "le32 (ComputeChecksum p) = window 8 4 p"
    using assms le32_get32 [of "window 8 4 p"]
    by (simp add: VerifyChecksum_def get32_def window_def)
  then show ?thesis using assms(1) by (simp add: SetChecksum_def overwrite_window)
qed

lemma ReadPage_verified:
  assumes "ReadPage hf pid b = (p, Inr ())" and "length b = PageSize"
  shows "VerifyChecksum p"
proof -
  have "decode hf pid b (disk_bytes hf pid) = (p, Inr ())"
    using ReadPage_Inr [OF assms] ReadPage_in_range [of hf pid b] assms by simp
  then show ?thesis by (auto simp: decode_def verify_def split: option.splits sum.splits if_splits)
qed

text \<open>The two outcomes of writing an entry back.\<close>

lemma write_back_cases:
  assumes wf: "bp_wf route touched bp" and i: "i < bp_capacity bp" "buffers bp ! i = Some e" and h: "be_hf e = Some h"
    and w: "write_back grow i e h bp = (bp', e', r)"
  shows "keeps route touched bp bp' \<and> buffers bp' ! i = Some e' \<and> be_pid e' = be_pid e \<and> be_hf e' = be_hf e
    \<and> pinCnt e' = pinCnt e \<and> usageCount e' = usageCount e \<and> length (be_page e') = PageSize
    \<and> bp_wal bp' = bp_wal bp \<and> bp_count bp' = bp_count bp \<and> clockHand bp' = clockHand bp
    \<and> dom (entries bp') = dom (entries bp)
    \<and> (r = Inr () \<longrightarrow> db_read route (heaps bp') (be_pid e) = Some (be_page e'))"
proof -
  note ent = bp_wf_entry [OF wf i]
  have hr: "h = route (TableID (be_pid e))" and l: "length (be_page e) = PageSize"
    using ent(2) h by (simp_all add: entry_ok_def)
  have lb: "i < length (buffers bp)" using i(1) bp_wf_frames [OF wf] by (simp add: frames_ok_def)
  obtain hf p where wp: "WritePage (grow (be_pid e)) (heaps bp h) (be_pid e) (be_page e) = (hf, p, r)"
    by (cases "WritePage (grow (be_pid e)) (heaps bp h) (be_pid e) (be_page e)")
       (use w in \<open>auto simp: write_back_def Let_def\<close>)
  have eq: "bp' = set_entry i (e\<lparr>be_page := p\<rparr>) (bp\<lparr>heaps := (heaps bp)(h := hf)\<rparr>)" "e' = e\<lparr>be_page := p\<rparr>"
    using w wp by (auto simp: write_back_def Let_def)
  have b: "buffers bp' ! i = Some e'" using lb by (simp add: eq set_entry_def)
  have "entries bp' = (entries bp)(be_pid e \<mapsto> e')"
    using frames_set_entry(2) [of "bp\<lparr>heaps := (heaps bp)(h := hf)\<rparr>" i e e'] bp_wf_frames [OF wf] i
    by (simp add: eq)
  then have dom: "dom (entries bp') = dom (entries bp)" using ent(1) by auto
  show ?thesis
  proof (cases r)
    case (Inr u)
    have o: "heap_open (heaps bp h)" using wf by (simp add: bp_wf_def db_ok_def)
    have p: "p = SetChecksum (be_page e)" using WritePage_Inr [OF o l] wp Inr by simp
    have dw: "db_write (grow (be_pid e)) route (heaps bp) (be_pid e) (be_page e) = Some ((heaps bp)(h := hf))"
      using wp Inr by (simp add: db_write_def hr)
    show ?thesis using keeps_db_write [OF wf i dw] b l Inr dom by (simp add: eq p)
  next
    case (Inl err)
    then have p: "hf = heaps bp h" "p = be_page e \<or> p = SetChecksum (be_page e)" using WritePage_Inl wp by blast+
    then have bp': "bp' = set_entry i e' bp" by (simp add: eq)
    have "dirty e' = dirty e" by (simp add: eq)
    have pg: "length p = PageSize" "sans_checksum p = sans_checksum (be_page e)"
      using p(2) l sans_checksum_SetChecksum by auto
    show ?thesis
    proof (cases "dirty e \<or> be_pid e \<in> touched \<or> p = be_page e")
      case True
      then have "dirty e' \<or> be_pid e \<in> touched \<or> db_read route (heaps bp) (be_pid e) = Some (be_page e')"
        using ent(2) by (auto simp: eq entry_ok_def)
      then have "keeps route touched bp (set_entry i e' bp)"
        using ent(2) pg by (intro keeps_set_entry [OF wf i]) (simp_all add: eq entry_ok_def)
      then show ?thesis using b Inl pg dom by (simp add: bp' eq(2))
    next
      case False
      then have "VerifyChecksum (be_page e)" using ent(2)
        by (auto simp: entry_ok_def db_read_Some intro: ReadPage_verified)
      then have "p = be_page e" using p(2) l SetChecksum_verified by auto
      then show ?thesis using False by simp
    qed
  qed
qed

section \<open>Eviction and flushing\<close>

text \<open>\<open>wal_durable\<close>: everything written to the log has been synced.\<close>

definition wal_durable :: "BufferPool \<Rightarrow> bool" where
  "wal_durable bp \<longleftrightarrow> (\<forall>w f. bp_wal bp = Some w \<and> wal_file w = Some f \<longrightarrow> stable f = length (content f))"

text \<open>
  \<open>wal_rule\<close> is WAL-before-data: if a step wrote to a heap file then the whole log is durable after it, and
  a log that was durable stays so.
\<close>

definition wal_rule :: "BufferPool \<Rightarrow> BufferPool \<Rightarrow> bool" where
  "wal_rule bp bp' \<longleftrightarrow> (heaps bp' \<noteq> heaps bp \<or> wal_durable bp \<longrightarrow> wal_durable bp')"

lemma wal_rule_trans: "wal_rule a b \<Longrightarrow> wal_rule b c \<Longrightarrow> wal_rule a c"
  by (auto simp: wal_rule_def)

lemma wal_rule_same: "heaps bp' = heaps bp \<Longrightarrow> bp_wal bp' = bp_wal bp \<Longrightarrow> wal_rule bp bp'"
  by (simp add: wal_rule_def wal_durable_def)

lemma wal_rule_durable: "wal_durable bp' \<Longrightarrow> wal_rule bp bp'"
  by (simp add: wal_rule_def)

lemma wal_rule_refl [simp]: "wal_rule bp bp"
  by (simp add: wal_rule_def)

lemma Flush_durable: "Flush i w = (w', Inr tx) \<Longrightarrow> wal_file w' = Some f \<Longrightarrow> stable f = length (content f)"
  by (auto simp: Flush_def syncLocked_def fsync_def advanceSynced_def file_sync_def
      split: if_splits prod.splits sum.splits)

lemma Flush_keeps_durable:
  "Flush i w = (w', r) \<Longrightarrow> wal_file w = Some f \<Longrightarrow> stable f = length (content f) \<Longrightarrow>
     wal_file w' = Some f' \<Longrightarrow> stable f' = length (content f')"
  by (auto simp: Flush_def syncLocked_def fsync_def advanceSynced_def file_sync_def
      split: if_splits prod.splits sum.splits)

lemma flush_wal_form:
  assumes "flush_wal i bp = (bp', r)"
  shows "\<exists>w. bp' = bp\<lparr>bp_wal := w\<rparr> \<and> (r = Inr () \<longrightarrow> wal_durable bp') \<and> wal_rule bp bp'"
proof (cases "bp_wal bp")
  case None
  then show ?thesis using assms by (auto simp: flush_wal_def wal_durable_def intro: exI [of _ None])
next
  case (Some w)
  obtain w' r' where f: "Flush i w = (w', r')" by fastforce
  then have bp': "bp' = bp\<lparr>bp_wal := Some w'\<rparr>" "r = Inr () \<longleftrightarrow> (\<exists>tx. r' = Inr tx)"
    using assms Some by (auto simp: flush_wal_def split: sum.splits)
  have "wal_durable bp'" if "\<exists>tx. r' = Inr tx" using f that Flush_durable by (auto simp: bp' wal_durable_def)
  moreover have "wal_durable bp'" if "wal_durable bp"
  proof -
    have "stable f' = length (content f')" if f': "wal_file w' = Some f'" for f'
    proof (cases "wal_file w")
      case None
      then show ?thesis using f f' by (simp add: Flush_def)
    next
      case (Some f0)
      then show ?thesis using Flush_keeps_durable [OF f Some _ f'] \<open>wal_durable bp\<close> \<open>bp_wal bp = Some w\<close>
        by (simp add: wal_durable_def)
    qed
    then show ?thesis by (simp add: bp' wal_durable_def)
  qed
  ultimately show ?thesis using bp' by (auto simp: wal_rule_def)
qed

definition evict_post :: "(u32 \<Rightarrow> nat) \<Rightarrow> PageID set \<Rightarrow> BufferPool \<Rightarrow> BufferPool \<times> (bp_error + unit) \<Rightarrow> bool" where
  "evict_post route touched bp res \<longleftrightarrow> keeps route touched bp (fst res)
     \<and> (snd res = Inr () \<longrightarrow> freeSlots bp = [] \<longrightarrow> bp_count (fst res) = bp_count bp - 1)
     \<and> wal_rule bp (fst res) \<and> dom (entries (fst res)) \<subseteq> dom (entries bp)"

lemma evict_post_trans:
  "keeps route touched bp bp1 \<Longrightarrow> freeSlots bp1 = freeSlots bp \<Longrightarrow> bp_count bp1 = bp_count bp \<Longrightarrow> wal_rule bp bp1 \<Longrightarrow>
     dom (entries bp1) \<subseteq> dom (entries bp) \<Longrightarrow> evict_post route touched bp1 res \<Longrightarrow> evict_post route touched bp res"
  unfolding evict_post_def
  by (elim conjE, intro conjI, erule (1) keeps_trans, simp, erule (1) wal_rule_trans, erule (1) subset_trans [rotated])

lemma evict_write_back:
  assumes wf: "bp_wf route touched bp" and i: "idx < bp_capacity bp" "buffers bp ! idx = Some buf"
    and p: "\<not> 0 < pinCnt buf" and h: "be_hf buf = Some h" and d: "wal_durable bp"
  shows "evict_post route touched bp
    (case write_back grow idx buf h bp of
       (bp, e, Inl err) \<Rightarrow> (bp, Inl (ErrBpWrite err))
     | (bp, e, Inr u) \<Rightarrow> (release idx (be_pid buf) bp, Inr ()))"
proof -
  obtain bp1 e1 r where w: "write_back grow idx buf h bp = (bp1, e1, r)" by (metis prod_cases3)
  note c = write_back_cases [OF wf i h w]
  have d1: "wal_durable bp1" using c d by (simp add: wal_durable_def)
  show ?thesis
  proof (cases r)
    case (Inl err)
    then show ?thesis using c d1 w by (simp add: evict_post_def wal_rule_durable)
  next
    case (Inr u)
    have "keeps route touched bp1 (release idx (be_pid e1) bp1)"
      using c i p Inr by (intro keeps_release) (auto simp: keeps_def)
    then have "keeps route touched bp (release idx (be_pid buf) bp1)"
      using c by (auto intro: keeps_trans)
    moreover have "entries (release idx (be_pid e1) bp1) = (entries bp1)(be_pid e1 := None)"
      using c i by (intro frames_release(3)) (auto simp: keeps_def bp_wf_def)
    moreover have "wal_rule bp (release idx (be_pid buf) bp1)"
      using d1 by (intro wal_rule_durable) (simp add: wal_durable_def)
    ultimately show ?thesis using c w Inr by (auto simp: evict_post_def)
  qed
qed

lemma evict_dirty_post:
  assumes wf: "bp_wf route touched bp" and b: "idx < bp_capacity bp" "buffers bp ! idx = Some buf"
    and p: "\<not> 0 < pinCnt buf" and h: "be_hf buf = Some h" and st: "st = Some (Inr ()) \<Longrightarrow> wal_durable bp"
    and rest: "\<And>st bp2. bp_wf route touched bp2 \<Longrightarrow> (st = Some (Inr ()) \<Longrightarrow> wal_durable bp2) \<Longrightarrow>
      evict_post route touched bp2 (evict_loop i grow n st bp2)"
  shows "evict_post route touched bp
    (let (bp, r) = (case st of Some r \<Rightarrow> (bp, r) | None \<Rightarrow> flush_wal i bp)
     in case r of
          Inl e \<Rightarrow> evict_loop i grow n (Some r) bp
        | Inr u \<Rightarrow> (case write_back grow idx buf h bp of
             (bp, e, Inl err) \<Rightarrow> (bp, Inl (ErrBpWrite err))
           | (bp, e, Inr u) \<Rightarrow> (release idx (be_pid buf) bp, Inr ())))"
proof -
  obtain bp2 r where fl: "(case st of Some r \<Rightarrow> (bp, r) | None \<Rightarrow> flush_wal i bp) = (bp2, r)"
    by (metis prod.exhaust)
  have "\<exists>w. bp2 = bp\<lparr>bp_wal := w\<rparr> \<and> (r = Inr () \<longrightarrow> wal_durable bp2) \<and> wal_rule bp bp2"
    using fl flush_wal_form [of i bp bp2 r] st
    by (auto split: option.splits intro: exI [of _ "bp_wal bp"])
  then obtain w where bp2: "bp2 = bp\<lparr>bp_wal := w\<rparr>" "r = Inr () \<Longrightarrow> wal_durable bp2" and rule: "wal_rule bp bp2"
    by blast
  have k2: "keeps route touched bp bp2" unfolding bp2(1) by (rule keeps_wal [OF wf])
  note wf2 = keeps_wf [OF k2]
  let ?res = "case r of
      Inl e \<Rightarrow> evict_loop i grow n (Some r) bp2
    | Inr u \<Rightarrow> (case write_back grow idx buf h bp2 of
         (bp, e, Inl err) \<Rightarrow> (bp, Inl (ErrBpWrite err))
       | (bp, e, Inr u) \<Rightarrow> (release idx (be_pid buf) bp, Inr ()))"
  have "evict_post route touched bp2 ?res"
    using rest [OF wf2, of "Some r"] evict_write_back [OF wf2 _ _ p h] b bp2 by (cases r) simp_all
  then have "evict_post route touched bp ?res"
    by (rule evict_post_trans [OF k2 _ _ rule, rotated 3]) (simp_all add: bp2(1))
  then show ?thesis by (simp add: fl Let_def)
qed

lemma evict_loop_post:
  assumes "bp_wf route touched bp" and "st = Some (Inr ()) \<Longrightarrow> wal_durable bp"
  shows "evict_post route touched bp (evict_loop i grow n st bp)"
  using assms
proof (induction n arbitrary: st bp)
  case 0
  then show ?case by (simp add: evict_post_def)
next
  case (Suc n)
  note f = bp_wf_frames [OF Suc.prems(1)]
  define idx where "idx = clockHand bp"
  define bp1 where "bp1 = bp\<lparr>clockHand := Suc idx mod bp_capacity bp\<rparr>"
  have idx: "idx < bp_capacity bp" using f by (simp add: idx_def frames_ok_def)
  have k1: "keeps route touched bp bp1"
    unfolding bp1_def using Suc.prems(1) idx by (intro keeps_clock) simp_all
  note wf1 = keeps_wf [OF k1]
  have d1: "wal_durable bp1 = wal_durable bp" by (simp add: bp1_def wal_durable_def)
  have same: "freeSlots bp1 = freeSlots bp" "bp_count bp1 = bp_count bp" "heaps bp1 = heaps bp"
      "bp_capacity bp1 = bp_capacity bp" "buffers bp1 = buffers bp"
    by (simp_all add: bp1_def)
  have dom: "dom (entries bp1) \<subseteq> dom (entries bp)" by (simp add: bp1_def)
  have rule: "wal_rule bp bp1" by (rule wal_rule_same) (simp_all add: bp1_def)
  note step1 = evict_post_trans [OF k1 same(1) same(2) rule dom]
  show ?case
  proof (cases "buffers bp ! idx")
    case None
    then have "freeSlots bp \<noteq> []" using f idx by (auto simp: frames_ok_def)
    then show ?thesis
      using None k1 same dom rule by (simp add: Let_def idx_def [symmetric] bp1_def [symmetric] evict_post_def)
  next
    case (Some buf)
    then have b1: "buffers bp1 ! idx = Some buf" "idx < bp_capacity bp1" using idx by (simp_all add: same)
    note ent = bp_wf_entry [OF wf1 b1(2,1)]
    consider (pinned) "0 < pinCnt buf" | (used) "\<not> 0 < pinCnt buf" "0 < usageCount buf"
      | (clean) "\<not> 0 < pinCnt buf" "\<not> 0 < usageCount buf" "\<not> dirty buf"
      | (dirty) "\<not> 0 < pinCnt buf" "\<not> 0 < usageCount buf" "dirty buf"
      by blast
    then show ?thesis
    proof cases
      case pinned
      then show ?thesis
        using Some step1 [OF Suc.IH [OF wf1]] d1 Suc.prems(2)
        by (simp add: Let_def idx_def [symmetric] bp1_def [symmetric] same)
    next
      case used
      let ?e = "buf\<lparr>usageCount := usageCount buf - 1\<rparr>"
      have "usageCount buf - 1 \<le> maxUsageCount"
        using ent(2) used(2) by (auto simp: entry_ok_def word_le_nat_alt word_less_nat_alt unat_sub_if')
      then have k2: "keeps route touched bp1 (set_entry idx ?e bp1)"
        using ent(2) by (intro keeps_set_entry [OF wf1 b1(2,1)]) (auto simp: entry_ok_def)
      have "wal_durable (set_entry idx ?e bp1) = wal_durable bp" using d1 by (simp add: wal_durable_def)
      then have ih: "evict_post route touched (set_entry idx ?e bp1) (evict_loop i grow n st (set_entry idx ?e bp1))"
        using Suc.IH [OF keeps_wf [OF k2], of st] Suc.prems(2) by simp
      have "entries (set_entry idx ?e bp1) = (entries bp1)(be_pid buf \<mapsto> ?e)"
        by (rule frames_set_entry(2) [OF bp_wf_frames [OF wf1] b1(2,1)]) simp
      then have "evict_post route touched bp1 (evict_loop i grow n st (set_entry idx ?e bp1))"
        using ent(1) by (intro evict_post_trans [OF k2 _ _ _ _ ih]) (auto intro: wal_rule_same)
      then show ?thesis
        using Some used step1 by (simp add: Let_def idx_def [symmetric] bp1_def [symmetric] same)
    next
      case clean
      then have "be_pid buf \<notin> touched" using ent(2) by (auto simp: entry_ok_def)
      then have "keeps route touched bp1 (release idx (be_pid buf) bp1)"
        using ent(2) clean by (intro keeps_release [OF wf1 b1(2,1)]) (auto simp: entry_ok_def)
      moreover have "entries (release idx (be_pid buf) bp1) = (entries bp1)(be_pid buf := None)"
        by (rule frames_release(3) [OF bp_wf_frames [OF wf1] b1(2,1)])
      ultimately have "evict_post route touched bp1 (release idx (be_pid buf) bp1, Inr ())"
        by (auto simp: evict_post_def intro: wal_rule_same)
      then show ?thesis
        using Some clean step1 by (simp add: Let_def idx_def [symmetric] bp1_def [symmetric] same)
    next
      case dirty
      obtain h where h: "be_hf buf = Some h" using ent(2) by (simp add: entry_ok_def)
      have "st = Some (Inr ()) \<Longrightarrow> wal_durable bp1" using d1 Suc.prems(2) by simp
      note evict_dirty_post [OF wf1 b1(2,1) dirty(1) h this Suc.IH]
      then show ?thesis
        using Some dirty step1 h by (simp add: Let_def idx_def [symmetric] bp1_def [symmetric] same)
    qed
  qed
qed

lemma make_room_post:
  assumes wf: "bp_wf route touched bp"
  shows "\<exists>bp' r. make_room i grow bp = Some (bp', r) \<and> keeps route touched bp bp'
    \<and> (r = Inr () \<longrightarrow> bp_count bp' < int (bp_capacity bp')) \<and> wal_rule bp bp'
    \<and> dom (entries bp') \<subseteq> dom (entries bp)"
proof (cases "bp_count bp \<ge> int (bp_capacity bp)")
  case False
  then show ?thesis using wf by (subst make_room.simps) simp
next
  case True
  have "bp_count bp + int (length (freeSlots bp)) = int (bp_capacity bp)"
    using bp_wf_frames [OF wf] by (simp add: frames_ok_def)
  then have fs: "freeSlots bp = []" and c: "bp_count bp = int (bp_capacity bp)"
    using True by (simp_all flip: length_0_conv)
  obtain bp1 r where ev: "evict i grow bp = (bp1, r)" by fastforce
  then have post: "evict_post route touched bp (bp1, r)"
    using evict_loop_post [OF wf, of None i grow "bp_capacity bp * 2"] by (simp add: evict_def)
  show ?thesis
  proof (cases r)
    case (Inl e)
    then show ?thesis using True ev post by (subst make_room.simps) (simp add: evict_post_def)
  next
    case (Inr u)
    then have "bp_count bp1 < int (bp_capacity bp1)" using post fs c by (simp add: evict_post_def keeps_def)
    then have "make_room i grow bp1 = Some (bp1, Inr ())" by (subst make_room.simps) simp
    then show ?thesis
      using True ev post Inr \<open>bp_count bp1 < int (bp_capacity bp1)\<close>
      by (subst make_room.simps) (simp add: evict_post_def)
  qed
qed

lemma flush_loop_post:
  assumes "bp_wf route touched bp" and "\<forall>i \<in> set idxs. i < bp_capacity bp" and "flush_loop grow sel idxs bp = (bp', r)"
  shows "keeps route touched bp bp' \<and> bp_wal bp' = bp_wal bp"
  using assms
proof (induction idxs arbitrary: bp)
  case Nil
  then show ?case by simp
next
  case (Cons idx idxs)
  have i: "idx < bp_capacity bp" using Cons.prems(2) by simp
  show ?case
  proof (cases "buffers bp ! idx")
    case None
    then show ?thesis using Cons by simp
  next
    case (Some e)
    show ?thesis
    proof (cases "sel e")
      case False
      then show ?thesis using Cons Some by simp
    next
      case True
      note ent = bp_wf_entry [OF Cons.prems(1) i Some]
      obtain h where h: "be_hf e = Some h" using ent(2) by (simp add: entry_ok_def)
      obtain bp1 e1 r1 where w: "write_back grow idx e h bp = (bp1, e1, r1)" by (metis prod_cases3)
      note c = write_back_cases [OF Cons.prems(1) i Some h w]
      then have k1: "keeps route touched bp bp1" and cap: "bp_capacity bp1 = bp_capacity bp" by (simp_all add: keeps_def)
      show ?thesis
      proof (cases r1)
        case (Inl err)
        then show ?thesis using Cons.prems(3) Some True h w c by simp
      next
        case (Inr u)
        have k2: "keeps route touched bp1 (set_entry idx (cleaned e1) bp1)"
          using c ent(2) i cap Inr
          by (intro keeps_set_entry [OF keeps_wf [OF k1], of _ e1]) (auto simp: cleaned_def entry_ok_def)
        have "flush_loop grow sel idxs (set_entry idx (cleaned e1) bp1) = (bp', r)"
          using Cons.prems(3) Some True h w Inr by simp
        then have "keeps route touched (set_entry idx (cleaned e1) bp1) bp' \<and> bp_wal bp' = bp_wal bp1"
          using Cons.IH [OF keeps_wf [OF k2]] Cons.prems(2) cap by simp
        then show ?thesis using k1 k2 c by (auto intro: keeps_trans)
      qed
    qed
  qed
qed

section \<open>The operations of a client\<close>

lemma bp_view_at: "entries bp pid = Some e \<Longrightarrow> bp_view route bp pid = Some (sans_checksum (be_page e))"
  by (simp add: bp_view_def db.view_def cache_pages_def)

lemma wf_set_entry:
  assumes wf: "bp_wf route touched bp" and i: "i < bp_capacity bp" "buffers bp ! i = Some e"
    and e': "be_pid e' = be_pid e" and ok: "entry_ok route touched' (heaps bp) (be_pid e) e'"
    and t: "touched' - {be_pid e} = touched - {be_pid e}"
  shows "bp_wf route touched' (set_entry i e' bp)"
    and "bp_view route (set_entry i e' bp) = (bp_view route bp)(be_pid e \<mapsto> sans_checksum (be_page e'))"
proof -
  note f = bp_wf_frames [OF wf] and ent = bp_wf_entry [OF wf i]
  note s = frames_set_entry [OF f i e']
  have other: "pid \<in> touched' \<longleftrightarrow> pid \<in> touched" if "pid \<noteq> be_pid e" for pid using t that by blast
  then have "entry_ok route touched' (heaps bp) pid x" if "entry_ok route touched (heaps bp) pid x" "pid \<noteq> be_pid e" for pid x
    using that by (simp add: entry_ok_def)
  moreover have "touched' \<subseteq> insert (be_pid e) (dom (entries bp))"
    using wf other by (auto simp: bp_wf_def)
  ultimately show "bp_wf route touched' (set_entry i e' bp)"
    using wf s ok ent(1) unfolding bp_wf_def by auto
  have c: "cache_pages (set_entry i e' bp) = (cache_pages bp)(be_pid e \<mapsto> be_page e')"
    by (rule cache_pages_set_entry [OF f i e'])
  show "bp_view route (set_entry i e' bp) = (bp_view route bp)(be_pid e \<mapsto> sans_checksum (be_page e'))"
    by (simp add: bp_view_def db.view_def c fun_eq_iff)
qed

lemma wf_cached:
  assumes "bp_wf route touched bp" and "cached_entry bp pid = Some (i, e)"
  shows "i < bp_capacity bp" "buffers bp ! i = Some e" "be_pid e = pid" "entry_ok route touched (heaps bp) pid e"
    "entries bp pid = Some e"
  using assms cached_entry_Some [OF bp_wf_frames [OF assms(1)], of pid i e] bp_wf_entry [OF assms(1), of i e] by auto

lemma Reference_simps [simp]:
  "be_pid (Reference e) = be_pid e" "be_page (Reference e) = be_page e" "be_hf (Reference e) = be_hf e"
  "pinCnt (Reference e) = pinCnt e" "dirty (Reference e) = dirty e"
  by (simp_all add: Reference_def)

lemma usage_Reference: "usageCount e \<le> maxUsageCount \<Longrightarrow> usageCount (Reference e) \<le> maxUsageCount"
  by (auto simp: Reference_def word_le_nat_alt word_less_nat_alt maxUsageCount_def unat_word_ariths)

lemma ReadPage_length:
  assumes "ReadPage hf pid b = (p, Inr ())" and "length b = PageSize"
  shows "length p = PageSize"
proof -
  have "length (disk_bytes hf pid) = onDiskPageSize hf"
    using ReadPage_Inr [OF assms] by (simp add: disk_bytes_def disk_range_def)
  moreover have "decode hf pid b (disk_bytes hf pid) = (p, Inr ())"
    using ReadPage_Inr [OF assms] ReadPage_in_range [of hf pid b] assms by simp
  ultimately show ?thesis
    using assms(2) by (auto simp: decode_def verify_def onDiskPageSize_def overwrite_def split: option.splits sum.splits)
qed

lemma db_read_inj:
  assumes "db_read route hs pid = Some p" and "db_read route hs' pid' = Some q" and "sans_checksum p = sans_checksum q"
  shows "p = q"
proof -
  have pq: "length p = PageSize" "VerifyChecksum p" "length q = PageSize" "VerifyChecksum q"
    using assms(1,2) by (auto simp: db_read_Some intro: ReadPage_length ReadPage_verified)
  have stamp: "SetChecksum x = overwrite 8 (le32 (checksumIEEE (sans_checksum x))) (sans_checksum x)"
    if "length x = PageSize" for x
    using that by (simp add: SetChecksum_def ComputeChecksum_def sans_checksum_def overwrite_overwrite)
  show ?thesis
    using stamp [OF pq(1)] stamp [OF pq(3)] SetChecksum_verified [OF pq(1,2)] SetChecksum_verified [OF pq(3,4)] assms(3)
    by simp
qed

lemma insert_entry_post:
  assumes wf: "bp_wf route touched bp" and c: "bp_cache bp (be_pid e) = None"
    and e: "be_hf e = Some (route (TableID (be_pid e)))" "0 \<le> pinCnt e" "usageCount e \<le> maxUsageCount"
    and rd: "db_read route (heaps bp) (be_pid e) = Some (be_page e)" "length (be_page e) = PageSize"
  shows "\<exists>bp' r. insert_entry i grow e bp = Some (bp', r) \<and> keeps route touched bp bp'
    \<and> (\<forall>idx. r = Inr idx \<longrightarrow> cached_entry bp' (be_pid e) = Some (idx, e)) \<and> wal_rule bp bp'"
proof -
  obtain bp1 r1 where m: "make_room i grow bp = Some (bp1, r1)" "keeps route touched bp bp1"
      "r1 = Inr () \<longrightarrow> bp_count bp1 < int (bp_capacity bp1)" "wal_rule bp bp1"
      "dom (entries bp1) \<subseteq> dom (entries bp)"
    using make_room_post [OF wf] by metis
  note wf1 = keeps_wf [OF m(2)]
  note f = bp_wf_frames [OF wf] and f1 = bp_wf_frames [OF wf1]
  show ?thesis
  proof (cases r1)
    case (Inl err)
    then show ?thesis using m by (simp add: insert_entry_def)
  next
    case (Inr u)
    have none: "entries bp (be_pid e) = None" using c entries_None [OF f] by simp
    then have none1: "entries bp1 (be_pid e) = None" using m(5) by auto
    then have c1: "bp_cache bp1 (be_pid e) = None" using entries_None [OF f1] by simp
    have "bp_view route bp (be_pid e) = Some (sans_checksum (be_page e))"
      using none rd by (simp add: bp_view_def db.view_def cache_pages_def)
    then have "bp_view route bp1 (be_pid e) = Some (sans_checksum (be_page e))"
      using m(2) by (auto simp: keeps_def map_le_def dom_def)
    then have rd1: "db_read route (heaps bp1) (be_pid e) = Some (be_page e)"
      using none1 rd by (auto simp: bp_view_def db.view_def cache_pages_def dest: db_read_inj)
    obtain idx where s: "findEmptySlot bp1 = (bp1\<lparr>freeSlots := butlast (freeSlots bp1)\<rparr>, Inr idx)" "freeSlots bp1 \<noteq> []"
        "idx = last (freeSlots bp1)"
      using findEmptySlot_ok [OF f1] m(3) Inr by auto
    define bp2 where "bp2 = install idx e (bp1\<lparr>freeSlots := butlast (freeSlots bp1)\<rparr>)"
    note fi = frames_install [OF f1 s(2,3) c1, folded bp2_def]
    have h2: "heaps bp2 = heaps bp1" "bp_wal bp2 = bp_wal bp1" "bp_capacity bp2 = bp_capacity bp1"
      by (simp_all add: bp2_def install_def)
    have "be_pid e \<notin> touched" using wf1 none1 by (auto simp: bp_wf_def)
    then have "entry_ok route touched (heaps bp1) (be_pid e) e" using e rd rd1 by (simp add: entry_ok_def)
    then have "bp_wf route touched bp2"
      using wf1 fi h2 unfolding bp_wf_def by auto
    moreover have "cache_pages bp2 = (cache_pages bp1)(be_pid e \<mapsto> be_page e)"
      by (simp add: cache_pages_def fi(3) fun_eq_iff)
    then have "bp_view route bp2 = bp_view route bp1"
      unfolding bp_view_def h2 using none1 rd1
      by (simp add: db.view_load [where c = "cache_pages bp1" and k = "be_pid e"] cache_pages_def)
    moreover have "cached_entry bp1 (be_pid e) = None" using c1 cached_entry_None [OF f1] by simp
    then have "pinned_kept bp1 bp2" by (auto simp: pinned_kept_def fi(2))
    ultimately have "keeps route touched bp1 bp2" using h2 by (simp add: keeps_def)
    then have "keeps route touched bp bp2" using m(2) by (rule keeps_trans [rotated])
    moreover have "wal_rule bp bp2" using m(4) wal_rule_same [OF h2(1,2)] by (rule wal_rule_trans)
    ultimately show ?thesis
      using m(1) Inr s(1) fi(2) by (simp add: insert_entry_def bp2_def [symmetric])
  qed
qed

lemma new_entry_simps [simp]:
  "be_pid (new_entry pid pg h n d dt) = pid" "be_page (new_entry pid pg h n d dt) = pg"
  "be_hf (new_entry pid pg h n d dt) = Some h" "pinCnt (new_entry pid pg h n d dt) = n"
  "usageCount (new_entry pid pg h n d dt) = 1" "dirty (new_entry pid pg h n d dt) = d"
  by (simp_all add: new_entry_def)

lemma db_read_length: "db_read route hs pid = Some p \<Longrightarrow> length p = PageSize"
  by (auto simp: db_read_Some intro: ReadPage_length)

lemma FetchPage_post:
  assumes wf: "bp_wf route touched bp"
  shows "\<exists>bp' r. FetchPage i grow pid (route (TableID pid)) dt bp = Some (bp', r) \<and> bp_wf route touched bp'
    \<and> bp_view route bp \<subseteq>\<^sub>m bp_view route bp' \<and> wal_rule bp bp'
    \<and> (\<forall>idx. r = Inr idx \<longrightarrow> (\<exists>e. cached_entry bp' pid = Some (idx, e) \<and> 0 < pinCnt e))"
proof (cases "cached_entry bp pid")
  case (Some a)
  obtain idx e where a: "cached_entry bp pid = Some (idx, e)" using Some by (cases a) simp
  note c = wf_cached [OF wf a]
  let ?e = "Reference (e\<lparr>pinCnt := pinCnt e + 1\<rparr>)"
  have p: "be_pid ?e = be_pid e" by simp
  have "entry_ok route touched (heaps bp) (be_pid e) ?e"
    using c usage_Reference [of "e\<lparr>pinCnt := pinCnt e + 1\<rparr>"] by (auto simp: entry_ok_def)
  note s = wf_set_entry [OF wf c(1,2) p this refl]
  have "bp_view route (set_entry idx ?e bp) = bp_view route bp"
    using bp_view_at [OF c(5), of route] c(3) by (simp add: s(2) fun_eq_iff)
  moreover have "cached_entry (set_entry idx ?e bp) pid = Some (idx, ?e)"
    using frames_set_entry(3) [OF bp_wf_frames [OF wf] c(1,2) p] c(3) by simp
  moreover have "0 < pinCnt ?e" using c(4) by (simp add: entry_ok_def)
  ultimately show ?thesis using a s(1) by (simp add: FetchPage_def wal_rule_same)
next
  case None
  then have n: "bp_cache bp pid = None" using cached_entry_None [OF bp_wf_frames [OF wf]] by simp
  obtain pg r where rp: "ReadPage (heaps bp (route (TableID pid))) pid (replicate PageSize 0) = (pg, r)" by fastforce
  show ?thesis
  proof (cases r)
    case (Inl err)
    then show ?thesis using None rp wf by (simp add: FetchPage_def)
  next
    case (Inr u)
    then have rd: "db_read route (heaps bp) pid = Some pg" using rp by (simp add: db_read_def)
    have l: "length pg = PageSize" by (rule db_read_length [OF rd])
    let ?e = "new_entry pid pg (route (TableID pid)) 1 False dt"
    obtain bp' r' where "insert_entry i grow ?e bp = Some (bp', r')" "keeps route touched bp bp'"
        "\<forall>idx. r' = Inr idx \<longrightarrow> cached_entry bp' pid = Some (idx, ?e)" "wal_rule bp bp'"
      using insert_entry_post [OF wf, of ?e i grow] n rd l by (auto simp: maxUsageCount_def)
    then show ?thesis using None rp Inr by (auto simp: FetchPage_def keeps_def)
  qed
qed

lemma flush_all_post:
  assumes wf: "bp_wf route touched bp"
    and r: "(case flush_wal i bp of
       (bp, Inl e) \<Rightarrow> (bp, Inl (ErrBpFlush e))
     | (bp, Inr u) \<Rightarrow> flush_loop grow sel [0 ..< bp_capacity bp] bp) = (bp', r)"
  shows "keeps route touched bp bp' \<and> wal_rule bp bp'"
proof -
  obtain bp1 r1 where f: "flush_wal i bp = (bp1, r1)" by fastforce
  then obtain w where bp1: "bp1 = bp\<lparr>bp_wal := w\<rparr>" "r1 = Inr () \<longrightarrow> wal_durable bp1"
      "wal_rule bp bp1"
    using flush_wal_form by blast
  have k1: "keeps route touched bp bp1" unfolding bp1(1) by (rule keeps_wal [OF wf])
  show ?thesis
  proof (cases r1)
    case (Inl e)
    then show ?thesis using r f k1 bp1(3) by auto
  next
    case (Inr u)
    then have l: "flush_loop grow sel [0 ..< bp_capacity bp1] bp1 = (bp', r)" using r f by simp
    have "keeps route touched bp1 bp' \<and> bp_wal bp' = bp_wal bp1"
      using flush_loop_post [OF keeps_wf [OF k1] _ l] by simp
    moreover from this have "wal_durable bp'" using bp1(2) Inr by (simp add: wal_durable_def)
    ultimately show ?thesis using k1 by (auto intro: keeps_trans wal_rule_durable)
  qed
qed

lemma FlushPage_post:
  assumes wf: "bp_wf route touched bp" and r: "FlushPage i grow pid bp = (bp', r)"
  shows "keeps route touched bp bp' \<and> wal_rule bp bp'"
proof (cases "\<exists>idx e. cached_entry bp pid = Some (idx, e) \<and> dirty e \<and> \<not> 0 < pinCnt e")
  case False
  then show ?thesis using r wf by (auto simp: FlushPage_def split: option.splits prod.splits if_splits)
next
  case True
  then obtain idx e where e: "cached_entry bp pid = Some (idx, e)" "dirty e" "\<not> 0 < pinCnt e" by blast
  note c = wf_cached [OF wf e(1)]
  obtain h where h: "be_hf e = Some h" using c(4) by (simp add: entry_ok_def)
  obtain bp1 r1 where f: "flush_wal i bp = (bp1, r1)" by fastforce
  then obtain w where bp1: "bp1 = bp\<lparr>bp_wal := w\<rparr>" "r1 = Inr () \<longrightarrow> wal_durable bp1"
      "wal_rule bp bp1"
    using flush_wal_form by blast
  have k1: "keeps route touched bp bp1" unfolding bp1(1) by (rule keeps_wal [OF wf])
  show ?thesis
  proof (cases r1)
    case (Inl err)
    then show ?thesis using r e h f k1 bp1(3) by (auto simp: FlushPage_def)
  next
    case (Inr u)
    have b1: "idx < bp_capacity bp1" "buffers bp1 ! idx = Some e" using c bp1(1) by simp_all
    obtain bp2 e2 r2 where w2: "write_back grow idx e h bp1 = (bp2, e2, r2)" by (metis prod_cases3)
    note wb = write_back_cases [OF keeps_wf [OF k1] b1 h w2]
    have d2: "wal_durable bp2" using wb bp1(2) Inr by (simp add: wal_durable_def)
    have k2: "keeps route touched bp bp2" using k1 wb by (blast intro: keeps_trans)
    show ?thesis
    proof (cases r2)
      case (Inl err)
      then show ?thesis using r e h f Inr w2 k2 wal_rule_durable [OF d2] by (auto simp: FlushPage_def)
    next
      case (Inr u2)
      have "keeps route touched bp2 (set_entry idx (cleaned e2) bp2)"
        using wb c(4) b1(1) Inr k2
        by (intro keeps_set_entry [OF keeps_wf [OF k2], of _ e2]) (auto simp: cleaned_def entry_ok_def keeps_def)
      then have "keeps route touched bp (set_entry idx (cleaned e2) bp2)" using k2 by (blast intro: keeps_trans)
      moreover have "bp' = set_entry idx (cleaned e2) bp2"
        using r e h f \<open>r1 = Inr u\<close> w2 Inr by (simp add: FlushPage_def)
      moreover have "wal_durable (set_entry idx (cleaned e2) bp2)" using d2 by (simp add: wal_durable_def)
      ultimately show ?thesis by (simp add: wal_rule_durable)
    qed
  qed
qed

lemma PrefetchPages_post:
  assumes "bp_wf route touched bp" and "\<forall>pid \<in> set pids. TableID pid = t"
  shows "\<exists>bp'. PrefetchPages i grow pids (route t) bp = Some bp' \<and> keeps route touched bp bp'
    \<and> wal_rule bp bp'"
  using assms
proof (induction pids arbitrary: bp)
  case Nil
  then show ?case by simp
next
  case (Cons pid pids)
  have skip: ?case if "PrefetchPages i grow (pid # pids) (route t) bp = PrefetchPages i grow pids (route t) bp"
    using Cons.IH [OF Cons.prems(1)] Cons.prems(2) that by simp
  obtain pg r where rp: "ReadPage (heaps bp (route t)) pid (replicate PageSize 0) = (pg, r)" by fastforce
  show ?case
  proof (cases "bp_cache bp pid = None \<and> r = Inr ()")
    case False
    then show ?thesis using rp by (intro skip) (cases r; auto)
  next
    case True
    have rd: "db_read route (heaps bp) pid = Some pg" using rp True Cons.prems(2) by (simp add: db_read_def)
    note l = db_read_length [OF rd]
    let ?e = "new_entry pid pg (route t) 0 False []"
    obtain bp1 r1 where ins: "insert_entry i grow ?e bp = Some (bp1, r1)" "keeps route touched bp bp1"
        "wal_rule bp bp1"
      using insert_entry_post [OF Cons.prems(1), of ?e i grow] True rd l Cons.prems(2) by (auto simp: maxUsageCount_def)
    show ?thesis
    proof (cases r1)
      case (Inl err)
      then show ?thesis using True rp ins by (simp add: prefetch_insert_def)
    next
      case (Inr idx)
      obtain bp2 where p2: "PrefetchPages i grow pids (route t) bp1 = Some bp2" "keeps route touched bp1 bp2"
          "wal_rule bp1 bp2"
        using Cons.IH [OF keeps_wf [OF ins(2)]] Cons.prems(2) by auto
      have "PrefetchPages i grow (pid # pids) (route t) bp = Some bp2"
        using True rp ins(1) Inr p2(1) by (simp add: prefetch_insert_def)
      then show ?thesis using ins(2,3) p2(2,3) by (blast intro: keeps_trans wal_rule_trans)
    qed
  qed
qed

section \<open>Sequences of operations\<close>

text \<open>
  The operations that the clients and the background workers interleave. The output is the page that a
  successful \<open>FetchPage\<close> gives, and the page that a client's store leaves.
\<close>

datatype pool_op =
  OFetch PageID | OStore PageID "page \<Rightarrow> page" | OUnpin PageID bool | OUnpinDirty PageID u64
| OFlushAll | OFlushUpTo u64 | OFlushPage PageID | OPrefetch u32 "PageID list"

fun exec :: "(u32 \<Rightarrow> nat) \<Rightarrow> io \<Rightarrow> (PageID \<Rightarrow> bool) \<Rightarrow> pool_op \<Rightarrow> BufferPool \<Rightarrow> (BufferPool \<times> page option) option" where
  "exec route i grow (OFetch pid) bp =
     map_option (\<lambda>(bp, r). (bp, case r of Inl e \<Rightarrow> None | Inr idx \<Rightarrow> map_option be_page (buffers bp ! idx)))
       (FetchPage i grow pid (route (TableID pid)) [] bp)"
| "exec route i grow (OStore pid f) bp =
     (case cached_entry bp pid of
        None \<Rightarrow> Some (bp, None)
      | Some (idx, e) \<Rightarrow> Some (store_page idx f bp, Some (f (be_page e))))"
| "exec route i grow (OUnpin pid d) bp = Some (UnpinPage pid d bp, None)"
| "exec route i grow (OUnpinDirty pid lsn) bp = Some (UnpinPageDirty pid lsn bp, None)"
| "exec route i grow OFlushAll bp = Some (fst (FlushAll i grow bp), None)"
| "exec route i grow (OFlushUpTo lsn) bp = Some (fst (FlushDirtyPagesUpToLSN i grow lsn bp), None)"
| "exec route i grow (OFlushPage pid) bp = Some (fst (FlushPage i grow pid bp), None)"
| "exec route i grow (OPrefetch t pids) bp = map_option (\<lambda>bp. (bp, None)) (PrefetchPages i grow pids (route t) bp)"

text \<open>
  What a client owes the pool: it changes a page only while it has it pinned, and it reports the change
  when it unpins the page.
\<close>

fun permitted :: "PageID set \<Rightarrow> BufferPool \<Rightarrow> pool_op \<Rightarrow> bool" where
  "permitted touched bp (OStore pid f) \<longleftrightarrow>
     (\<exists>idx e. cached_entry bp pid = Some (idx, e) \<and> 0 < pinCnt e \<and> length (f (be_page e)) = PageSize)"
| "permitted touched bp (OUnpin pid d) \<longleftrightarrow>
     (pid \<in> touched \<and> \<not> d \<longrightarrow> (\<exists>idx e. cached_entry bp pid = Some (idx, e) \<and> 1 < pinCnt e))"
| "permitted touched bp (OPrefetch t pids) \<longleftrightarrow> (\<forall>pid \<in> set pids. TableID pid = t)"
| "permitted touched bp _ \<longleftrightarrow> True"

fun touch :: "pool_op \<Rightarrow> PageID set \<Rightarrow> PageID set" where
  "touch (OStore pid f) touched = insert pid touched"
| "touch (OUnpin pid d) touched = (if d then touched - {pid} else touched)"
| "touch (OUnpinDirty pid lsn) touched = touched - {pid}"
| "touch _ touched = touched"

text \<open>
  \<open>store_step A op out A'\<close>: one step of a plain store of pages, in which a fetch gives the content of the
  page and only a client's store changes it. A page whose content was unknown may become known.
\<close>

fun store_step :: "(PageID \<rightharpoonup> page) \<Rightarrow> pool_op \<Rightarrow> page option \<Rightarrow> (PageID \<rightharpoonup> page) \<Rightarrow> bool" where
  "store_step A (OFetch pid) (Some p) A' \<longleftrightarrow> A \<subseteq>\<^sub>m A' \<and> A' pid = Some (sans_checksum p)"
| "store_step A (OStore pid f) (Some p) A' \<longleftrightarrow> A(pid \<mapsto> sans_checksum p) = A'"
| "store_step A op out A' \<longleftrightarrow> A \<subseteq>\<^sub>m A'"

lemma wf_entry_change:
  assumes wf: "bp_wf route touched bp" and c: "cached_entry bp pid = Some (idx, e)"
    and e': "be_pid e' = be_pid e" "be_page e' = be_page e" "entry_ok route touched' (heaps bp) pid e'"
    and t: "touched' - {pid} = touched - {pid}"
  shows "bp_wf route touched' (set_entry idx e' bp)" and "bp_view route (set_entry idx e' bp) = bp_view route bp"
proof -
  note w = wf_cached [OF wf c]
  note s = wf_set_entry [OF wf w(1,2) e'(1), of touched'] e'(3) t w(3)
  show "bp_wf route touched' (set_entry idx e' bp)" using s by simp
  have "bp_view route bp pid = Some (sans_checksum (be_page e))" by (rule bp_view_at [OF w(5)])
  then show "bp_view route (set_entry idx e' bp) = bp_view route bp" using s e'(2) by (simp add: fun_eq_iff)
qed

lemma bp_wf_drop_touched: "bp_wf route touched bp \<Longrightarrow> cached_entry bp pid = None \<Longrightarrow> pid \<notin> touched"
  by (auto simp: bp_wf_def entries_def)

lemma UnpinPage_post:
  assumes wf: "bp_wf route touched bp" and p: "permitted touched bp (OUnpin pid d)"
  shows "bp_wf route (touch (OUnpin pid d) touched) (UnpinPage pid d bp)" and "bp_view route (UnpinPage pid d bp) = bp_view route bp"
proof -
  have "bp_wf route (touch (OUnpin pid d) touched) (UnpinPage pid d bp) \<and> bp_view route (UnpinPage pid d bp) = bp_view route bp"
  proof (cases "cached_entry bp pid")
    case None
    then show ?thesis using wf bp_wf_drop_touched [OF wf None] by (simp add: UnpinPage_def)
  next
    case (Some a)
    obtain idx e where a: "cached_entry bp pid = Some (idx, e)" using Some by (cases a) simp
    let ?e = "if d then (unpin e)\<lparr>dirty := True\<rparr> else unpin e"
    have "entry_ok route (touch (OUnpin pid d) touched) (heaps bp) pid ?e"
      using wf_cached(4) [OF wf a] p a by (auto simp: entry_ok_def unpin_def)
    then show ?thesis
      using wf_entry_change [OF wf a, of ?e] a by (auto simp: UnpinPage_def unpin_def)
  qed
  then show "bp_wf route (touch (OUnpin pid d) touched) (UnpinPage pid d bp)"
    and "bp_view route (UnpinPage pid d bp) = bp_view route bp" by simp_all
qed

lemma UnpinPageDirty_post:
  assumes wf: "bp_wf route touched bp"
  shows "bp_wf route (touched - {pid}) (UnpinPageDirty pid lsn bp) \<and> bp_view route (UnpinPageDirty pid lsn bp) = bp_view route bp"
proof (cases "cached_entry bp pid")
  case None
  then show ?thesis using wf bp_wf_drop_touched [OF wf None] by (simp add: UnpinPageDirty_def)
next
  case (Some a)
  obtain idx e where a: "cached_entry bp pid = Some (idx, e)" using Some by (cases a) simp
  let ?e = "(unpin e)\<lparr>dirty := True, lastModifiedLSN := lsn\<rparr>"
  have "entry_ok route (touched - {pid}) (heaps bp) pid ?e"
    using wf_cached(4) [OF wf a] by (auto simp: entry_ok_def unpin_def)
  then show ?thesis using wf_entry_change [OF wf a, of ?e] a by (auto simp: UnpinPageDirty_def unpin_def)
qed

lemma OStore_post:
  assumes wf: "bp_wf route touched bp" and c: "cached_entry bp pid = Some (idx, e)"
    and p: "0 < pinCnt e" "length (f (be_page e)) = PageSize"
  shows "bp_wf route (insert pid touched) (store_page idx f bp)"
    and "bp_view route (store_page idx f bp) = (bp_view route bp)(pid \<mapsto> sans_checksum (f (be_page e)))"
proof -
  note w = wf_cached [OF wf c]
  let ?e = "e\<lparr>be_page := f (be_page e)\<rparr>"
  have "entry_ok route (insert pid touched) (heaps bp) (be_pid e) ?e"
    using w p by (auto simp: entry_ok_def)
  note s = wf_set_entry [OF wf w(1,2) _ this]
  show "bp_wf route (insert pid touched) (store_page idx f bp)"
    and "bp_view route (store_page idx f bp) = (bp_view route bp)(pid \<mapsto> sans_checksum (f (be_page e)))"
    using s w by (auto simp: store_page_def)
qed

lemma exec_step:
  assumes wf: "bp_wf route touched bp" and p: "permitted touched bp op"
  shows "\<exists>bp' out. exec route i grow op bp = Some (bp', out) \<and> bp_wf route (touch op touched) bp'
    \<and> store_step (bp_view route bp) op out (bp_view route bp') \<and> wal_rule bp bp'"
proof (cases op)
  case (OFetch pid)
  obtain bp' r where f: "FetchPage i grow pid (route (TableID pid)) [] bp = Some (bp', r)" "bp_wf route touched bp'"
      "bp_view route bp \<subseteq>\<^sub>m bp_view route bp'" "wal_rule bp bp'"
      "\<forall>idx. r = Inr idx \<longrightarrow> (\<exists>e. cached_entry bp' pid = Some (idx, e) \<and> 0 < pinCnt e)"
    using FetchPage_post [OF wf, of i grow pid "[]"] by blast
  show ?thesis
  proof (cases r)
    case (Inl e)
    then show ?thesis using f OFetch by simp
  next
    case (Inr idx)
    then obtain e where "cached_entry bp' pid = Some (idx, e)" using f(5) by blast
    note w = wf_cached [OF f(2) this]
    show ?thesis using f Inr OFetch w bp_view_at [OF w(5), of route] by simp
  qed
next
  case (OStore pid f)
  then obtain idx e where e: "cached_entry bp pid = Some (idx, e)" "0 < pinCnt e" "length (f (be_page e)) = PageSize"
    using p by auto
  have "wal_rule bp (store_page idx f bp)"
    by (rule wal_rule_same) (auto simp: store_page_def split: option.splits)
  then show ?thesis using OStore_post [where f = f, OF wf e] e(1) OStore by simp
next
  case (OUnpin pid d)
  have "wal_rule bp (UnpinPage pid d bp)"
    by (rule wal_rule_same) (auto simp: UnpinPage_def split: option.splits)
  then show ?thesis using UnpinPage_post [OF wf, of pid d] p OUnpin by simp
next
  case (OUnpinDirty pid lsn)
  have "wal_rule bp (UnpinPageDirty pid lsn bp)"
    by (rule wal_rule_same) (auto simp: UnpinPageDirty_def split: option.splits)
  then show ?thesis using UnpinPageDirty_post [OF wf, of pid lsn] OUnpinDirty by simp
next
  case OFlushAll
  obtain bp' r where "FlushAll i grow bp = (bp', r)" by fastforce
  then show ?thesis using flush_all_post [where sel = dirty and i = i and grow = grow and bp' = bp' and r = r, OF wf] OFlushAll by (simp add: FlushAll_def keeps_def)
next
  case (OFlushUpTo lsn)
  obtain bp' r where "FlushDirtyPagesUpToLSN i grow lsn bp = (bp', r)" by fastforce
  then show ?thesis
    using flush_all_post [where sel = "\<lambda>e. dirty e \<and> lastModifiedLSN e \<le> lsn" and i = i and grow = grow
        and bp' = bp' and r = r, OF wf] OFlushUpTo by (simp add: FlushDirtyPagesUpToLSN_def keeps_def)
next
  case (OFlushPage pid)
  obtain bp' r where "FlushPage i grow pid bp = (bp', r)" by fastforce
  then show ?thesis using FlushPage_post [OF wf] OFlushPage by (simp add: keeps_def)
next
  case (OPrefetch t pids)
  then show ?thesis using PrefetchPages_post [OF wf, of pids t i grow] p by (auto simp: keeps_def)
qed

text \<open>A run: the operations in the order of the mutex, each with the outcomes of its calls.\<close>

type_synonym pool_call = "io \<times> (PageID \<Rightarrow> bool) \<times> pool_op"

fun run :: "(u32 \<Rightarrow> nat) \<Rightarrow> pool_call list \<Rightarrow> BufferPool \<Rightarrow> (BufferPool \<times> page option list) option" where
  "run route [] bp = Some (bp, [])"
| "run route ((i, grow, op) # cs) bp =
     Option.bind (exec route i grow op bp) (\<lambda>(bp, out). map_option (\<lambda>(bp, outs). (bp, out # outs)) (run route cs bp))"

fun run_permitted :: "(u32 \<Rightarrow> nat) \<Rightarrow> PageID set \<Rightarrow> pool_call list \<Rightarrow> BufferPool \<Rightarrow> bool" where
  "run_permitted route touched [] bp \<longleftrightarrow> True"
| "run_permitted route touched ((i, grow, op) # cs) bp \<longleftrightarrow> permitted touched bp op
     \<and> (\<forall>bp' out. exec route i grow op bp = Some (bp', out) \<longrightarrow> run_permitted route (touch op touched) cs bp')"

definition stores_to :: "PageID \<Rightarrow> pool_op \<Rightarrow> bool" where
  "stores_to pid op \<longleftrightarrow> (\<exists>f. op = OStore pid f)"

lemma store_step_other:
  "store_step A op out A' \<Longrightarrow> \<not> stores_to pid op \<Longrightarrow> A pid = Some c \<Longrightarrow> A' pid = Some c"
  by (cases "(A, op, out, A')" rule: store_step.cases)
     (auto simp: stores_to_def map_le_def dom_def fun_upd_def split: if_splits)

lemma run_keeps_content:
  assumes "bp_wf route touched bp" and "run_permitted route touched (cs @ [(i, grow, OFetch pid)]) bp"
    and "\<forall>(i, grow, op) \<in> set cs. \<not> stores_to pid op" and "bp_view route bp pid = Some c"
  shows "\<exists>bp' outs out. run route (cs @ [(i, grow, OFetch pid)]) bp = Some (bp', outs @ [out])
    \<and> length outs = length cs \<and> (\<forall>q. out = Some q \<longrightarrow> sans_checksum q = c)"
  using assms
proof (induction cs arbitrary: bp touched)
  case Nil
  obtain bp' out where "exec route i grow (OFetch pid) bp = Some (bp', out)"
      "store_step (bp_view route bp) (OFetch pid) out (bp_view route bp')"
    using exec_step [OF Nil.prems(1), of "OFetch pid" i grow] by auto
  then show ?case using Nil.prems(4)
    by (cases out) (auto simp: map_le_def dom_def simp del: exec.simps)
next
  case (Cons call cs)
  obtain j g op where call: "call = (j, g, op)" by (cases call) auto
  obtain bp1 out1 where e: "exec route j g op bp = Some (bp1, out1)" "bp_wf route (touch op touched) bp1"
      "store_step (bp_view route bp) op out1 (bp_view route bp1)"
    using exec_step [OF Cons.prems(1), of op j g] Cons.prems(2) call by auto
  have "bp_view route bp1 pid = Some c"
    using store_step_other [OF e(3)] Cons.prems(3,4) call by auto
  moreover have "run_permitted route (touch op touched) (cs @ [(i, grow, OFetch pid)]) bp1"
    using Cons.prems(2) e(1) call by simp
  moreover have "\<forall>(i, grow, op) \<in> set cs. \<not> stores_to pid op" using Cons.prems(3) by simp
  ultimately obtain bp' outs out where
      "run route (cs @ [(i, grow, OFetch pid)]) bp1 = Some (bp', outs @ [out])" "length outs = length cs"
      "\<forall>q. out = Some q \<longrightarrow> sans_checksum q = c"
    using Cons.IH [OF e(2)] by blast
  then show ?case using e(1) call
    by (intro exI [of _ bp'] exI [of _ "out1 # outs"] exI [of _ out]) simp
qed



section \<open>A pool to start from\<close>

lemma frames_New: "frames_ok (NewBufferPool n hs)"
proof -
  define m where "m = (if n \<le> 0 then defaultBufferPoolCapacity else nat n)"
  have m: "0 < m" by (simp add: m_def defaultBufferPoolCapacity_def)
  have "set (map (\<lambda>i. m - 1 - i) [0 ..< m]) = {i. i < m}"
  proof
    show "{i. i < m} \<subseteq> set (map (\<lambda>i. m - 1 - i) [0 ..< m])"
    proof
      fix i assume "i \<in> {i. i < m}"
      then show "i \<in> set (map (\<lambda>i. m - 1 - i) [0 ..< m])"
        by (auto intro!: image_eqI [of _ _ "m - 1 - i"])
    qed
  qed (use m in auto)
  moreover have "distinct (map (\<lambda>i. m - 1 - i) [0 ..< m])" by (auto simp: distinct_map inj_on_def)
  ultimately show ?thesis using m by (auto simp: frames_ok_def NewBufferPool_def Let_def m_def [symmetric])
qed

lemma NewBufferPool_wf: "db_ok route hs \<Longrightarrow> bp_wf route {} (NewBufferPool n hs)"
  using frames_New [of n hs]
  by (simp add: bp_wf_def entries_def cached_entry_def NewBufferPool_def Let_def)

definition demo_pid :: PageID where
  "demo_pid = \<lparr>TableID = 3, SegmentNo = 0, PageNo = 0\<rparr>"

lemma demo_pool:
  "\<exists>hs bp e. db_ok unat hs \<and> bp_wf unat {} bp \<and> bp_capacity bp = 1 \<and> bp_wal bp = None \<and> heaps bp = hs
     \<and> FetchPage ok_io (\<lambda>_. True) demo_pid 3 [] (NewBufferPool 1 hs) = Some (bp, Inr 0)
     \<and> cached_entry bp demo_pid = Some (0, e) \<and> pinCnt e = 1 \<and> usageCount e = 1 \<and> \<not> dirty e
     \<and> be_page e = SetChecksum (Init 1)"
proof -
  define hf0 where "hf0 = \<lparr>segments = [[]], hf_closed = False, cachedPageCount = 0, pageCountValid = True, hf_tde = None\<rparr>"
  have "heap_open hf0" "has_segment hf0 demo_pid"
    by (simp_all add: heap_open_def has_segment_def hf0_def demo_pid_def)
  define hf where "hf = put_page hf0 demo_pid (stored_form hf0 demo_pid (SetChecksum (Init 1)))"
  have rd: "ReadPage hf demo_pid (replicate PageSize 0) = (SetChecksum (Init 1), Inr ())"
    unfolding hf_def using \<open>heap_open hf0\<close> \<open>has_segment hf0 demo_pid\<close>
    by (intro put_page_read) (simp_all add: VerifyChecksum_SetChecksum)
  define hs where "hs = (\<lambda>h :: nat. hf)"
  have ok: "db_ok unat hs" using \<open>heap_open hf0\<close> by (simp add: db_ok_def hs_def hf_def inj_def word_unat_eq_iff)
  have rd3: "ReadPage (hs 3) demo_pid (replicate PageSize 0) = (SetChecksum (Init 1), Inr ())" using rd by (simp add: hs_def)
  define e where "e = new_entry demo_pid (SetChecksum (Init 1)) 3 1 False []"
  define bp where "bp = install 0 e ((NewBufferPool 1 hs)\<lparr>freeSlots := []\<rparr>)"
  have new: "bp_cache (NewBufferPool 1 hs) = Map.empty" "heaps (NewBufferPool 1 hs) = hs"
      "freeSlots (NewBufferPool 1 hs) = [0]" "bp_count (NewBufferPool 1 hs) = 0" "bp_capacity (NewBufferPool 1 hs) = 1"
    by (simp_all add: NewBufferPool_def)
  have "make_room ok_io (\<lambda>_. True) (NewBufferPool 1 hs) = Some (NewBufferPool 1 hs, Inr ())"
    by (subst make_room.simps) (simp add: new)
  then have ins: "insert_entry ok_io (\<lambda>_. True) e (NewBufferPool 1 hs) = Some (bp, Inr 0)"
    by (simp add: insert_entry_def findEmptySlot_def new bp_def)
  have f: "FetchPage ok_io (\<lambda>_. True) demo_pid 3 [] (NewBufferPool 1 hs) = Some (bp, Inr 0)"
    using rd3 ins by (simp add: FetchPage_def cached_entry_def new e_def)
  have "FetchPage ok_io (\<lambda>_. True) demo_pid (unat (TableID demo_pid)) [] (NewBufferPool 1 hs) = Some (bp, Inr 0)"
    using f by (simp add: demo_pid_def)
  then have "bp_wf unat {} bp" using FetchPage_post [OF NewBufferPool_wf [OF ok], of ok_io "\<lambda>_. True" demo_pid "[]" 1] by auto
  moreover have "cached_entry bp demo_pid = Some (0, e)"
    by (simp add: cached_entry_def bp_def install_def e_def NewBufferPool_def)
  ultimately show ?thesis using ok f
    by (intro exI [of _ hs] exI [of _ bp] exI [of _ e]) (simp add: bp_def install_def e_def NewBufferPool_def)
qed



section \<open>The clock sweep\<close>

text \<open>\<open>visits c n h j\<close>: how often the hand passes frame \<open>j\<close> in \<open>n\<close> steps from \<open>h\<close>, with \<open>c\<close> frames.\<close>

fun visits :: "nat \<Rightarrow> nat \<Rightarrow> nat \<Rightarrow> nat \<Rightarrow> nat" where
  "visits c 0 h j = 0"
| "visits c (Suc n) h j = (if h = j then 1 else 0) + visits c n (Suc h mod c) j"

lemma visits_add: "h < c \<Longrightarrow> visits c (m + n) h j = visits c m h j + visits c n ((h + m) mod c) j"
proof (induction m arbitrary: h)
  case (Suc m)
  have "(Suc h mod c + m) mod c = (h + Suc m) mod c" by (simp add: mod_add_left_eq)
  then show ?case using Suc by simp
qed simp

lemma visits_before: "h + n \<le> c \<Longrightarrow> visits c n h j = (if h \<le> j \<and> j < h + n then 1 else 0)"
proof (induction n arbitrary: h)
  case (Suc n)
  show ?case
  proof (cases "Suc h < c")
    case True
    then show ?thesis using Suc by auto
  next
    case False
    then have "n = 0" using Suc.prems by simp
    then show ?thesis by auto
  qed
qed simp

lemma visits_round: "h < c \<Longrightarrow> j < c \<Longrightarrow> visits c c h j = 1"
proof -
  assume a: "h < c" "j < c"
  have "visits c ((c - h) + h) h j = visits c (c - h) h j + visits c h ((h + (c - h)) mod c) j"
    by (rule visits_add [OF a(1)])
  then have "visits c c h j = visits c (c - h) h j + visits c h 0 j" using a by simp
  then show ?thesis using a visits_before [of h "c - h" c j] visits_before [of 0 h c j] by auto
qed

lemma visits_two_rounds: "h < c \<Longrightarrow> j < c \<Longrightarrow> visits c (c * 2) h j = 2"
  using visits_add [of h c c c j] visits_round [of h c j] by (simp add: mult_2_right)

definition sweepable :: "BufferPool \<Rightarrow> bool" where
  "sweepable bp \<longleftrightarrow> clockHand bp < bp_capacity bp \<and> length (buffers bp) = bp_capacity bp
     \<and> (\<forall>j < bp_capacity bp. \<exists>e. buffers bp ! j = Some e \<and> (0 < pinCnt e \<or> \<not> dirty e))"

text \<open>A frame is taken in \<open>n\<close> steps if its page is unpinned and the hand passes it more often than its usage count.\<close>

definition frame_taken :: "nat \<Rightarrow> nat \<Rightarrow> nat \<Rightarrow> nat \<Rightarrow> bufferEntry option \<Rightarrow> bool" where
  "frame_taken c n h j b = (case b of None \<Rightarrow> False
     | Some e \<Rightarrow> \<not> 0 < pinCnt e \<and> unat (usageCount e) < visits c n h j)"

definition taken_within :: "nat \<Rightarrow> BufferPool \<Rightarrow> bool" where
  "taken_within n bp \<longleftrightarrow> (\<exists>j < bp_capacity bp. frame_taken (bp_capacity bp) n (clockHand bp) j (buffers bp ! j))"

lemma taken_within_step:
  assumes "bp_capacity bp' = bp_capacity bp" and "clockHand bp' = Suc (clockHand bp) mod bp_capacity bp"
    and "\<And>j. j < bp_capacity bp \<Longrightarrow> frame_taken (bp_capacity bp) n (Suc (clockHand bp) mod bp_capacity bp) j (buffers bp' ! j)
      = frame_taken (bp_capacity bp) (Suc n) (clockHand bp) j (buffers bp ! j)"
  shows "taken_within n bp' = taken_within (Suc n) bp"
  using assms by (auto simp: taken_within_def)

lemma evict_loop_sweep:
  assumes "sweepable bp"
  shows "snd (evict_loop i grow n None bp) = (if taken_within n bp then Inr () else Inl ErrAllPinned)"
  using assms
proof (induction n arbitrary: bp)
  case 0
  then show ?case by (auto simp: taken_within_def frame_taken_def split: option.splits)
next
  case (Suc n)
  define idx where "idx = clockHand bp"
  define bp1 where "bp1 = bp\<lparr>clockHand := Suc idx mod bp_capacity bp\<rparr>"
  have idx: "idx < bp_capacity bp" "length (buffers bp) = bp_capacity bp" using Suc.prems by (simp_all add: sweepable_def idx_def)
  obtain e where e: "buffers bp ! idx = Some e" "0 < pinCnt e \<or> \<not> dirty e" using Suc.prems idx by (auto simp: sweepable_def)
  have unf: "evict_loop i grow (Suc n) None bp =
      (if 0 < pinCnt e then evict_loop i grow n None bp1
       else if 0 < usageCount e then evict_loop i grow n None (set_entry idx (e\<lparr>usageCount := usageCount e - 1\<rparr>) bp1)
       else (release idx (be_pid e) bp1, Inr ()))"
    using e by (auto simp: Let_def idx_def [symmetric] bp1_def)
  consider "0 < pinCnt e" | "\<not> 0 < pinCnt e" "0 < usageCount e" | "\<not> 0 < pinCnt e" "\<not> 0 < usageCount e" by blast
  then show ?case
  proof cases
    case 1
    have "taken_within n bp1 = taken_within (Suc n) bp"
      by (rule taken_within_step) (use e(1) 1 in \<open>auto simp: bp1_def idx_def frame_taken_def split: option.splits\<close>)
    moreover have "sweepable bp1" using Suc.prems idx by (simp add: sweepable_def bp1_def)
    ultimately show ?thesis using Suc.IH [of bp1] 1 unfolding unf by simp
  next
    case 2
    let ?e = "e\<lparr>usageCount := usageCount e - 1\<rparr>" and ?bp = "set_entry idx (e\<lparr>usageCount := usageCount e - 1\<rparr>) bp1"
    have u: "unat (usageCount e - 1) = unat (usageCount e) - 1" "0 < unat (usageCount e)"
      using 2(2) by (auto simp: word_less_nat_alt unat_sub_if')
    have b: "buffers ?bp ! j = (if j = idx then Some ?e else buffers bp ! j)" if "j < bp_capacity bp" for j
      using that idx by (simp add: set_entry_def bp1_def nth_list_update)
    have "taken_within n ?bp = taken_within (Suc n) bp"
    proof (rule taken_within_step)
      fix j assume j: "j < bp_capacity bp"
      show "frame_taken (bp_capacity bp) n (Suc (clockHand bp) mod bp_capacity bp) j (buffers ?bp ! j)
          = frame_taken (bp_capacity bp) (Suc n) (clockHand bp) j (buffers bp ! j)"
        unfolding b [OF j] idx_def [symmetric] using e(1) 2(1) u
        by (cases "j = idx") (auto simp: frame_taken_def split: option.splits)
    qed (simp_all add: bp1_def idx_def)
    moreover have "sweepable ?bp"
      using Suc.prems idx b e(2) 2(1) by (auto simp: sweepable_def bp1_def set_entry_def nth_list_update)
    ultimately show ?thesis using Suc.IH [of ?bp] 2 unfolding unf by simp
  next
    case 3
    have "unat (usageCount e) = 0" using 3(2) by (simp add: word_less_nat_alt)
    then have "taken_within (Suc n) bp"
      unfolding taken_within_def using e(1) 3(1) idx by (intro exI [of _ idx]) (simp add: idx_def frame_taken_def)
    then show ?thesis using 3 unfolding unf by simp
  qed
qed

text \<open>
  When the pool is full and no unpinned page is dirty, \<open>evict\<close> finds a victim exactly if some unpinned page
  has a usage count of at most one. Usage counts go up to five, so with every page unpinned and a count of
  two or more it still reports that all pages are pinned.
\<close>

theorem evict_finds_victim:
  assumes "frames_ok bp" and "freeSlots bp = []"
    and "\<forall>j < bp_capacity bp. \<forall>e. buffers bp ! j = Some e \<longrightarrow> 0 < pinCnt e \<or> \<not> dirty e"
  shows "snd (evict i grow bp) = (if \<exists>j < bp_capacity bp. \<exists>e. buffers bp ! j = Some e \<and> \<not> 0 < pinCnt e \<and> usageCount e \<le> 1
    then Inr () else Inl ErrAllPinned)"
proof -
  have c: "clockHand bp < bp_capacity bp" "length (buffers bp) = bp_capacity bp"
    using assms(1) by (simp_all add: frames_ok_def)
  have full: "buffers bp ! j \<noteq> None" if "j < bp_capacity bp" for j
    using that assms(1,2) by (auto simp: frames_ok_def)
  have "\<exists>e. buffers bp ! j = Some e \<and> (0 < pinCnt e \<or> \<not> dirty e)" if "j < bp_capacity bp" for j
    using full [OF that] assms(3) that by (cases "buffers bp ! j") auto
  then have "sweepable bp" using c by (simp add: sweepable_def)
  note sweep = evict_loop_sweep [OF this, of i grow "bp_capacity bp * 2"]
  have two: "unat (u :: u8) < 2 \<longleftrightarrow> u \<le> 1" for u by (auto simp: word_le_nat_alt)
  have "frame_taken (bp_capacity bp) (bp_capacity bp * 2) (clockHand bp) j (buffers bp ! j)
      \<longleftrightarrow> (\<exists>e. buffers bp ! j = Some e \<and> \<not> 0 < pinCnt e \<and> usageCount e \<le> 1)" if "j < bp_capacity bp" for j
    using visits_two_rounds [OF c(1) that] by (auto simp: frame_taken_def two split: option.splits)
  then show ?thesis using sweep by (simp add: evict_def taken_within_def cong: conj_cong)
qed

theorem evict_finds_victim_witness:
  "\<exists>bp. frames_ok bp \<and> bp_capacity bp = 1
     \<and> (\<forall>j < bp_capacity bp. \<exists>e. buffers bp ! j = Some e \<and> pinCnt e = 0)
     \<and> snd (evict ok_io (\<lambda>_. True) bp) = Inl ErrAllPinned"
proof -
  define e where "e = (new_entry demo_pid [] 3 0 False [])\<lparr>usageCount := 2\<rparr>"
  define bp where "bp = \<lparr>bp_capacity = 1, bp_cache = [demo_pid \<mapsto> 0], buffers = [Some e], freeSlots = [], clockHand = 0,
     bp_count = 1, bp_wal = None, heaps = \<lambda>_. \<lparr>segments = [[]], hf_closed = False, cachedPageCount = 0,
     pageCountValid = True, hf_tde = None\<rparr>\<rparr>"
  have p: "be_pid e = demo_pid" "pinCnt e = 0" "usageCount e = 2" "\<not> dirty e" by (simp_all add: e_def)
  have f: "frames_ok bp" by (auto simp: frames_ok_def bp_def p)
  have "snd (evict ok_io (\<lambda>_. True) bp) = Inl ErrAllPinned"
    using evict_finds_victim [OF f, of ok_io "\<lambda>_. True"] by (simp add: bp_def p word_le_nat_alt)
  then show ?thesis using f p by (intro exI [of _ bp]) (simp add: bp_def)
qed

section \<open>Invalidation, prefetching and table numbers\<close>

text \<open>Dropping pages keeps the frames in order; it loses the changes of dirty pages, by intent.\<close>

lemma drop_where_frames: "frames_ok bp \<Longrightarrow> i < bp_capacity bp \<Longrightarrow> frames_ok (drop_where sel i bp) \<and> bp_capacity (drop_where sel i bp) = bp_capacity bp"
  using frames_release(1) [of bp i] by (auto simp: drop_where_def split: option.splits)

lemma fold_drop_frames:
  "frames_ok bp \<Longrightarrow> \<forall>i \<in> set idxs. i < bp_capacity bp \<Longrightarrow> frames_ok (fold (drop_where sel) idxs bp)"
proof (induction idxs arbitrary: bp)
  case (Cons i idxs)
  then show ?case using drop_where_frames [of bp i sel] by simp
qed simp

lemma Invalidate_frames:
  assumes "frames_ok bp"
  shows "frames_ok (InvalidateTable t bp)" and "frames_ok (InvalidateTableForce t bp)" and "frames_ok (InvalidatePage pid bp)"
proof -
  show "frames_ok (InvalidateTable t bp)" and "frames_ok (InvalidateTableForce t bp)"
    unfolding InvalidateTable_def InvalidateTableForce_def by (rule fold_drop_frames; use assms in simp)+
  show "frames_ok (InvalidatePage pid bp)"
    using assms cached_entry_Some [OF assms, of pid] frames_release(1) [OF assms]
    by (auto simp: InvalidatePage_def split: option.splits)
qed

text \<open>
  The disk read of \<open>PrefetchPages\<close> is outside the lock: whatever page it read is what a later fetch gives,
  even if the heap file holds a newer one by then.
\<close>

lemma prefetch_serves_stale:
  assumes "frames_ok bp" and "bp_cache bp pid = None" and "bp_count bp < int (bp_capacity bp)"
  shows "\<exists>bp' bp'' idx e. prefetch_insert i grow pid old h bp = Some (bp', Inr ())
    \<and> FetchPage i grow pid h dt bp' = Some (bp'', Inr idx) \<and> buffers bp'' ! idx = Some e \<and> be_page e = old"
proof -
  let ?e = "new_entry pid old h 0 False []"
  obtain idx where s: "findEmptySlot bp = (bp\<lparr>freeSlots := butlast (freeSlots bp)\<rparr>, Inr idx)" "freeSlots bp \<noteq> []"
      "idx = last (freeSlots bp)" "idx < bp_capacity bp"
    using findEmptySlot_ok [OF assms(1,3)] by auto
  define bp' where "bp' = install idx ?e (bp\<lparr>freeSlots := butlast (freeSlots bp)\<rparr>)"
  note f = frames_install [OF assms(1) s(2,3), of ?e, folded bp'_def]
  have "make_room i grow bp = Some (bp, Inr ())" using assms(3) by (subst make_room.simps) simp
  then have "prefetch_insert i grow pid old h bp = Some (bp', Inr ())"
    using assms(2) s(1) by (simp add: prefetch_insert_def insert_entry_def bp'_def)
  moreover have c: "cached_entry bp' pid = Some (idx, ?e)" using f(2) assms(2) by simp
  then have "FetchPage i grow pid h dt bp' = Some (set_entry idx (Reference (?e\<lparr>pinCnt := 1\<rparr>)) bp', Inr idx)"
    by (simp add: FetchPage_def)
  moreover have "idx < length (buffers bp')"
    using assms(1) s(4) by (simp add: bp'_def install_def frames_ok_def)
  then have "buffers (set_entry idx (Reference (?e\<lparr>pinCnt := 1\<rparr>)) bp') ! idx = Some (Reference (?e\<lparr>pinCnt := 1\<rparr>))"
    by (simp add: set_entry_def)
  ultimately show ?thesis by fastforce
qed

text \<open>A page in the cache is given to the caller whatever heap file it names.\<close>

lemma FetchPage_ignores_heap:
  "cached_entry bp pid = Some x \<Longrightarrow> FetchPage i grow pid h dt bp = FetchPage i grow pid h' dt bp"
  by (cases x) (simp add: FetchPage_def)

text \<open>
  The number of a table is a 32-bit hash of its path and is not unique: two tables of one database whose
  names have six letters have the same number. Their pages then share their place in the buffer pool.
\<close>

theorem tableIDFromPath_not_unique:
  "tableIDFromPath (map (of_char :: char \<Rightarrow> u8) ''data/app/hbphlu'') = tableIDFromPath (map of_char ''data/app/uguujg'')"
  by code_simp

end
