(* ===== verification/Lock_Order.thy ===== *)
theory Lock_Order
  imports Main
begin

text \<open>
  Goroutines that lock several mutexes one after the other and unlock them all together: \<open>LockTable\<close> and
  \<open>UnlockTable\<close> of \<^verbatim>\<open>storage/page_lock.go\<close> on stripes, \<open>lockTables\<close> of \<^verbatim>\<open>txmanager/manager.go\<close> on
  table keys. A call with argument \<open>x\<close> locks the mutexes \<open>plan x\<close> in this order.
\<close>

text \<open>\<open>tl_owner\<close> maps a mutex to the goroutine that has it; \<open>todo t\<close> are the mutexes that \<open>t\<close> still has to lock.\<close>

record 'k table_locks =
  tl_owner :: "'k \<rightharpoonup> nat"
  todo :: "nat \<Rightarrow> 'k list"

definition unlock_all :: "'k list \<Rightarrow> ('k \<rightharpoonup> nat) \<Rightarrow> 'k \<rightharpoonup> nat" where
  "unlock_all hs owner = fold (\<lambda>h owner. owner(h := None)) hs owner"

text \<open>A step locks one free mutex; a goroutine whose mutex is taken blocks.\<close>

inductive plan_step :: "('a \<Rightarrow> 'k list) \<Rightarrow> 'k table_locks \<Rightarrow> 'k table_locks \<Rightarrow> bool" for plan where
  call: "todo s t = [] \<Longrightarrow> t \<notin> ran (tl_owner s) \<Longrightarrow> plan_step plan s (s\<lparr>todo := (todo s)(t := plan x)\<rparr>)"
| lock: "todo s t = h # hs \<Longrightarrow> tl_owner s h = None \<Longrightarrow>
     plan_step plan s (s\<lparr>tl_owner := (tl_owner s)(h \<mapsto> t), todo := (todo s)(t := hs)\<rparr>)"
| unlock: "todo s t = [] \<Longrightarrow> {h. tl_owner s h = Some t} = set (plan x) \<Longrightarrow>
     plan_step plan s (s\<lparr>tl_owner := unlock_all (plan x) (tl_owner s)\<rparr>)"

abbreviation no_locks :: "'k table_locks" where
  "no_locks \<equiv> \<lparr>tl_owner = Map.empty, todo = \<lambda>_. []\<rparr>"

lemma unlock_all_eq: "unlock_all hs owner = (\<lambda>h. if h \<in> set hs then None else owner h)"
proof -
  have "fold (\<lambda>h owner. owner(h := None)) hs owner = (\<lambda>h. if h \<in> set hs then None else owner h)"
    by (induction hs arbitrary: owner) auto
  then show ?thesis by (simp add: unlock_all_def)
qed

text \<open>Lock order: what a goroutine still has to lock is sorted and lies above everything it has.\<close>

definition lock_ordered :: "'k::linorder table_locks \<Rightarrow> bool" where
  "lock_ordered s \<longleftrightarrow> finite (dom (tl_owner s)) \<and> (\<forall>t. sorted (todo s t) \<and> distinct (todo s t)
     \<and> (\<forall>h k. tl_owner s h = Some t \<longrightarrow> k \<in> set (todo s t) \<longrightarrow> h < k))"

text \<open>The contract: every call locks its mutexes in increasing order, each once.\<close>

locale lock_plan =
  fixes plan :: "'a \<Rightarrow> 'k::linorder list"
  assumes plan_sorted: "sorted (plan x)" and plan_distinct: "distinct (plan x)"
begin

lemma step_ordered: "plan_step plan s s' \<Longrightarrow> lock_ordered s \<Longrightarrow> lock_ordered s'"
proof (induction rule: plan_step.induct)
  case (call s t x)
  then show ?case by (auto simp: lock_ordered_def plan_sorted plan_distinct ran_def)
next
  case (lock s t h hs)
  have o: "sorted (h # hs)" "distinct (h # hs)" using lock by (metis lock_ordered_def)+
  have "\<forall>k l. tl_owner s k = Some t \<longrightarrow> l \<in> set hs \<longrightarrow> k < l" using lock by (auto simp: lock_ordered_def)
  moreover have "\<forall>l \<in> set hs. h < l" using o by (auto simp: order.strict_iff_order)
  ultimately show ?case using lock o by (auto simp: lock_ordered_def)
next
  case (unlock s t x)
  moreover have "finite (dom (unlock_all (plan x) (tl_owner s)))" if "finite (dom (tl_owner s))"
    by (rule finite_subset [OF _ that]) (auto simp: unlock_all_eq split: if_splits)
  ultimately show ?case by (auto simp: lock_ordered_def unlock_all_eq split: if_splits)
qed

lemma reach_ordered: "(plan_step plan)\<^sup>*\<^sup>* no_locks s \<Longrightarrow> lock_ordered s"
  by (induction rule: rtranclp_induct) (auto simp: lock_ordered_def [of no_locks] intro: step_ordered)

lemma not_stuck:
  assumes "(plan_step plan)\<^sup>*\<^sup>* no_locks s" and "todo s t \<noteq> []"
  shows "(\<exists>u h hs. todo s u = h # hs \<and> tl_owner s h = None) \<or> (\<exists>u h. tl_owner s h = Some u \<and> todo s u = [])"
proof (cases "dom (tl_owner s) = {}")
  case True
  then show ?thesis using assms(2) by (cases "todo s t") auto
next
  case False
  have o: "lock_ordered s" by (rule reach_ordered [OF assms(1)])
  then have fin: "finite (dom (tl_owner s))" by (simp add: lock_ordered_def)
  define M where "M = Max (dom (tl_owner s))"
  have "M \<in> dom (tl_owner s)" using False Max_in [OF fin] by (simp add: M_def)
  then obtain u where u: "tl_owner s M = Some u" by blast
  show ?thesis
  proof (cases "todo s u")
    case Nil
    then show ?thesis using u by blast
  next
    case (Cons h hs)
    then have "M < h" using u o by (auto simp: lock_ordered_def)
    then have "h \<notin> dom (tl_owner s)" using Max_ge [OF fin, of h] unfolding M_def by (meson leD)
    then show ?thesis using Cons by (auto simp: domIff)
  qed
qed

end

end
