(* ===== verification/Locks.thy ===== *)
theory Locks
  imports Page Lock_Order "HOL-Library.Multiset"
begin

text \<open>
  The locks of the storage engine: row locks (\<^verbatim>\<open>storage/lock_manager.go\<close>), the wait-for graph
  (\<^verbatim>\<open>storage/deadlock.go\<close>), the spin locks (\<^verbatim>\<open>storage/lwlock.go\<close>), the striped page locks
  (\<^verbatim>\<open>storage/page_lock.go\<close>) and the predicate locks (\<^verbatim>\<open>storage/predicate.go\<close>).

  Where goroutines run concurrently the model is a step relation: a step is what one goroutine does
  while it holds the mutex, or one atomic instruction.
\<close>

unbundle bit_operations_syntax

section \<open>Row locks\<close>

text \<open>
  An entry of the lock table is an object of its own: a goroutine that waits keeps its pointer to the
  entry. Pointers are numbers, \<open>lm_entries\<close> gives the owners of the entry behind each, \<open>lm_next\<close> is the next
  fresh pointer, and \<open>lm_locks\<close> is the Go map from keys to entries, as a list of pairs.
\<close>

datatype LockMode = LockModeNone | LockModeShare | LockModeUpdate

fun mode_rank :: "LockMode \<Rightarrow> nat" where
  "mode_rank LockModeNone = 0" | "mode_rank LockModeShare = 1" | "mode_rank LockModeUpdate = 2"

record RowLock =
  Mode :: LockMode
  OwnerTx :: u64

record LockManager =
  lm_locks :: "(string \<times> nat) list"
  lm_entries :: "nat \<Rightarrow> RowLock list"
  lm_next :: nat

definition NewLockManager :: LockManager where
  "NewLockManager = \<lparr>lm_locks = [], lm_entries = \<lambda>_. [], lm_next = 0\<rparr>"

fun canAcquire :: "RowLock list \<Rightarrow> u64 \<Rightarrow> LockMode \<Rightarrow> bool" where
  "canAcquire [] txID mode = True"
| "canAcquire (r # owners) txID mode =
     (if OwnerTx r = txID then canAcquire owners txID mode
      else if Mode r = LockModeUpdate \<or> mode = LockModeUpdate then False
      else canAcquire owners txID mode)"

text \<open>The owners after the lock is granted: an owner's mode is raised, a new owner is appended.\<close>

fun upgrade :: "RowLock list \<Rightarrow> u64 \<Rightarrow> LockMode \<Rightarrow> RowLock list option" where
  "upgrade [] txID mode = None"
| "upgrade (r # owners) txID mode =
     (if OwnerTx r = txID
      then Some ((if mode_rank (Mode r) < mode_rank mode then r\<lparr>Mode := mode\<rparr> else r) # owners)
      else map_option (Cons r) (upgrade owners txID mode))"

definition grant :: "RowLock list \<Rightarrow> u64 \<Rightarrow> LockMode \<Rightarrow> RowLock list" where
  "grant owners txID mode =
     (case upgrade owners txID mode of Some os \<Rightarrow> os | None \<Rightarrow> owners @ [\<lparr>Mode = mode, OwnerTx = txID\<rparr>])"

text \<open>The first part of \<open>Acquire\<close>: the entry of the key, which is created if there is none.\<close>

definition lookup_entry :: "string \<Rightarrow> LockManager \<Rightarrow> nat \<times> LockManager" where
  "lookup_entry key lm =
     (case map_of (lm_locks lm) key of
        Some a \<Rightarrow> (a, lm)
      | None \<Rightarrow> (lm_next lm, lm\<lparr>lm_locks := (key, lm_next lm) # lm_locks lm,
                  lm_entries := (lm_entries lm)(lm_next lm := []), lm_next := lm_next lm + 1\<rparr>))"

text \<open>The loop test of \<open>Acquire\<close>: the lock is granted, or the goroutine waits on the condition of the entry.\<close>

definition try_grant :: "nat \<Rightarrow> u64 \<Rightarrow> LockMode \<Rightarrow> LockManager \<Rightarrow> LockManager option" where
  "try_grant a txID mode lm =
     (if canAcquire (lm_entries lm a) txID mode
      then Some (lm\<lparr>lm_entries := (lm_entries lm)(a := grant (lm_entries lm a) txID mode)\<rparr>) else None)"

definition released :: "u64 \<Rightarrow> RowLock list \<Rightarrow> bool" where
  "released txID owners \<longleftrightarrow> (\<exists>r \<in> set owners. OwnerTx r = txID)"

text \<open>\<open>ReleaseAll\<close> gives the entries whose waiters it wakes. It deletes an entry from the map when it has no owner left.\<close>

definition ReleaseAll :: "u64 \<Rightarrow> LockManager \<Rightarrow> LockManager \<times> nat list" where
  "ReleaseAll txID l =
     (let hit = filter (\<lambda>a. released txID (lm_entries l a)) (map snd (lm_locks l));
          es = (\<lambda>a. if a \<in> set hit then filter (\<lambda>r. OwnerTx r \<noteq> txID) (lm_entries l a) else lm_entries l a)
      in (l\<lparr>lm_entries := es, lm_locks := filter (\<lambda>(key, a). \<not> (a \<in> set hit \<and> es a = [])) (lm_locks l)\<rparr>, hit))"

text \<open>
  The system of goroutines: who waits where (and has been signalled), and which calls of \<open>Acquire\<close> have
  returned and not been released (\<open>held\<close>, a ghost).
\<close>

record waiter =
  w_tx :: u64
  w_key :: string
  w_mode :: LockMode
  w_entry :: nat
  w_signalled :: bool

record lock_system =
  lm :: LockManager
  waiters :: "waiter list"
  held :: "(u64 \<times> string \<times> LockMode) set"

definition lock_init :: lock_system where
  "lock_init = \<lparr>lm = NewLockManager, waiters = [], held = {}\<rparr>"

inductive lock_step :: "lock_system \<Rightarrow> lock_system \<Rightarrow> bool" where
  acquire_now: "lookup_entry key (lm s) = (a, l1) \<Longrightarrow> try_grant a tx mode l1 = Some l2 \<Longrightarrow>
     lock_step s (s\<lparr>lm := l2, held := insert (tx, key, mode) (held s)\<rparr>)"
| acquire_wait: "lookup_entry key (lm s) = (a, l1) \<Longrightarrow> try_grant a tx mode l1 = None \<Longrightarrow>
     lock_step s (s\<lparr>lm := l1, waiters := waiters s @ [\<lparr>w_tx = tx, w_key = key, w_mode = mode, w_entry = a, w_signalled = False\<rparr>]\<rparr>)"
| wake_grant: "i < length (waiters s) \<Longrightarrow> w = waiters s ! i \<Longrightarrow> w_signalled w \<Longrightarrow>
     try_grant (w_entry w) (w_tx w) (w_mode w) (lm s) = Some l1 \<Longrightarrow>
     lock_step s (s\<lparr>lm := l1, waiters := take i (waiters s) @ drop (Suc i) (waiters s),
       held := insert (w_tx w, w_key w, w_mode w) (held s)\<rparr>)"
| wake_again: "i < length (waiters s) \<Longrightarrow> w = waiters s ! i \<Longrightarrow> w_signalled w \<Longrightarrow>
     try_grant (w_entry w) (w_tx w) (w_mode w) (lm s) = None \<Longrightarrow>
     lock_step s (s\<lparr>waiters := (waiters s)[i := w\<lparr>w_signalled := False\<rparr>]\<rparr>)"
| release: "ReleaseAll tx (lm s) = (l1, woken) \<Longrightarrow>
     lock_step s (s\<lparr>lm := l1, waiters := map (\<lambda>w. if w_entry w \<in> set woken then w\<lparr>w_signalled := True\<rparr> else w) (waiters s),
       held := {(t, k, md) \<in> held s. t \<noteq> tx}\<rparr>)"

inductive lock_reach :: "lock_system \<Rightarrow> bool" where
  "lock_reach lock_init"
| "lock_reach s \<Longrightarrow> lock_step s s' \<Longrightarrow> lock_reach s'"

section \<open>The wait-for graph\<close>

text \<open>
  The graph is a Go map from a transaction to the list of those it waits for; a missing key reads as the
  empty list. The depth-first search threads the two maps \<^verbatim>\<open>visited\<close> and \<^verbatim>\<open>recursionStack\<close>; \<open>fuel\<close> bounds its depth
  (\<^const>\<open>None\<close> when it is used up; the number of transactions is always enough).
\<close>

type_synonym wfg = "u64 \<Rightarrow> u64 list"

fun dfs :: "nat \<Rightarrow> wfg \<Rightarrow> u64 \<Rightarrow> u64 set \<Rightarrow> u64 set \<Rightarrow> (bool \<times> u64 set \<times> u64 set) option"
  and dfs_list :: "nat \<Rightarrow> wfg \<Rightarrow> u64 list \<Rightarrow> u64 set \<Rightarrow> u64 set \<Rightarrow> (bool \<times> u64 set \<times> u64 set) option" where
  "dfs 0 g node visited stack = None"
| "dfs (Suc fuel) g node visited stack =
     Option.bind (dfs_list fuel g (g node) (insert node visited) (insert node stack)) (\<lambda>(found, visited, stack).
       Some (if found then (True, visited, stack) else (False, visited, stack - {node})))"
| "dfs_list fuel g [] visited stack = Some (False, visited, stack)"
| "dfs_list fuel g (neighbor # ns) visited stack =
     (if neighbor \<notin> visited
      then Option.bind (dfs fuel g neighbor visited stack) (\<lambda>(found, visited, stack).
             if found then Some (True, visited, stack) else dfs_list fuel g ns visited stack)
      else if neighbor \<in> stack then Some (True, visited, stack)
      else dfs_list fuel g ns visited stack)"

definition detectCycle :: "nat \<Rightarrow> wfg \<Rightarrow> u64 \<Rightarrow> bool option" where
  "detectCycle fuel g startNode = map_option fst (dfs fuel g startNode {} {})"

definition AddEdge :: "nat \<Rightarrow> u64 \<Rightarrow> u64 \<Rightarrow> wfg \<Rightarrow> wfg \<times> bool option" where
  "AddEdge fuel waiter holder g =
     (let g = g(waiter := g waiter @ [holder]) in (g, detectCycle fuel g waiter))"

definition RemoveEdge :: "u64 \<Rightarrow> u64 \<Rightarrow> wfg \<Rightarrow> wfg" where
  "RemoveEdge waiter holder g = g(waiter := remove1 holder (g waiter))"

definition RemoveNode :: "u64 \<Rightarrow> wfg \<Rightarrow> wfg" where
  "RemoveNode tx g = (\<lambda>n. if n = tx then [] else filter (\<lambda>h. h \<noteq> tx) (g n))"

section \<open>Spin locks\<close>

text \<open>
  What the operations do to the state word when they succeed. \<^const>\<open>None\<close> is another round of the loop for
  \<open>Lock\<close> and \<open>RLock\<close>, and a panic for \<open>RUnlock\<close> and \<open>LWRLock.Unlock\<close>.
\<close>

definition LWLock_Lock :: "u32 \<Rightarrow> u32 option" where
  "LWLock_Lock state = (if state = 0 then Some 1 else None)"

definition LWLock_Unlock :: "u32 \<Rightarrow> u32" where
  "LWLock_Unlock state = 0"

definition LWRLock_RLock :: "32 word \<Rightarrow> 32 word option" where
  "LWRLock_RLock s = (if 0 \<le>s s then Some (s + 1) else None)"

definition LWRLock_RUnlock :: "32 word \<Rightarrow> 32 word option" where
  "LWRLock_RUnlock s = (if 0 <s s then Some (s - 1) else None)"

definition LWRLock_Lock :: "32 word \<Rightarrow> 32 word option" where
  "LWRLock_Lock s = (if s = 0 then Some (- 1) else None)"

definition LWRLock_Unlock :: "32 word \<Rightarrow> 32 word option" where
  "LWRLock_Unlock s = (if s = - 1 then Some 0 else None)"

text \<open>
  A step is one atomic instruction that succeeds; one that fails leaves everything as it was. The sets of
  goroutines that hold the lock are ghosts. Only a goroutine that holds the lock unlocks it.
\<close>

record LWLock =
  lw_state :: u32
  lw_holders :: "nat set"

inductive lw_step :: "LWLock \<Rightarrow> LWLock \<Rightarrow> bool" where
  lw_lock: "LWLock_Lock (lw_state l) = Some s \<Longrightarrow> lw_step l (l\<lparr>lw_state := s, lw_holders := insert t (lw_holders l)\<rparr>)"
| lw_unlock: "t \<in> lw_holders l \<Longrightarrow> lw_step l (l\<lparr>lw_state := LWLock_Unlock (lw_state l), lw_holders := lw_holders l - {t}\<rparr>)"

record LWRLock =
  lwr_state :: "32 word"
  lwr_readers :: "nat set"
  lwr_writers :: "nat set"

inductive lwr_step :: "LWRLock \<Rightarrow> LWRLock \<Rightarrow> bool" where
  lwr_rlock: "t \<notin> lwr_readers l \<Longrightarrow> LWRLock_RLock (lwr_state l) = Some s \<Longrightarrow>
     lwr_step l (l\<lparr>lwr_state := s, lwr_readers := insert t (lwr_readers l)\<rparr>)"
| lwr_runlock: "t \<in> lwr_readers l \<Longrightarrow> LWRLock_RUnlock (lwr_state l) = Some s \<Longrightarrow>
     lwr_step l (l\<lparr>lwr_state := s, lwr_readers := lwr_readers l - {t}\<rparr>)"
| lwr_lock: "LWRLock_Lock (lwr_state l) = Some s \<Longrightarrow> lwr_step l (l\<lparr>lwr_state := s, lwr_writers := insert t (lwr_writers l)\<rparr>)"
| lwr_unlock: "t \<in> lwr_writers l \<Longrightarrow> LWRLock_Unlock (lwr_state l) = Some s \<Longrightarrow>
     lwr_step l (l\<lparr>lwr_state := s, lwr_writers := lwr_writers l - {t}\<rparr>)"

text \<open>The states in which never more than \<open>bound\<close> goroutines read at the same time.\<close>

inductive lwr_reach :: "nat \<Rightarrow> LWRLock \<Rightarrow> bool" for bound where
  "lwr_reach bound \<lparr>lwr_state = 0, lwr_readers = {}, lwr_writers = {}\<rparr>"
| "lwr_reach bound l \<Longrightarrow> lwr_step l l' \<Longrightarrow> card (lwr_readers l') \<le> bound \<Longrightarrow> lwr_reach bound l'"

section \<open>Page locks\<close>

definition numPageLocks :: u32 where "numPageLocks = 4096"

definition stripe :: "PageID \<Rightarrow> u32" where
  "stripe pid = ((TableID pid * 16777619) XOR (ucast (SegmentNo pid) * 1140071481) XOR (PageNo pid * 2654435761))
     mod numPageLocks"

text \<open>The stripes of \<open>LockTable\<close>: each once, in the order of their first page, then sorted by exchanging neighbours.\<close>

fun unique_stripes :: "PageID list \<Rightarrow> u32 set \<Rightarrow> u32 list" where
  "unique_stripes [] seen = []"
| "unique_stripes (pid # pids) seen =
     (if stripe pid \<in> seen then unique_stripes pids seen
      else stripe pid # unique_stripes pids (insert (stripe pid) seen))"

fun sift_down :: "nat \<Rightarrow> u32 list \<Rightarrow> u32 list" where
  "sift_down 0 hs = hs"
| "sift_down (Suc j) hs =
     (if hs ! Suc j < hs ! j then sift_down j (hs[Suc j := hs ! j, j := hs ! Suc j]) else hs)"

definition sort_stripes :: "u32 list \<Rightarrow> u32 list" where
  "sort_stripes hs = fold sift_down [1 ..< length hs] hs"

definition table_stripes :: "PageID list \<Rightarrow> u32 list" where
  "table_stripes pids = sort_stripes (unique_stripes pids {})"

text \<open>\<open>LockTable\<close> locks the stripes one after the other; \<open>owner\<close> maps a stripe to the goroutine that has it for writing.\<close>

definition UnlockTable :: "PageID list \<Rightarrow> (u32 \<rightharpoonup> nat) \<Rightarrow> u32 \<rightharpoonup> nat" where
  "UnlockTable pids owner = unlock_all (table_stripes pids) owner"

text \<open>Goroutines in \<open>LockTable\<close> and \<open>UnlockTable\<close>.\<close>

definition LockTable_step :: "u32 table_locks \<Rightarrow> u32 table_locks \<Rightarrow> bool" where
  "LockTable_step = plan_step table_stripes"

definition lessPageID :: "PageID \<Rightarrow> PageID \<Rightarrow> bool" where
  "lessPageID a b = (if SegmentNo a \<noteq> SegmentNo b then SegmentNo a < SegmentNo b else PageNo a < PageNo b)"

section \<open>Predicate locks\<close>

text \<open>
  Keys are strings of characters. \<^verbatim>\<open>string(rune(n))\<close> is the character with the code \<open>n\<close>, or the replacement
  character U+FFFD when \<open>n\<close> is a surrogate or not a code point; characters are given by their codes here.
\<close>

definition rune_string :: "u32 \<Rightarrow> nat list" where
  "rune_string n = [if (0xD800 \<le> n \<and> n \<le> 0xDFFF) \<or> n > 0x10FFFF then 0xFFFD else unat n]"

definition page_key :: "nat list \<Rightarrow> nat list \<Rightarrow> u32 \<Rightarrow> nat list" where
  "page_key db table pageNo = db @ [58] @ table @ [58] @ rune_string pageNo"

record PredicateLockManager =
  readDependencies :: "u64 \<Rightarrow> nat list set"
  indexRangeDependencies :: "u64 \<Rightarrow> nat list set"
  rwConflicts :: "(u64 \<times> u64) set"

definition NewPredicateLockManager :: PredicateLockManager where
  "NewPredicateLockManager = \<lparr>readDependencies = \<lambda>_. {}, indexRangeDependencies = \<lambda>_. {}, rwConflicts = {}\<rparr>"

definition AcquireIndexRangeSIReadLock ::
  "u64 \<Rightarrow> nat list \<Rightarrow> nat list \<Rightarrow> nat list \<Rightarrow> nat list \<Rightarrow> nat list \<Rightarrow> PredicateLockManager \<Rightarrow> PredicateLockManager" where
  "AcquireIndexRangeSIReadLock txID db table index startKey endKey pm =
     pm\<lparr>indexRangeDependencies := (indexRangeDependencies pm)(txID :=
        insert (db @ [47] @ table @ [47] @ index @ [47] @ startKey @ [47] @ endKey) (indexRangeDependencies pm txID))\<rparr>"

definition AcquireSIReadLock :: "u64 \<Rightarrow> nat list \<Rightarrow> nat list \<Rightarrow> u32 \<Rightarrow> PredicateLockManager \<Rightarrow> PredicateLockManager" where
  "AcquireSIReadLock txID db table pageNo pm =
     pm\<lparr>readDependencies := (readDependencies pm)(txID := insert (page_key db table pageNo) (readDependencies pm txID))\<rparr>"

definition CheckAndRecordConflict :: "u64 \<Rightarrow> nat list \<Rightarrow> nat list \<Rightarrow> u32 \<Rightarrow> PredicateLockManager \<Rightarrow> PredicateLockManager" where
  "CheckAndRecordConflict writingTxID db table pageNo pm =
     pm\<lparr>rwConflicts := rwConflicts pm \<union>
        {(r, w). w = writingTxID \<and> r \<noteq> writingTxID \<and> page_key db table pageNo \<in> readDependencies pm r}\<rparr>"

definition CheckSerializationFailure :: "u64 \<Rightarrow> PredicateLockManager \<Rightarrow> bool" where
  "CheckSerializationFailure txID pm \<longleftrightarrow> txID \<in> snd ` rwConflicts pm \<and> txID \<in> fst ` rwConflicts pm"

definition ReleaseLocks :: "u64 \<Rightarrow> PredicateLockManager \<Rightarrow> PredicateLockManager" where
  "ReleaseLocks txID pm =
     pm\<lparr>readDependencies := (readDependencies pm)(txID := {}),
        rwConflicts := {(r, w) \<in> rwConflicts pm. r \<noteq> txID \<and> w \<noteq> txID}\<rparr>"

section \<open>Row locks: what the entries guarantee\<close>

definition compat :: "RowLock list \<Rightarrow> bool" where
  "compat owners \<longleftrightarrow> distinct (map OwnerTx owners)
     \<and> (\<forall>r \<in> set owners. \<forall>r' \<in> set owners. OwnerTx r \<noteq> OwnerTx r' \<longrightarrow> Mode r \<noteq> LockModeUpdate)"

lemma compat_Nil [simp]: "compat []"
  by (simp add: compat_def)

lemma canAcquire_iff:
  "canAcquire owners tx mode \<longleftrightarrow> (\<forall>r \<in> set owners. OwnerTx r = tx \<or> (Mode r \<noteq> LockModeUpdate \<and> mode \<noteq> LockModeUpdate))"
  by (induction owners) auto

lemma upgrade_None: "upgrade owners tx mode = None \<longleftrightarrow> tx \<notin> OwnerTx ` set owners"
  by (induction owners) auto

lemma upgrade_Some:
  "upgrade owners tx mode = Some owners' \<Longrightarrow> map OwnerTx owners' = map OwnerTx owners
    \<and> (\<forall>r \<in> set owners'. r \<in> set owners \<or> (OwnerTx r = tx \<and> Mode r = mode))"
  by (induction owners arbitrary: owners') (auto split: if_splits)

lemma grant_facts:
  "OwnerTx ` set (grant owners tx mode) = insert tx (OwnerTx ` set owners)"
  "r \<in> set (grant owners tx mode) \<Longrightarrow> r \<in> set owners \<or> (OwnerTx r = tx \<and> Mode r = mode)"
  "distinct (map OwnerTx owners) \<Longrightarrow> distinct (map OwnerTx (grant owners tx mode))"
proof -
  have a: "OwnerTx ` set owners' = OwnerTx ` set owners \<and> (distinct (map OwnerTx owners') \<longleftrightarrow> distinct (map OwnerTx owners))"
    if "upgrade owners tx mode = Some owners'" for owners'
    using upgrade_Some [OF that] by (metis list.set_map)
  have t: "tx \<in> OwnerTx ` set owners" if "upgrade owners tx mode = Some owners'" for owners'
    using upgrade_None [of owners tx mode] that by auto
  show "OwnerTx ` set (grant owners tx mode) = insert tx (OwnerTx ` set owners)"
    using a t by (auto simp: grant_def split: option.splits)
  show "r \<in> set (grant owners tx mode) \<Longrightarrow> r \<in> set owners \<or> (OwnerTx r = tx \<and> Mode r = mode)"
    using upgrade_Some [of owners tx mode] by (auto simp: grant_def split: option.splits)
  show "distinct (map OwnerTx owners) \<Longrightarrow> distinct (map OwnerTx (grant owners tx mode))"
    using a upgrade_None [of owners tx mode] by (auto simp: grant_def split: option.splits)
qed

lemma compat_grant: "compat owners \<Longrightarrow> canAcquire owners tx mode \<Longrightarrow> compat (grant owners tx mode)"
proof -
  assume c: "compat owners" and k: "canAcquire owners tx mode"
  have "Mode r \<noteq> LockModeUpdate"
    if "r \<in> set (grant owners tx mode)" "r' \<in> set (grant owners tx mode)" "OwnerTx r \<noteq> OwnerTx r'" for r r'
    using grant_facts(2) [OF that(1)] grant_facts(2) [OF that(2)] that(3) c k
    by (auto simp: compat_def canAcquire_iff)
  then show "compat (grant owners tx mode)" using c grant_facts(3) by (auto simp: compat_def)
qed

lemma compat_filter: "compat owners \<Longrightarrow> compat (filter P owners)"
  by (auto simp: compat_def distinct_map intro: inj_on_subset)

lemma try_grant_Some:
  "try_grant a tx mode l = Some l' \<longleftrightarrow> canAcquire (lm_entries l a) tx mode
     \<and> l' = l\<lparr>lm_entries := (lm_entries l)(a := grant (lm_entries l a) tx mode)\<rparr>"
  by (auto simp: try_grant_def)

lemma lookup_entry_cases:
  "lookup_entry key l = (a, l') \<Longrightarrow>
     (map_of (lm_locks l) key = Some a \<and> l' = l)
   \<or> (map_of (lm_locks l) key = None \<and> a = lm_next l \<and> l' = l\<lparr>lm_locks := (key, a) # lm_locks l,
        lm_entries := (lm_entries l)(a := []), lm_next := Suc a\<rparr>)"
  by (auto simp: lookup_entry_def split: option.splits)

definition entries_compat :: "LockManager \<Rightarrow> bool" where
  "entries_compat l \<longleftrightarrow> (\<forall>a. compat (lm_entries l a))"

lemma lookup_compat: "lookup_entry key l = (a, l') \<Longrightarrow> entries_compat l \<Longrightarrow> entries_compat l'"
  by (drule lookup_entry_cases) (auto simp: entries_compat_def)

lemma grant_compat: "try_grant a tx mode l = Some l' \<Longrightarrow> entries_compat l \<Longrightarrow> entries_compat l'"
  by (auto simp: try_grant_Some entries_compat_def compat_grant)

lemma release_compat: "ReleaseAll tx l = (l', woken) \<Longrightarrow> entries_compat l \<Longrightarrow> entries_compat l'"
  by (auto simp: ReleaseAll_def Let_def entries_compat_def compat_filter)

lemma lock_reach_compat: "lock_reach s \<Longrightarrow> entries_compat (lm s)"
proof (induction rule: lock_reach.induct)
  case 1
  then show ?case by (simp add: lock_init_def NewLockManager_def entries_compat_def)
next
  case (2 s s')
  from 2(2,3) show ?case
    by (cases rule: lock_step.cases) (auto intro: lookup_compat grant_compat release_compat)
qed

text \<open>
  In every reachable state of the row lock manager, each entry has at most one owner per transaction,
  and an exclusive owner is its only owner.
\<close>

theorem row_lock_entries_exclusive:
  assumes "lock_reach s"
  shows "compat (lm_entries (lm s) a)"
  using lock_reach_compat [OF assms] by (simp add: entries_compat_def)

theorem row_lock_entries_exclusive_witness:
  "\<exists>s. lock_reach s \<and> held s \<noteq> {} \<and> compat (lm_entries (lm s) 0)"
proof -
  obtain l1 l2 where "lookup_entry ''r'' NewLockManager = (0, l1)" "try_grant 0 1 LockModeUpdate l1 = Some l2"
    by (simp add: lookup_entry_def NewLockManager_def try_grant_def)
  then have "lock_step lock_init (lock_init\<lparr>lm := l2, held := insert (1, ''r'', LockModeUpdate) (held lock_init)\<rparr>)"
    by (intro lock_step.acquire_now) (simp_all add: lock_init_def)
  then have "lock_reach (lock_init\<lparr>lm := l2, held := insert (1, ''r'', LockModeUpdate) (held lock_init)\<rparr>)"
    by (rule lock_reach.intros(2) [OF lock_reach.intros(1)])
  then show ?thesis using row_lock_entries_exclusive [of _ 0] by fastforce
qed

section \<open>Row locks: mutual exclusion, and where it fails\<close>

text \<open>
  A waiter keeps its pointer to the entry, so mutual exclusion depends on that entry still being the one in
  the map. \<open>current\<close> says so; \<open>quiet_reach\<close> are the runs in which it never fails.
\<close>

definition current :: "lock_system \<Rightarrow> bool" where
  "current s \<longleftrightarrow> (\<forall>w \<in> set (waiters s). map_of (lm_locks (lm s)) (w_key w) = Some (w_entry w))"

inductive quiet_reach :: "lock_system \<Rightarrow> bool" where
  "quiet_reach lock_init"
| "quiet_reach s \<Longrightarrow> lock_step s s' \<Longrightarrow> current s' \<Longrightarrow> quiet_reach s'"

lemma quiet_lock_reach: "quiet_reach s \<Longrightarrow> lock_reach s"
  by (induction rule: quiet_reach.induct) (auto intro: lock_reach.intros)

lemma quiet_current: "quiet_reach s \<Longrightarrow> current s"
  by (cases rule: quiet_reach.cases) (auto simp: current_def lock_init_def)

definition owns :: "LockManager \<Rightarrow> u64 \<times> string \<times> LockMode \<Rightarrow> bool" where
  "owns l h = (case h of (t, key, mode) \<Rightarrow> (\<exists>a. map_of (lm_locks l) key = Some a
     \<and> (\<exists>r \<in> set (lm_entries l a). OwnerTx r = t \<and> mode_rank mode \<le> mode_rank (Mode r))))"

definition table_ok :: "LockManager \<Rightarrow> bool" where
  "table_ok l \<longleftrightarrow> distinct (map fst (lm_locks l)) \<and> distinct (map snd (lm_locks l)) \<and> (\<forall>a \<in> snd ` set (lm_locks l). a < lm_next l)"

lemma map_of_snd: "map_of xs k = Some a \<Longrightarrow> a \<in> snd ` set xs"
  by (force dest: map_of_SomeD)

lemma upgrade_mono:
  "upgrade owners tx mode = Some owners' \<Longrightarrow> r \<in> set owners \<Longrightarrow>
     \<exists>r' \<in> set owners'. OwnerTx r' = OwnerTx r \<and> mode_rank (Mode r) \<le> mode_rank (Mode r')"
  by (induction owners arbitrary: owners') (auto split: if_splits)

lemma upgrade_new:
  "upgrade owners tx mode = Some owners' \<Longrightarrow> \<exists>r' \<in> set owners'. OwnerTx r' = tx \<and> mode_rank mode \<le> mode_rank (Mode r')"
  by (induction owners arbitrary: owners') (auto split: if_splits)

lemma grant_mono: "r \<in> set owners \<Longrightarrow> \<exists>r' \<in> set (grant owners tx mode). OwnerTx r' = OwnerTx r \<and> mode_rank (Mode r) \<le> mode_rank (Mode r')"
  using upgrade_mono [of owners tx mode] by (auto simp: grant_def split: option.splits)

lemma grant_new: "\<exists>r' \<in> set (grant owners tx mode). OwnerTx r' = tx \<and> mode_rank mode \<le> mode_rank (Mode r')"
  using upgrade_new [of owners tx mode] by (auto simp: grant_def split: option.splits)

lemma lookup_owns:
  assumes "lookup_entry key l = (a, l')" and "table_ok l"
  shows "table_ok l'" and "map_of (lm_locks l') key = Some a" and "owns l h \<Longrightarrow> owns l' h"
proof -
  from lookup_entry_cases [OF assms(1)]
  have "table_ok l' \<and> map_of (lm_locks l') key = Some a \<and> (owns l h \<longrightarrow> owns l' h)"
  proof (elim disjE conjE)
    assume n: "map_of (lm_locks l) key = None" and a: "a = lm_next l" and l': "l' = l\<lparr>lm_locks := (key, a) # lm_locks l,
        lm_entries := (lm_entries l)(a := []), lm_next := Suc a\<rparr>"
    have fresh: "a \<notin> snd ` set (lm_locks l)" using assms(2) a by (auto simp: table_ok_def)
    have "table_ok l'"
      using assms(2) fresh n by (auto simp: table_ok_def l' a map_of_eq_None_iff less_Suc_eq image_iff)
    moreover have "owns l' h" if "owns l h"
    proof -
      obtain t k md where h: "h = (t, k, md)" by (cases h)
      with that obtain b where b: "map_of (lm_locks l) k = Some b"
          "\<exists>r \<in> set (lm_entries l b). OwnerTx r = t \<and> mode_rank md \<le> mode_rank (Mode r)"
        by (auto simp: owns_def)
      then have "b \<noteq> a" "k \<noteq> key" using fresh n map_of_snd by fastforce+
      then show ?thesis using b h by (simp add: owns_def l')
    qed
    ultimately show ?thesis by (simp add: l')
  qed (use assms in simp)
  then show "table_ok l'" and "map_of (lm_locks l') key = Some a" and "owns l h \<Longrightarrow> owns l' h" by simp_all
qed

lemma grant_owns:
  assumes "try_grant a tx mode l = Some l'"
  shows "table_ok l \<Longrightarrow> table_ok l'" and "owns l h \<Longrightarrow> owns l' h"
    and "map_of (lm_locks l) key = Some a \<Longrightarrow> owns l' (tx, key, mode)"
proof -
  have l': "l' = l\<lparr>lm_entries := (lm_entries l)(a := grant (lm_entries l a) tx mode)\<rparr>"
    using assms by (simp add: try_grant_Some)
  show "table_ok l \<Longrightarrow> table_ok l'" by (simp add: l' table_ok_def)
  show "owns l h \<Longrightarrow> owns l' h"
    using grant_mono [of _ "lm_entries l a" tx mode] by (fastforce simp: owns_def l' split: prod.splits)
  show "map_of (lm_locks l) key = Some a \<Longrightarrow> owns l' (tx, key, mode)"
    using grant_new [of "lm_entries l a" tx mode] by (auto simp: owns_def l')
qed

lemma release_owns:
  assumes "ReleaseAll tx l = (l', woken)" and t: "table_ok l"
  shows "table_ok l'" and "owns l (u, key, mode) \<Longrightarrow> u \<noteq> tx \<Longrightarrow> owns l' (u, key, mode)"
proof -
  define hit where "hit = filter (\<lambda>a. released tx (lm_entries l a)) (map snd (lm_locks l))"
  define es where "es = (\<lambda>a. if a \<in> set hit then filter (\<lambda>r. OwnerTx r \<noteq> tx) (lm_entries l a) else lm_entries l a)"
  have l': "l' = l\<lparr>lm_entries := es, lm_locks := filter (\<lambda>(key, a). \<not> (a \<in> set hit \<and> es a = [])) (lm_locks l)\<rparr>"
    using assms(1) by (auto simp: ReleaseAll_def Let_def hit_def es_def)
  show "table_ok l'"
    using t by (auto simp: table_ok_def l' distinct_map_filter)
  assume o: "owns l (u, key, mode)" "u \<noteq> tx"
  then obtain a r where a: "map_of (lm_locks l) key = Some a" "r \<in> set (lm_entries l a)" "OwnerTx r = u"
      "mode_rank mode \<le> mode_rank (Mode r)"
    by (auto simp: owns_def)
  have r: "r \<in> set (es a)" using a o(2) by (simp add: es_def)
  then have "(key, a) \<in> set (lm_locks l')" using a(1) by (auto simp: l' dest: map_of_SomeD)
  then have "map_of (lm_locks l') key = Some a"
    using t \<open>table_ok l'\<close> by (simp add: table_ok_def)
  then show "owns l' (u, key, mode)" using r a by (auto simp: owns_def l')
qed

lemma quiet_owns: "quiet_reach s \<Longrightarrow> table_ok (lm s) \<and> (\<forall>h \<in> held s. owns (lm s) h)"
proof (induction rule: quiet_reach.induct)
  case 1
  then show ?case by (simp add: lock_init_def NewLockManager_def table_ok_def)
next
  case (2 s s')
  note c = quiet_current [OF 2(1)]
  from 2(2) show ?case
  proof (cases rule: lock_step.cases)
    case (acquire_now key a l1 tx mode l2)
    note lo = lookup_owns [OF acquire_now(2)] and g = grant_owns [OF acquire_now(3)]
    then show ?thesis using 2(4) acquire_now(1) by auto
  next
    case (acquire_wait key a l1 tx mode)
    then show ?thesis using 2(4) lookup_owns [OF acquire_wait(2)] by auto
  next
    case (wake_grant i w l1)
    then have "map_of (lm_locks (lm s)) (w_key w) = Some (w_entry w)" using c by (auto simp: current_def)
    then show ?thesis using 2(4) wake_grant(1) grant_owns [OF wake_grant(5)] by auto
  next
    case (wake_again i w)
    then show ?thesis using 2(4) by simp
  next
    case (release tx l1 woken)
    then show ?thesis using 2(4) release_owns [OF release(2)] by auto
  qed
qed

text \<open>
  C29: As long as no entry is deleted while a goroutine waits on it, an exclusive row lock excludes every
  other holder of the row.
\<close>

theorem row_lock_mutual_exclusion:
  assumes "quiet_reach s" and "(t, key, LockModeUpdate) \<in> held s" and "(t', key, mode) \<in> held s"
  shows "t' = t"
proof -
  have "owns (lm s) (t, key, LockModeUpdate)" "owns (lm s) (t', key, mode)"
    using quiet_owns [OF assms(1)] assms(2,3) by blast+
  then obtain a r r' where a: "r \<in> set (lm_entries (lm s) a)" "OwnerTx r = t" "2 \<le> mode_rank (Mode r)"
      "r' \<in> set (lm_entries (lm s) a)" "OwnerTx r' = t'"
    by (auto simp: owns_def)
  then have "Mode r = LockModeUpdate" by (cases "Mode r") auto
  have "entries_compat (lm s)"
    using lock_reach_compat [OF quiet_lock_reach [OF assms(1)]] .
  then show ?thesis using a \<open>Mode r = LockModeUpdate\<close> unfolding entries_compat_def compat_def by metis
qed

theorem row_lock_mutual_exclusion_witness:
  "\<exists>s. quiet_reach s \<and> (1, ''r'', LockModeUpdate) \<in> held s \<and> (\<forall>t mode. (t, ''r'', mode) \<in> held s \<longrightarrow> t = 1)"
proof -
  obtain l1 l2 where "lookup_entry ''r'' NewLockManager = (0, l1)" "try_grant 0 1 LockModeUpdate l1 = Some l2"
    by (simp add: lookup_entry_def NewLockManager_def try_grant_def)
  then have "lock_step lock_init (lock_init\<lparr>lm := l2, held := insert (1, ''r'', LockModeUpdate) (held lock_init)\<rparr>)"
    by (intro lock_step.acquire_now) (simp_all add: lock_init_def)
  then have q: "quiet_reach (lock_init\<lparr>lm := l2, held := insert (1, ''r'', LockModeUpdate) (held lock_init)\<rparr>)"
    by (rule quiet_reach.intros(2) [OF quiet_reach.intros(1)]) (simp add: current_def lock_init_def)
  then show ?thesis
    using row_lock_mutual_exclusion [OF q, of 1 "''r''"] by fastforce
qed

text \<open>
  \<open>ReleaseAll\<close> does delete such entries. A goroutine that was waiting is then granted the lock in an entry
  that nobody else sees, while another transaction takes the lock in a new one: two transactions hold the
  same row exclusively.
\<close>

theorem row_lock_granted_twice:
  "\<exists>s. lock_reach s \<and> (2, ''r'', LockModeUpdate) \<in> held s \<and> (3, ''r'', LockModeUpdate) \<in> held s"
proof -
  let ?o = "\<lambda>t. \<lparr>Mode = LockModeUpdate, OwnerTx = t\<rparr>"
  define w where "w = \<lparr>w_tx = 2, w_key = ''r'', w_mode = LockModeUpdate, w_entry = 0, w_signalled = False\<rparr>"
  define e1 where "e1 = (\<lambda>_ :: nat. [] :: RowLock list)(0 := [?o 1])"
  define l1 where "l1 = \<lparr>lm_locks = [(''r'', 0)], lm_entries = e1, lm_next = 1\<rparr>"
  define l2 where "l2 = \<lparr>lm_locks = [], lm_entries = (\<lambda>_. []), lm_next = 1\<rparr>"
  define l3 where "l3 = \<lparr>lm_locks = [(''r'', 1)], lm_entries = (\<lambda>_. [])(1 := [?o 3]), lm_next = 2\<rparr>"
  have "lock_step lock_init \<lparr>lm = l1, waiters = [], held = {(1, ''r'', LockModeUpdate)}\<rparr>"
    using lock_step.acquire_now [of "''r''" lock_init 0 "\<lparr>lm_locks = [(''r'', 0)], lm_entries = (\<lambda>_. []), lm_next = 1\<rparr>" 1 LockModeUpdate l1]
    by (simp add: lock_init_def NewLockManager_def lookup_entry_def try_grant_def grant_def l1_def e1_def fun_upd_def)
  then have r1: "lock_reach \<lparr>lm = l1, waiters = [], held = {(1, ''r'', LockModeUpdate)}\<rparr>"
    by (rule lock_reach.intros(2) [OF lock_reach.intros(1)])
  have "lock_step \<lparr>lm = l1, waiters = [], held = {(1, ''r'', LockModeUpdate)}\<rparr> \<lparr>lm = l1, waiters = [w], held = {(1, ''r'', LockModeUpdate)}\<rparr>"
    using lock_step.acquire_wait [of "''r''" "\<lparr>lm = l1, waiters = [], held = {(1, ''r'', LockModeUpdate)}\<rparr>" 0 l1 2 LockModeUpdate]
    by (simp add: lookup_entry_def try_grant_def l1_def e1_def w_def)
  with r1 have r2: "lock_reach \<lparr>lm = l1, waiters = [w], held = {(1, ''r'', LockModeUpdate)}\<rparr>" by (rule lock_reach.intros(2))
  have "ReleaseAll 1 l1 = (l2, [0])"
    by (simp add: ReleaseAll_def l1_def l2_def e1_def released_def fun_eq_iff)
  moreover have e: "{(t :: u64, k :: string, md :: LockMode) \<in> {(1, ''r'', LockModeUpdate)}. t \<noteq> 1} = {}" by auto
  ultimately have "lock_step \<lparr>lm = l1, waiters = [w], held = {(1, ''r'', LockModeUpdate)}\<rparr> \<lparr>lm = l2, waiters = [w\<lparr>w_signalled := True\<rparr>], held = {}\<rparr>"
    using lock_step.release [of 1 "\<lparr>lm = l1, waiters = [w], held = {(1, ''r'', LockModeUpdate)}\<rparr>" l2 "[0]"]
    unfolding lock_system.simps e by (simp add: w_def)
  with r2 have r3: "lock_reach \<lparr>lm = l2, waiters = [w\<lparr>w_signalled := True\<rparr>], held = {}\<rparr>" by (rule lock_reach.intros(2))
  have "lock_step \<lparr>lm = l2, waiters = [w\<lparr>w_signalled := True\<rparr>], held = {}\<rparr>
      \<lparr>lm = l3, waiters = [w\<lparr>w_signalled := True\<rparr>], held = {(3, ''r'', LockModeUpdate)}\<rparr>"
    using lock_step.acquire_now [of "''r''" "\<lparr>lm = l2, waiters = [w\<lparr>w_signalled := True\<rparr>], held = {}\<rparr>" 1
        "\<lparr>lm_locks = [(''r'', 1)], lm_entries = (\<lambda>_. []), lm_next = 2\<rparr>" 3 LockModeUpdate l3]
    by (simp add: lookup_entry_def try_grant_def grant_def l2_def l3_def fun_upd_def)
  with r3 have r4: "lock_reach \<lparr>lm = l3, waiters = [w\<lparr>w_signalled := True\<rparr>], held = {(3, ''r'', LockModeUpdate)}\<rparr>"
    by (rule lock_reach.intros(2))
  obtain l4 where "try_grant 0 2 LockModeUpdate l3 = Some l4" by (simp add: try_grant_def l3_def)
  then have "lock_step \<lparr>lm = l3, waiters = [w\<lparr>w_signalled := True\<rparr>], held = {(3, ''r'', LockModeUpdate)}\<rparr>
      \<lparr>lm = l4, waiters = [], held = {(2, ''r'', LockModeUpdate), (3, ''r'', LockModeUpdate)}\<rparr>"
    using lock_step.wake_grant [of 0 "\<lparr>lm = l3, waiters = [w\<lparr>w_signalled := True\<rparr>], held = {(3, ''r'', LockModeUpdate)}\<rparr>"
        "w\<lparr>w_signalled := True\<rparr>" l4] by (simp add: w_def)
  with r4 have "lock_reach \<lparr>lm = l4, waiters = [], held = {(2, ''r'', LockModeUpdate), (3, ''r'', LockModeUpdate)}\<rparr>"
    by (rule lock_reach.intros(2))
  then show ?thesis by fastforce
qed

section \<open>The cycle search\<close>

definition edge :: "wfg \<Rightarrow> (u64 \<times> u64) set" where
  "edge g = {(n, m). m \<in> set (g n)}"

text \<open>
  \<open>finished_ok\<close>: the visited nodes that are not on the stack lead only to such nodes and lie on no cycle.
  This is the invariant of the search.
\<close>

definition finished_ok :: "wfg \<Rightarrow> u64 set \<Rightarrow> u64 set \<Rightarrow> bool" where
  "finished_ok g visited stack \<longleftrightarrow> stack \<subseteq> visited
     \<and> (\<forall>n \<in> visited - stack. set (g n) \<subseteq> visited - stack \<and> (n, n) \<notin> (edge g)\<^sup>+)"

lemma closed_trancl:
  assumes "(n, x) \<in> (edge g)\<^sup>+" and "set (g n) \<subseteq> B" and "\<forall>m \<in> B. set (g m) \<subseteq> B"
  shows "x \<in> B"
  using assms(1) by (induction rule: trancl_induct) (use assms(2,3) in \<open>auto simp: edge_def\<close>)

lemma finish_node:
  assumes "finished_ok g visited (insert node stack)" and "set (g node) \<subseteq> visited - insert node stack" and "node \<notin> stack"
  shows "finished_ok g visited stack"
proof -
  let ?B = "visited - insert node stack"
  have B: "\<forall>m \<in> ?B. set (g m) \<subseteq> ?B" using assms(1) by (auto simp: finished_ok_def)
  have "(node, node) \<notin> (edge g)\<^sup>+" using closed_trancl [OF _ assms(2) B, of node] by blast
  then show ?thesis using assms by (auto simp: finished_ok_def)
qed

lemma dfs_correct:
  "dfs fuel g node visited stack = Some (found, visited', stack') \<Longrightarrow> node \<notin> visited \<Longrightarrow> finished_ok g visited stack \<Longrightarrow>
     (\<forall>x \<in> stack. (x, node) \<in> (edge g)\<^sup>*) \<Longrightarrow>
     (if found then \<exists>c. (node, c) \<in> (edge g)\<^sup>* \<and> (c, c) \<in> (edge g)\<^sup>+
      else finished_ok g visited' stack \<and> stack' = stack \<and> visited \<subseteq> visited' \<and> node \<in> visited')"
  and dfs_list_correct:
  "dfs_list fuel g ns visited stack = Some (found, visited', stack') \<Longrightarrow> finished_ok g visited stack \<Longrightarrow>
     cur \<in> stack \<Longrightarrow> (\<forall>x \<in> stack. (x, cur) \<in> (edge g)\<^sup>*) \<Longrightarrow> set ns \<subseteq> set (g cur) \<Longrightarrow>
     (if found then \<exists>c. (cur, c) \<in> (edge g)\<^sup>* \<and> (c, c) \<in> (edge g)\<^sup>+
      else finished_ok g visited' stack \<and> stack' = stack \<and> visited \<subseteq> visited' \<and> set ns \<subseteq> visited' - stack)"
proof (induction fuel g node visited stack and fuel g ns visited stack arbitrary: found visited' stack' and found visited' stack' cur
    rule: dfs_dfs_list.induct)
  case (1 g node visited stack)
  then show ?case by simp
next
  case (2 fuel g node visited stack)
  have "dfs_list fuel g (g node) (insert node visited) (insert node stack) \<noteq> None" using 2(2) by (intro notI) simp
  then obtain f v s where l: "dfs_list fuel g (g node) (insert node visited) (insert node stack) = Some (f, v, s)" by fast
  have n: "node \<notin> stack" using 2(3,4) by (auto simp: finished_ok_def)
  have "finished_ok g (insert node visited) (insert node stack)"
    using 2(3,4) by (auto simp: finished_ok_def)
  then have ih: "if f then \<exists>c. (node, c) \<in> (edge g)\<^sup>* \<and> (c, c) \<in> (edge g)\<^sup>+
      else finished_ok g v (insert node stack) \<and> s = insert node stack \<and> insert node visited \<subseteq> v
        \<and> set (g node) \<subseteq> v - insert node stack"
    using 2(1) [OF l, of node] 2(5) by auto
  show ?case
  proof (cases f)
    case True
    then show ?thesis using ih l 2(2) by simp
  next
    case False
    then have v: "finished_ok g v (insert node stack)" "s = insert node stack" "insert node visited \<subseteq> v"
        "set (g node) \<subseteq> v - insert node stack"
      using ih by simp_all
    have "finished_ok g v stack" by (rule finish_node [OF v(1,4) n])
    moreover have "insert node stack - {node} = stack" using n by blast
    ultimately show ?thesis using l 2(2) False v(2,3) by simp
  qed
next
  case (3 fuel g visited stack)
  then show ?case by simp
next
  case (4 fuel g m ns visited stack)
  have e: "(cur, m) \<in> edge g" using 4(8) by (auto simp: edge_def)
  have path: "\<forall>x \<in> stack. (x, m) \<in> (edge g)\<^sup>*" using 4(7) e by (auto intro: rtrancl_into_rtrancl)
  show ?case
  proof (cases "m \<in> visited")
    case False
    have "dfs fuel g m visited stack \<noteq> None" using 4(4) False by (intro notI) simp
    then obtain f v s where d: "dfs fuel g m visited stack = Some (f, v, s)" by fast
    note ih = 4(1) [OF False d False 4(5) path]
    show ?thesis
    proof (cases f)
      case True
      then have "\<exists>c. (m, c) \<in> (edge g)\<^sup>* \<and> (c, c) \<in> (edge g)\<^sup>+" using ih by simp
      then show ?thesis using 4(4) False d True e by (auto intro: converse_rtrancl_into_rtrancl)
    next
      case False2: False
      then have i: "finished_ok g v stack" "s = stack" "visited \<subseteq> v" "m \<in> v" using ih by simp_all
      have m: "m \<notin> stack" using False 4(5) by (auto simp: finished_ok_def)
      have l: "dfs_list fuel g ns v stack = Some (found, visited', stack')" using 4(4) False d False2 i(2) by simp
      have "if found then \<exists>c. (cur, c) \<in> (edge g)\<^sup>* \<and> (c, c) \<in> (edge g)\<^sup>+
        else finished_ok g visited' stack \<and> stack' = stack \<and> v \<subseteq> visited' \<and> set ns \<subseteq> visited' - stack"
        using 4(2) [OF False d refl refl False2, of found visited' stack' cur] l i(1,2) 4(6-8) by (auto split: if_splits)
      then show ?thesis using i m by (auto split: if_splits)
    qed
  next
    case True
    show ?thesis
    proof (cases "m \<in> stack")
      case True2: True
      then have "(m, cur) \<in> (edge g)\<^sup>*" using 4(7) by blast
      then have "(cur, cur) \<in> (edge g)\<^sup>+" by (rule rtrancl_into_trancl2 [OF e])
      then show ?thesis using 4(4) True True2 by auto
    next
      case False
      have "dfs_list fuel g ns visited stack = Some (found, visited', stack')" using 4(4) True False by simp
      then show ?thesis using 4(3) [of found visited' stack' cur] True False 4(5-8) by (auto split: if_splits)
    qed
  qed
qed


text \<open>Termination: the depth of the search is at most the number of nodes that are not visited yet.\<close>

lemma dfs_visited:
  "dfs fuel g node visited stack = Some (found, visited', stack') \<Longrightarrow> visited \<subseteq> visited'"
  "dfs_list fuel g ns visited stack = Some (found, visited', stack') \<Longrightarrow> visited \<subseteq> visited'"
  by (induction fuel g node visited stack and fuel g ns visited stack arbitrary: found visited' stack' and found visited' stack'
    rule: dfs_dfs_list.induct) (fastforce split: Option.bind_splits if_splits)+

lemma dfs_fuel:
  "finite U \<Longrightarrow> \<forall>n \<in> U. set (g n) \<subseteq> U \<Longrightarrow> node \<in> U - visited \<Longrightarrow> card (U - visited) \<le> fuel \<Longrightarrow>
     dfs fuel g node visited stack \<noteq> None"
  "finite U \<Longrightarrow> \<forall>n \<in> U. set (g n) \<subseteq> U \<Longrightarrow> set ns \<subseteq> U \<Longrightarrow> card (U - visited) \<le> fuel \<Longrightarrow>
     dfs_list fuel g ns visited stack \<noteq> None"
proof (induction fuel g node visited stack and fuel g ns visited stack rule: dfs_dfs_list.induct)
  case (1 g node visited stack)
  then have "U - visited = {}" by (simp add: card_eq_0_iff)
  then show ?case using 1 by blast
next
  case (2 fuel g node visited stack)
  have "card (U - insert node visited) < card (U - visited)"
    using 2(2,4) by (intro psubset_card_mono) auto
  then have "card (U - insert node visited) \<le> fuel" using 2(5) by linarith
  moreover have "set (g node) \<subseteq> U" using 2(3,4) by blast
  ultimately obtain r where "dfs_list fuel g (g node) (insert node visited) (insert node stack) = Some r"
    using 2(1) [OF 2(2,3)] by blast
  then show ?case by (cases r) simp
next
  case (3 fuel g visited stack)
  then show ?case by simp
next
  case (4 fuel g m ns visited stack)
  show ?case
  proof (cases "m \<in> visited")
    case True
    then show ?thesis using 4(3) [OF _ _ 4(4,5)] 4(6,7) by auto
  next
    case False
    have "dfs fuel g m visited stack \<noteq> None" using 4(1) [OF False 4(4,5) _ 4(7)] False 4(6) by simp
    then obtain f v s where d: "dfs fuel g m visited stack = Some (f, v, s)" by fast
    have "card (U - v) \<le> card (U - visited)"
      using dfs_visited(1) [OF d] 4(4) by (intro card_mono) auto
    then show ?thesis using 4(2) [OF False d refl refl _ 4(4,5)] 4(6,7) False d by (cases f) auto
  qed
qed

text \<open>
  C28: Deadlock detection. Let the wait-for graph have edges only between the transactions of a finite set \<open>U\<close>.
  Then \<open>AddEdge\<close> returns once the search may go as deep as the number of these transactions, the graph
  it leaves has exactly one more edge, and it reports a deadlock exactly when the waiter can reach a
  cycle of waiting transactions in the new graph, no matter in which order the edges were added.
\<close>

theorem AddEdge_detects_deadlock:
  assumes "finite U" and "waiter \<in> U" and "holder \<in> U" and "\<forall>n \<in> U. set (g n) \<subseteq> U" and "card U \<le> fuel"
  shows "\<exists>g' dead. AddEdge fuel waiter holder g = (g', Some dead) \<and> edge g' = insert (waiter, holder) (edge g)
    \<and> (dead \<longleftrightarrow> (\<exists>c. (waiter, c) \<in> (edge g')\<^sup>* \<and> (c, c) \<in> (edge g')\<^sup>+))"
proof -
  let ?g = "g(waiter := g waiter @ [holder])"
  have "dfs fuel ?g waiter {} {} \<noteq> None" using assms by (intro dfs_fuel(1) [of U]) auto
  then obtain f v s where d: "dfs fuel ?g waiter {} {} = Some (f, v, s)" by fast
  have "if f then \<exists>c. (waiter, c) \<in> (edge ?g)\<^sup>* \<and> (c, c) \<in> (edge ?g)\<^sup>+
    else finished_ok ?g v {} \<and> s = {} \<and> {} \<subseteq> v \<and> waiter \<in> v"
    by (rule dfs_correct [OF d]) (simp_all add: finished_ok_def)
  moreover have "(c, c) \<notin> (edge ?g)\<^sup>+" if "finished_ok ?g v {}" "waiter \<in> v" "(waiter, c) \<in> (edge ?g)\<^sup>*" for c
  proof -
    have "c \<in> v" using that(3) by (induction rule: rtrancl_induct) (use that(1,2) in \<open>auto simp: finished_ok_def edge_def\<close>)
    then show ?thesis using that(1) by (auto simp: finished_ok_def)
  qed
  moreover have "edge ?g = insert (waiter, holder) (edge g)" by (auto simp: edge_def split: if_splits)
  ultimately show ?thesis using d by (auto simp: AddEdge_def detectCycle_def Let_def split: if_splits)
qed

text \<open>The premises hold for two transactions that wait for each other.\<close>

theorem AddEdge_detects_deadlock_witness:
  "\<exists>g' dead. AddEdge 2 2 1 ((\<lambda>_. [])(1 := [2])) = (g', Some dead) \<and> edge g' = insert (2, 1) (edge ((\<lambda>_. [])(1 := [2])))
    \<and> (dead \<longleftrightarrow> (\<exists>c. (2, c) \<in> (edge g')\<^sup>* \<and> (c, c) \<in> (edge g')\<^sup>+))"
  by (rule AddEdge_detects_deadlock [of "{1, 2}"]) auto

text \<open>\<open>RemoveNode\<close> leaves no edge of the transaction; \<open>RemoveEdge\<close> removes one of possibly several equal edges.\<close>

lemma RemoveNode_edge: "edge (RemoveNode tx g) = {(n, m) \<in> edge g. n \<noteq> tx \<and> m \<noteq> tx}"
  by (auto simp: edge_def RemoveNode_def split: if_splits)

lemma RemoveEdge_edge:
  "distinct (g waiter) \<Longrightarrow> edge (RemoveEdge waiter holder g) = edge g - {(waiter, holder)}"
  by (auto simp: edge_def RemoveEdge_def split: if_splits)

section \<open>The spin locks\<close>

definition lwr_ok :: "LWRLock \<Rightarrow> bool" where
  "lwr_ok l \<longleftrightarrow> finite (lwr_readers l) \<and> card (lwr_readers l) < 2 ^ 31
     \<and> (if lwr_writers l = {} then lwr_state l = of_nat (card (lwr_readers l))
        else is_singleton (lwr_writers l) \<and> lwr_readers l = {} \<and> lwr_state l = - 1)"

lemma sint_count: "n < 2 ^ 31 \<Longrightarrow> sint (of_nat n :: 32 word) = int n"
  by (simp add: signed_of_nat signed_take_bit_int_eq_self)

lemma lwr_step_ok:
  assumes "lwr_step l l'" and "lwr_ok l" and "card (lwr_readers l') < 2 ^ 31"
  shows "lwr_ok l'"
  using assms
proof cases
  case (lwr_rlock t s)
  then show ?thesis
    using assms(2,3) by (auto simp: lwr_ok_def LWRLock_RLock_def word_sle_eq split: if_splits)
next
  case (lwr_runlock t s)
  have c: "0 < card (lwr_readers l)" using lwr_runlock assms(2) by (auto simp: lwr_ok_def card_gt_0_iff)
  then have "(of_nat (card (lwr_readers l)) :: 32 word) - 1 = of_nat (card (lwr_readers l) - 1)"
    by (simp add: of_nat_diff)
  then show ?thesis
    using lwr_runlock assms(2,3) by (auto simp: lwr_ok_def LWRLock_RUnlock_def split: if_splits)
next
  case (lwr_lock s t)
  then show ?thesis
    using assms(2,3) sint_count [of "card (lwr_readers l)"] by (auto simp: lwr_ok_def LWRLock_Lock_def is_singleton_def split: if_splits)
next
  case (lwr_unlock t s)
  then show ?thesis
    using assms(2,3) by (auto simp: lwr_ok_def LWRLock_Unlock_def is_singleton_def split: if_splits)
qed

lemma lwr_reach_ok: "lwr_reach bound l \<Longrightarrow> bound < 2 ^ 31 \<Longrightarrow> lwr_ok l"
  by (induction rule: lwr_reach.induct) (auto simp: lwr_ok_def [of "LWRLock_ext _ _ _ _"] intro: lwr_step_ok)

text \<open>
  C39: Mutual exclusion of the reader/writer spin lock. As long as fewer than 2^31 goroutines read at the same time,
  in every reachable state there is at most one writer and no reader beside it, the state word is the
  number of readers or -1, and so no unlock by a goroutine that holds the lock panics.
\<close>

theorem LWRLock_exclusion:
  assumes "lwr_reach bound l" and "bound < 2 ^ 31"
  shows "(\<forall>w \<in> lwr_writers l. lwr_writers l = {w} \<and> lwr_readers l = {})
    \<and> sint (lwr_state l) = (if lwr_writers l = {} then int (card (lwr_readers l)) else - 1)
    \<and> (lwr_readers l \<noteq> {} \<longrightarrow> LWRLock_RUnlock (lwr_state l) \<noteq> None)
    \<and> (lwr_writers l \<noteq> {} \<longrightarrow> LWRLock_Unlock (lwr_state l) = Some 0)"
proof -
  have ok: "lwr_ok l" by (rule lwr_reach_ok [OF assms])
  then have "lwr_writers l = {} \<Longrightarrow> sint (lwr_state l) = int (card (lwr_readers l))"
    by (simp add: lwr_ok_def sint_count)
  moreover have "lwr_readers l \<noteq> {} \<Longrightarrow> 0 < card (lwr_readers l)" using ok by (simp add: lwr_ok_def card_gt_0_iff)
  ultimately show ?thesis using ok
    by (auto simp: lwr_ok_def is_singleton_def LWRLock_RUnlock_def LWRLock_Unlock_def word_sless_alt split: if_splits)
qed

text \<open>The premises hold for the lock that one goroutine reads.\<close>

theorem LWRLock_exclusion_witness:
  "let l = \<lparr>lwr_state = 1, lwr_readers = {7}, lwr_writers = {}\<rparr> in
   lwr_reach 1 l \<and> sint (lwr_state l) = int (card (lwr_readers l)) \<and> LWRLock_RUnlock (lwr_state l) \<noteq> None"
proof -
  let ?l = "\<lparr>lwr_state = 1, lwr_readers = {7}, lwr_writers = {}\<rparr>"
  have "lwr_step \<lparr>lwr_state = 0, lwr_readers = {}, lwr_writers = {}\<rparr> ?l"
    using lwr_step.lwr_rlock [of 7 "\<lparr>lwr_state = 0, lwr_readers = {}, lwr_writers = {}\<rparr>" 1] by (simp add: LWRLock_RLock_def)
  then have r: "lwr_reach 1 ?l" by (rule lwr_reach.intros(2) [OF lwr_reach.intros(1)]) simp
  then show ?thesis using LWRLock_exclusion [OF r] by (simp add: Let_def)
qed

text \<open>
  The bound is sharp. When 2^31 - 1 goroutines read, one more \<open>RLock\<close> succeeds and wraps the state word to -2^31;
  from then on every \<open>RUnlock\<close> panics and every \<open>RLock\<close> and \<open>Lock\<close> spins.
\<close>

theorem LWRLock_overflow:
  assumes "lwr_ok l" and "lwr_writers l = {}" and "card (lwr_readers l) = 2 ^ 31 - 1"
  shows "\<exists>s. LWRLock_RLock (lwr_state l) = Some s \<and> sint s = - (2 ^ 31)
    \<and> LWRLock_RUnlock s = None \<and> LWRLock_RLock s = None \<and> LWRLock_Lock s = None"
proof -
  have "lwr_state l = 2147483647" using assms by (simp add: lwr_ok_def)
  moreover have "(0::32 word) \<le>s 2147483647" "\<not> (0::32 word) <s 2147483648" "\<not> (0::32 word) \<le>s 2147483648"
    "sint (2147483648 :: 32 word) = - (2 ^ 31)"
    by (simp_all add: word_sle_eq word_sless_alt)
  ultimately show ?thesis by (simp add: LWRLock_RLock_def LWRLock_RUnlock_def LWRLock_Lock_def)
qed

text \<open>The premises hold for 2^31 - 1 readers.\<close>

theorem LWRLock_overflow_witness:
  "\<exists>s. LWRLock_RLock 2147483647 = Some s \<and> sint s = - (2 ^ 31)
    \<and> LWRLock_RUnlock s = None \<and> LWRLock_RLock s = None \<and> LWRLock_Lock s = None"
  using LWRLock_overflow [of "\<lparr>lwr_state = 2147483647, lwr_readers = {..< 2 ^ 31 - 1}, lwr_writers = {}\<rparr>"]
  by (simp add: lwr_ok_def)

lemma LWLock_exclusion:
  "lw_step\<^sup>*\<^sup>* \<lparr>lw_state = 0, lw_holders = {}\<rparr> l \<Longrightarrow>
   (lw_state l = 0 \<and> lw_holders l = {}) \<or> (\<exists>t. lw_state l = 1 \<and> lw_holders l = {t})"
  by (induction rule: rtranclp_induct) (auto elim!: lw_step.cases simp: LWLock_Lock_def LWLock_Unlock_def split: if_splits)

section \<open>The page locks\<close>

lemma sift_down_insort:
  "j < length hs \<Longrightarrow> sorted (take j hs) \<Longrightarrow> sift_down j hs = sort (take (Suc j) hs) @ drop (Suc j) hs"
proof (induction j arbitrary: hs)
  case 0
  then show ?case by (cases hs) simp_all
next
  case (Suc j)
  define xs where "xs = take j hs"
  define a where "a = hs ! j"
  define b where "b = hs ! Suc j"
  define rest where "rest = drop (Suc (Suc j)) hs"
  have hs: "hs = xs @ a # b # rest" and l: "length xs = j"
    using Suc.prems(1) by (simp_all add: xs_def a_def b_def rest_def Cons_nth_drop_Suc)
  have s: "sorted (xs @ [a])" using Suc.prems by (simp add: hs l)
  show ?case
  proof (cases "b < a")
    case True
    have "sift_down (Suc j) hs = sift_down j (xs @ b # a # rest)"
      using True by (simp add: hs nth_append list_update_append l)
    also have "\<dots> = sort (xs @ [b]) @ a # rest"
      using Suc.IH [of "xs @ b # a # rest"] s by (simp add: l sorted_append)
    also have "sort (xs @ [b]) @ [a] = sort (xs @ [a, b])"
      using s True by (intro properties_for_sort [symmetric]) (auto simp: sorted_append)
    then have "sort (xs @ [b]) @ a # rest = sort (xs @ [a, b]) @ rest" by (metis append_Cons append_Nil append_assoc)
    finally show ?thesis by (simp add: hs l)
  next
    case False
    then have "sort (xs @ [a, b]) = xs @ [a, b]"
      using s by (intro properties_for_sort) (auto simp: sorted_append)
    then show ?thesis using False by (simp add: hs nth_append l)
  qed
qed

lemma sort_stripes_sort: "sort_stripes hs = sort hs"
proof -
  have "fold sift_down [1 ..< i] hs = sort (take i hs) @ drop i hs" if "1 \<le> i" "i \<le> length hs" for i
    using that
  proof (induction i rule: nat_induct_at_least)
    case base
    then show ?case by (cases hs) simp_all
  next
    case (Suc i)
    have "sort (sort (take i hs) @ [hs ! i]) = sort (take (Suc i) hs)"
      using Suc by (intro properties_for_sort) (simp_all add: take_Suc_conv_app_nth)
    then show ?case
      using Suc sift_down_insort [of i "sort (take i hs) @ drop i hs"] by (simp add: Cons_nth_drop_Suc [symmetric])
  qed
  from this [of "length hs"] show ?thesis by (cases hs) (simp_all add: sort_stripes_def)
qed

lemma unique_stripes_set: "set (unique_stripes pids seen) = stripe ` set pids - seen"
  by (induction pids seen rule: unique_stripes.induct) auto

lemma unique_stripes_distinct: "distinct (unique_stripes pids seen)"
  by (induction pids seen rule: unique_stripes.induct) (auto simp: unique_stripes_set)

lemma UnlockTable_eq: "UnlockTable pids owner = (\<lambda>h. if h \<in> set (table_stripes pids) then None else owner h)"
  by (simp add: UnlockTable_def unlock_all_eq)

text \<open>
  The stripes of a table. The stripes that \<open>LockTable\<close> locks and \<open>UnlockTable\<close> unlocks, computed by the hash
  set and the exchange sort, are exactly the stripes of the given pages, each once and in
  increasing order; all of them are below 4096; and \<open>UnlockTable\<close> frees exactly these locks.
\<close>

theorem table_stripes_sorted_set:
  "table_stripes pids = sorted_list_of_set (stripe ` set pids)
   \<and> stripe ` set pids \<subseteq> {..< 4096}
   \<and> UnlockTable pids owner = (\<lambda>h. if h \<in> stripe ` set pids then None else owner h)"
proof -
  have t: "table_stripes pids = sorted_list_of_set (stripe ` set pids)"
    by (metis Diff_empty sort_stripes_sort sorted_list_of_set_sort_remdups distinct_remdups_id table_stripes_def
        unique_stripes_distinct unique_stripes_set)
  have "UnlockTable pids owner = (\<lambda>h. if h \<in> stripe ` set pids then None else owner h)"
    by (simp add: UnlockTable_eq t)
  moreover have "stripe p < 4096" for p
    using word_mod_less_divisor [of "4096 :: u32"] by (simp add: stripe_def numPageLocks_def word_gt_0)
  ultimately show ?thesis using t by blast
qed

interpretation stripes: lock_plan table_stripes
  by unfold_locales (simp_all add: table_stripes_def sort_stripes_sort unique_stripes_distinct)

text \<open>
  C27: \<open>LockTable\<close> does not deadlock. Take any reachable state in which some goroutine is inside \<open>LockTable\<close>. Either some goroutine
  inside \<open>LockTable\<close> can lock its next stripe at once, or some goroutine that waits nowhere (it has
  returned from \<open>LockTable\<close>) holds stripes. A circle of waiting calls never forms, and no call waits for itself.
\<close>

theorem LockTable_no_deadlock:
  assumes "LockTable_step\<^sup>*\<^sup>* \<lparr>tl_owner = Map.empty, todo = \<lambda>_. []\<rparr> s" and "todo s t \<noteq> []"
  shows "(\<exists>u h hs. todo s u = h # hs \<and> tl_owner s h = None) \<or> (\<exists>u h. tl_owner s h = Some u \<and> todo s u = [])"
  by (rule stripes.not_stuck [OF assms [unfolded LockTable_step_def]])

text \<open>The premises hold when one goroutine has called \<open>LockTable\<close> with one page.\<close>

theorem LockTable_no_deadlock_witness:
  "\<exists>s :: u32 table_locks. todo s 5 \<noteq> [] \<and>
    ((\<exists>u h hs. todo s u = h # hs \<and> tl_owner s h = None) \<or> (\<exists>u h. tl_owner s h = Some u \<and> todo s u = []))"
proof -
  let ?i = "\<lparr>tl_owner = Map.empty, todo = \<lambda>_. []\<rparr> :: u32 table_locks"
  let ?s = "?i\<lparr>todo := (\<lambda>_. [])(5 := table_stripes [\<lparr>TableID = 1, SegmentNo = 0, PageNo = 0\<rparr>])\<rparr>"
  have a: "LockTable_step\<^sup>*\<^sup>* ?i ?s" using plan_step.call [of ?i 5 table_stripes] by (intro r_into_rtranclp) (simp add: LockTable_step_def)
  have b: "todo ?s 5 \<noteq> []" by (simp add: table_stripes_def sort_stripes_sort)
  show ?thesis by (rule exI [of _ ?s], rule conjI [OF b LockTable_no_deadlock [OF a b]])
qed

section \<open>The predicate locks\<close>

text \<open>
  A run of reads, writes and releases. Every read of a page by a transaction that is still running and every later
  write of the page by another running transaction give a recorded conflict.
\<close>

datatype si_op = Si_read u64 "nat list" "nat list" u32 | Si_write u64 "nat list" "nat list" u32 | Si_release u64

fun si_exec :: "si_op \<Rightarrow> PredicateLockManager \<Rightarrow> PredicateLockManager" where
  "si_exec (Si_read tx db table pageNo) = AcquireSIReadLock tx db table pageNo"
| "si_exec (Si_write tx db table pageNo) = CheckAndRecordConflict tx db table pageNo"
| "si_exec (Si_release tx) = ReleaseLocks tx"

lemma si_exec_keeps:
  "k \<in> readDependencies pm r \<Longrightarrow> Si_release r \<noteq> op \<Longrightarrow> k \<in> readDependencies (si_exec op pm) r"
  "c \<in> rwConflicts pm \<Longrightarrow> Si_release (fst c) \<noteq> op \<Longrightarrow> Si_release (snd c) \<noteq> op \<Longrightarrow> c \<in> rwConflicts (si_exec op pm)"
  by (cases op; auto simp: AcquireSIReadLock_def CheckAndRecordConflict_def ReleaseLocks_def)+

lemma si_keeps_read:
  "k \<in> readDependencies pm r \<Longrightarrow> Si_release r \<notin> set ops \<Longrightarrow> k \<in> readDependencies (fold si_exec ops pm) r"
  by (induction ops arbitrary: pm) (simp_all add: si_exec_keeps)

lemma si_keeps_conflict:
  "c \<in> rwConflicts pm \<Longrightarrow> Si_release (fst c) \<notin> set ops \<Longrightarrow> Si_release (snd c) \<notin> set ops \<Longrightarrow>
   c \<in> rwConflicts (fold si_exec ops pm)"
  by (induction ops arbitrary: pm) (simp_all add: si_exec_keeps)



text \<open>The check may also fail by accident: all page numbers above U+10FFFF have the same key.\<close>

lemma page_key_collides: "page_key db table 0x110000 = page_key db table 0x110001"
  by (simp add: page_key_def rune_string_def)

end
