(* ===== verification/TxManager.thy ===== *)
theory TxManager
  imports Vdb_Prelude Lock_Order "HOL-Library.List_Lexorder" "HOL-Library.Char_ord" "HOL-Library.Sublist"
begin

text \<open>
  The transaction manager (\<^verbatim>\<open>txmanager/manager.go\<close>, \<^verbatim>\<open>txmanager/ssi.go\<close>, \<^verbatim>\<open>txmanager/predicate_lock.go\<close>,
  \<^verbatim>\<open>txmanager/ddl_rollback.go\<close>): the buffer of pending operations with its spill file and its savepoints,
  the table versions of optimistic concurrency control, commit and retry.

  The payload of an operation is a Go interface value, here a type variable. The functions that encode and decode an
  operation for the spill file are the package variables \<^verbatim>\<open>EncodePendingOp\<close> and \<^verbatim>\<open>DecodePendingOp\<close>, which
  another package sets: arguments \<open>enc\<close> and \<open>dec\<close>. The outcome of every file system call is an argument too.
  Waiting times are not modelled.
\<close>

section \<open>Transactions\<close>

datatype TxState = TxIdle | TxActive

record 'p PendingOp =
  op_Type :: string
  op_DB :: string
  op_Table :: string
  op_Payload :: 'p
  op_OldRow :: 'p
  op_Row :: 'p
  op_Pos :: int
  op_RowKey :: string
  op_TupleID :: u64

text \<open>
  The spill file of a transaction is named after the transaction, so its contents are a field here;
  the field \<^verbatim>\<open>spillPath\<close> is determined by \<open>spillDir\<close>, \<open>tx_ID\<close> and \<open>spilled\<close>. Go maps whose keys are enumerated are lists of pairs.
\<close>

record 'p Transaction =
  tx_ID :: u64
  tx_State :: TxState
  tx_Ops :: "'p PendingOp list"
  TableSnapshots :: "(string \<times> u64) list"
  tx_Snapshot :: "u64 set"
  HasDependentReads :: bool
  ReadSet :: "string \<Rightarrow> int \<rightharpoonup> u64"
  opCounter :: nat
  savepoints :: "string \<rightharpoonup> nat"
  savepointOrder :: "string list"
  spilled :: bool
  spillFile :: "bytes option"
  spillDir :: string
  spillErr :: "string option"

text \<open>The set of active transactions gives for each its snapshot, which never changes.\<close>

datatype LockGranularity = TupleGranularity | PageGranularity | RelationGranularity

record PredicateLock =
  pl_TxID :: u64
  Granularity :: LockGranularity
  pl_DBName :: string
  pl_TableName :: string
  pl_PageID :: u64
  pl_TupleID :: u16

record Manager =
  counter :: u64
  SpillThreshold :: int
  mgr_SpillDir :: string
  tableVersions :: "string \<rightharpoonup> u64"
  MaxRetries :: int
  ActiveTxs :: "(u64 \<times> u64 set) list"
  PredicateLocks :: "PredicateLock list"
  InConflict :: "u64 set"
  OutConflict :: "u64 set"

definition NewManager :: Manager where
  "NewManager = \<lparr>counter = 0, SpillThreshold = 10000, mgr_SpillDir = '''', tableVersions = Map.empty, MaxRetries = 3,
     ActiveTxs = [], PredicateLocks = [], InConflict = {}, OutConflict = {}\<rparr>"

definition RecordRead :: "string \<Rightarrow> string \<Rightarrow> int \<Rightarrow> u64 \<Rightarrow> 'p Transaction \<Rightarrow> 'p Transaction" where
  "RecordRead dbName tableName pos version tx =
     (let key = dbName @ ''/'' @ tableName
      in tx\<lparr>ReadSet := (ReadSet tx)(key := (ReadSet tx key)(pos \<mapsto> version))\<rparr>)"

definition SetHasDependentReads :: "bool \<Rightarrow> 'p Transaction \<Rightarrow> 'p Transaction" where
  "SetHasDependentReads val tx = tx\<lparr>HasDependentReads := val\<rparr>"

section \<open>Table versions\<close>

definition tableKey :: "string \<Rightarrow> string \<Rightarrow> string" where
  "tableKey db table = db @ ''/'' @ table"

definition current_version :: "Manager \<Rightarrow> string \<Rightarrow> u64" where
  "current_version m key = (case tableVersions m key of None \<Rightarrow> 0 | Some v \<Rightarrow> v)"

definition TableVersion :: "Manager \<Rightarrow> string \<Rightarrow> string \<Rightarrow> u64" where
  "TableVersion m db table = current_version m (tableKey db table)"

definition BumpTableVersion :: "string \<Rightarrow> string \<Rightarrow> Manager \<Rightarrow> Manager" where
  "BumpTableVersion db table m =
     m\<lparr>tableVersions := (tableVersions m)(tableKey db table \<mapsto> TableVersion m db table + 1)\<rparr>"

definition Begin :: "Manager \<Rightarrow> 'p Transaction \<times> Manager" where
  "Begin m =
     (let snap = fst ` set (ActiveTxs m); i = counter m + 1;
          tx = \<lparr>tx_ID = i, tx_State = TxActive, tx_Ops = [], TableSnapshots = [], tx_Snapshot = snap, HasDependentReads = False,
                ReadSet = (\<lambda>_. Map.empty), opCounter = 0, savepoints = Map.empty, savepointOrder = [], spilled = False,
                spillFile = None, spillDir = mgr_SpillDir m, spillErr = None\<rparr>
      in (tx, m\<lparr>counter := i, ActiveTxs := (i, snap) # filter (\<lambda>(j, _). j \<noteq> i) (ActiveTxs m)\<rparr>))"

definition RecordAccess :: "Manager \<Rightarrow> string \<Rightarrow> string \<Rightarrow> 'p Transaction \<Rightarrow> 'p Transaction" where
  "RecordAccess m db table tx =
     (let key = tableKey db table
      in case map_of (TableSnapshots tx) key of
           Some v \<Rightarrow> tx
         | None \<Rightarrow> tx\<lparr>TableSnapshots := (key, TableVersion m db table) # TableSnapshots tx\<rparr>)"

section \<open>The operation buffer\<close>

datatype write_outcome = Create_fails | Write_fails | Close_fails | Write_ok
datatype append_outcome = Open_fails | Append_fails nat | Append_close_fails | Append_ok

fun encode_all :: "('p PendingOp \<Rightarrow> string + bytes) \<Rightarrow> 'p PendingOp list \<Rightarrow> string + bytes" where
  "encode_all enc [] = Inr []"
| "encode_all enc (op # ops) =
     (case enc op of
        Inl e \<Rightarrow> Inl e
      | Inr b \<Rightarrow> (case encode_all enc ops of Inl e \<Rightarrow> Inl e | Inr bs \<Rightarrow> Inr (b @ 10 # bs)))"

text \<open>\<open>writeOpsToFile\<close> gives the error and the file afterwards. A file that could not be written completely is removed.\<close>

definition writeOpsToFile ::
  "('p PendingOp \<Rightarrow> string + bytes) \<Rightarrow> write_outcome \<Rightarrow> 'p PendingOp list \<Rightarrow> bytes option \<Rightarrow> string option \<times> bytes option" where
  "writeOpsToFile enc oc ops f =
     (if oc = Create_fails then (Some ''create'', f)
      else case encode_all enc ops of
             Inl e \<Rightarrow> (Some e, None)
           | Inr bs \<Rightarrow> (case oc of
                 Write_fails \<Rightarrow> (Some ''write'', None)
               | Close_fails \<Rightarrow> (Some ''close'', Some bs)
               | _ \<Rightarrow> (None, Some bs)))"

definition spillToDisk :: "('p PendingOp \<Rightarrow> string + bytes) \<Rightarrow> write_outcome \<Rightarrow> 'p Transaction \<Rightarrow> 'p Transaction" where
  "spillToDisk enc oc tx =
     (if spillDir tx = '''' then tx
      else case writeOpsToFile enc oc (tx_Ops tx) (spillFile tx) of
             (Some e, f) \<Rightarrow> tx\<lparr>spillFile := f, spillErr := Some (''spill to disk: '' @ e)\<rparr>
           | (None, f) \<Rightarrow> tx\<lparr>spillFile := f, spilled := True, tx_Ops := []\<rparr>)"

definition appendOpToFile ::
  "('p PendingOp \<Rightarrow> string + bytes) \<Rightarrow> append_outcome \<Rightarrow> 'p PendingOp \<Rightarrow> 'p Transaction \<Rightarrow> 'p Transaction" where
  "appendOpToFile enc oc op tx =
     (case enc op of
        Inl e \<Rightarrow> tx\<lparr>spillErr := Some (''spill append encode: '' @ e)\<rparr>
      | Inr b \<Rightarrow> (case spillFile tx of
            None \<Rightarrow> tx\<lparr>spillErr := Some ''spill append open: no such file''\<rparr>
          | Some f \<Rightarrow> (case oc of
                Open_fails \<Rightarrow> tx\<lparr>spillErr := Some ''spill append open''\<rparr>
              | Append_fails n \<Rightarrow> tx\<lparr>spillFile := Some (f @ take n (b @ [10])), spillErr := Some ''spill append write''\<rparr>
              | Append_close_fails \<Rightarrow> tx\<lparr>spillFile := Some (f @ b @ [10]), spillErr := Some ''spill append close''\<rparr>
              | Append_ok \<Rightarrow> tx\<lparr>spillFile := Some (f @ b @ [10])\<rparr>)))"

definition AddOp ::
  "('p PendingOp \<Rightarrow> string + bytes) \<Rightarrow> append_outcome \<Rightarrow> write_outcome \<Rightarrow> Manager \<Rightarrow> 'p PendingOp \<Rightarrow> 'p Transaction \<Rightarrow> 'p Transaction" where
  "AddOp enc aoc woc m op tx =
     (let tx = RecordAccess m (op_DB op) (op_Table op) tx;
          tx = tx\<lparr>opCounter := opCounter tx + 1\<rparr>
      in if spilled tx then appendOpToFile enc aoc op tx
         else let tx = tx\<lparr>tx_Ops := tx_Ops tx @ [op]\<rparr>
              in if SpillThreshold m \<le> int (length (tx_Ops tx)) \<and> mgr_SpillDir m \<noteq> '''' then spillToDisk enc woc tx else tx)"

text \<open>The lines of the spill file without their line ends, what the loop over \<^verbatim>\<open>ReadBytes\<close> sees; empty lines are skipped.\<close>

fun split_lines :: "bytes \<Rightarrow> bytes \<Rightarrow> bytes list" where
  "split_lines acc [] = [acc]"
| "split_lines acc (b # bs) = (if b = 10 then acc # split_lines [] bs else split_lines (acc @ [b]) bs)"

fun decode_lines :: "(bytes \<Rightarrow> string + 'p PendingOp) \<Rightarrow> bytes list \<Rightarrow> string + 'p PendingOp list" where
  "decode_lines dec [] = Inr []"
| "decode_lines dec (l # ls) =
     (if l = [] then decode_lines dec ls
      else case dec l of
             Inl e \<Rightarrow> Inl (''decode spill op: '' @ e)
           | Inr op \<Rightarrow> (case decode_lines dec ls of Inl e \<Rightarrow> Inl e | Inr ops \<Rightarrow> Inr (op # ops)))"

definition ReadOps :: "(bytes \<Rightarrow> string + 'p PendingOp) \<Rightarrow> bool \<Rightarrow> 'p Transaction \<Rightarrow> string + 'p PendingOp list" where
  "ReadOps dec read_ok tx =
     (case spillErr tx of
        Some e \<Rightarrow> Inl e
      | None \<Rightarrow>
          if \<not> spilled tx then Inr (tx_Ops tx)
          else case spillFile tx of
                 None \<Rightarrow> Inl ''open spill file''
               | Some f \<Rightarrow> if read_ok then decode_lines dec (split_lines [] f) else Inl ''read spill file'')"

section \<open>Savepoints\<close>

definition Savepoint :: "string \<Rightarrow> 'p Transaction \<Rightarrow> 'p Transaction" where
  "Savepoint name tx =
     tx\<lparr>savepointOrder := (if savepoints tx name = None then savepointOrder tx @ [name] else savepointOrder tx),
        savepoints := (savepoints tx)(name \<mapsto> opCounter tx)\<rparr>"

definition ReleaseSavepoint :: "string \<Rightarrow> 'p Transaction \<Rightarrow> bool \<times> 'p Transaction" where
  "ReleaseSavepoint name tx =
     (if savepoints tx name = None then (False, tx)
      else (True, tx\<lparr>savepoints := (savepoints tx)(name := None), savepointOrder := remove1 name (savepointOrder tx)\<rparr>))"

text \<open>The savepoints after the named one, in the order of creation, are deleted.\<close>

definition trim_savepoints :: "string \<Rightarrow> 'p Transaction \<Rightarrow> 'p Transaction" where
  "trim_savepoints name tx =
     (if name \<in> set (savepointOrder tx)
      then let later = tl (dropWhile (\<lambda>sn. sn \<noteq> name) (savepointOrder tx))
           in tx\<lparr>savepoints := (\<lambda>sn. if sn \<in> set later then None else savepoints tx sn),
                 savepointOrder := takeWhile (\<lambda>sn. sn \<noteq> name) (savepointOrder tx) @ [name]\<rparr>
      else tx)"

text \<open>The part of \<open>RollbackToSavepoint\<close> that shortens the buffer.\<close>

definition keep_ops ::
  "('p PendingOp \<Rightarrow> string + bytes) \<Rightarrow> write_outcome \<Rightarrow> 'p PendingOp list \<Rightarrow> 'p Transaction \<Rightarrow> string option \<times> 'p Transaction" where
  "keep_ops enc woc kept tx =
     (if spilled tx
      then if kept = [] then (None, tx\<lparr>spillFile := None, spilled := False, tx_Ops := []\<rparr>)
           else case writeOpsToFile enc woc kept (spillFile tx) of
                  (Some e, f) \<Rightarrow> (Some (''rollback to savepoint rewrite: '' @ e),
                     tx\<lparr>spillFile := f, spillErr := Some (''rollback to savepoint rewrite: '' @ e)\<rparr>)
                | (None, f) \<Rightarrow> (None, tx\<lparr>spillFile := f\<rparr>)
      else (None, tx\<lparr>tx_Ops := kept\<rparr>))"

definition RollbackToSavepoint ::
  "('p PendingOp \<Rightarrow> string + bytes) \<Rightarrow> (bytes \<Rightarrow> string + 'p PendingOp) \<Rightarrow> bool \<Rightarrow> write_outcome \<Rightarrow> string \<Rightarrow> 'p Transaction
     \<Rightarrow> string option \<times> 'p Transaction" where
  "RollbackToSavepoint enc dec read_ok woc name tx =
     (case savepoints tx name of
        None \<Rightarrow> (Some ''savepoint does not exist'', tx)
      | Some n \<Rightarrow>
          (case ReadOps dec read_ok tx of
             Inl e \<Rightarrow> (Some e, tx)
           | Inr ops \<Rightarrow>
               let n = min n (length ops)
               in case keep_ops enc woc (take n ops) tx of
                    (Some e, tx) \<Rightarrow> (Some e, tx)
                  | (None, tx) \<Rightarrow> (None, trim_savepoints name (tx\<lparr>opCounter := n\<rparr>))))"

section \<open>Commit\<close>

text \<open>The message of a conflict starts with ``transaction conflict''; other errors are their messages.\<close>

datatype tx_error = ErrTxConflict "(string \<times> u64 \<times> u64) option" | OtherError string

definition RecordRWConflict :: "u64 \<Rightarrow> u64 \<Rightarrow> Manager \<Rightarrow> Manager" where
  "RecordRWConflict readerTxID writerTxID m =
     m\<lparr>OutConflict := insert readerTxID (OutConflict m), InConflict := insert writerTxID (InConflict m)\<rparr>"

definition HasCycle :: "Manager \<Rightarrow> u64 \<Rightarrow> bool" where
  "HasCycle m txID \<longleftrightarrow> txID \<in> InConflict m \<and> txID \<in> OutConflict m"

definition remove_active :: "u64 \<Rightarrow> Manager \<Rightarrow> Manager" where
  "remove_active txID m = m\<lparr>ActiveTxs := filter (\<lambda>(i, _). i \<noteq> txID) (ActiveTxs m)\<rparr>"

text \<open>The keys \<open>Commit\<close> locks, in the order in which \<open>lockTables\<close> locks them, and the first one whose version has changed.\<close>

definition commit_tables :: "'p Transaction \<Rightarrow> string list" where
  "commit_tables tx = sort (map fst (TableSnapshots tx))"

definition stale_table :: "Manager \<Rightarrow> 'p Transaction \<Rightarrow> string option" where
  "stale_table m tx = find (\<lambda>t. current_version m t \<noteq> the (map_of (TableSnapshots tx) t)) (commit_tables tx)"

text \<open>\<open>applyFn\<close> applies the operations to the rest of the system (\<open>'w\<close>) and may change table versions.\<close>

definition Commit ::
  "(bytes \<Rightarrow> string + 'p PendingOp) \<Rightarrow> bool \<Rightarrow> ('p PendingOp list \<Rightarrow> Manager \<times> 'w \<Rightarrow> tx_error option \<times> Manager \<times> 'w)
     \<Rightarrow> 'p Transaction \<Rightarrow> Manager \<times> 'w \<Rightarrow> tx_error option \<times> Manager \<times> 'w" where
  "Commit dec read_ok applyFn tx = (\<lambda>(m, w).
     let (err, m, w) =
       (if HasCycle m (tx_ID tx) then (Some (ErrTxConflict None), m, w)
        else case stale_table m tx of
               Some t \<Rightarrow> (Some (ErrTxConflict (Some (t, the (map_of (TableSnapshots tx) t), current_version m t))), m, w)
             | None \<Rightarrow>
                 (case ReadOps dec read_ok tx of
                    Inl e \<Rightarrow> (Some (OtherError (''read ops: '' @ e)), m, w)
                  | Inr ops \<Rightarrow> applyFn ops (m, w)))
     in (err, remove_active (tx_ID tx) m, w))"

fun starts_with :: "string \<Rightarrow> string \<Rightarrow> bool" where
  "starts_with s [] = True"
| "starts_with [] (c # cs) = False"
| "starts_with (a # s) (c # cs) = (a = c \<and> starts_with s cs)"

fun Contains :: "string \<Rightarrow> string \<Rightarrow> bool" where
  "Contains [] sub = starts_with [] sub"
| "Contains (c # s) sub = (starts_with (c # s) sub \<or> Contains s sub)"

fun IsConflictError :: "tx_error option \<Rightarrow> bool" where
  "IsConflictError None = False"
| "IsConflictError (Some (ErrTxConflict _)) = True"
| "IsConflictError (Some (OtherError s)) = (Contains s ''conflict'' \<or> Contains s ''OCC'' \<or> Contains s ''version mismatch'')"

text \<open>A key is split at its first slash and put together again. A key without a slash is left alone.\<close>

fun SplitN2 :: "string \<Rightarrow> string \<Rightarrow> (string \<times> string) option" where
  "SplitN2 acc [] = None"
| "SplitN2 acc (c # s) = (if c = CHR ''/'' then Some (acc, s) else SplitN2 (acc @ [c]) s)"

definition refreshSnapshots :: "Manager \<Rightarrow> 'p Transaction \<Rightarrow> 'p Transaction" where
  "refreshSnapshots m tx =
     tx\<lparr>TableSnapshots := map (\<lambda>(key, v). (key, case SplitN2 [] key of Some (db, table) \<Rightarrow> TableVersion m db table | None \<Rightarrow> v))
          (TableSnapshots tx)\<rparr>"

text \<open>
  The attempts of \<open>CommitWithRetry\<close>; \<open>env\<close> is what the other transactions do between two attempts. The first argument
  counts the attempts that are left after this one.
\<close>

fun retry_loop ::
  "nat \<Rightarrow> (bytes \<Rightarrow> string + 'p PendingOp) \<Rightarrow> (nat \<Rightarrow> bool) \<Rightarrow> (nat \<Rightarrow> Manager \<times> 'w \<Rightarrow> Manager \<times> 'w)
     \<Rightarrow> ('p PendingOp list \<Rightarrow> Manager \<times> 'w \<Rightarrow> tx_error option \<times> Manager \<times> 'w)
     \<Rightarrow> 'p Transaction \<Rightarrow> Manager \<times> 'w \<Rightarrow> tx_error option \<times> Manager \<times> 'w" where
  "retry_loop left dec read_ok env applyFn tx s =
     (case Commit dec (read_ok left) applyFn tx s of
        (None, s) \<Rightarrow> (None, s)
      | (Some e, s) \<Rightarrow>
          if \<not> IsConflictError (Some e) then (Some e, s)
          else (case left of
                  0 \<Rightarrow> (Some (OtherError ''transaction conflict after retries''), s)
                | Suc left \<Rightarrow>
                    if HasDependentReads tx then (Some (ErrTxConflict None), s)
                    else retry_loop left dec read_ok env applyFn (refreshSnapshots (fst s) tx) (env left s)))"

definition CommitWithRetry ::
  "(bytes \<Rightarrow> string + 'p PendingOp) \<Rightarrow> (nat \<Rightarrow> bool) \<Rightarrow> (nat \<Rightarrow> Manager \<times> 'w \<Rightarrow> Manager \<times> 'w)
     \<Rightarrow> ('p PendingOp list \<Rightarrow> Manager \<times> 'w \<Rightarrow> tx_error option \<times> Manager \<times> 'w)
     \<Rightarrow> 'p Transaction \<Rightarrow> Manager \<times> 'w \<Rightarrow> tx_error option \<times> Manager \<times> 'w" where
  "CommitWithRetry dec read_ok env applyFn tx s =
     (if MaxRetries (fst s) < 0 then (Some (OtherError ''transaction conflict after retries''), s)
      else retry_loop (nat (MaxRetries (fst s))) dec read_ok env applyFn tx s)"

section \<open>Rollback\<close>

datatype DDLOpType = OpCreateTable | OpDropTable | OpAlterTable | OpUnsupported string

record DDLUndoOp =
  undo_Type :: DDLOpType
  undo_DBName :: string
  undo_TableName :: string
  undo_OldSchema :: bytes

text \<open>The catalog is a value of type \<open>'c\<close> with three operations, or something that does not have them.\<close>

record 'c Catalog =
  cat_DropTable :: "string \<Rightarrow> string \<Rightarrow> 'c \<Rightarrow> string option \<times> 'c"
  cat_CreateTable :: "string \<Rightarrow> string \<Rightarrow> bytes \<Rightarrow> 'c \<Rightarrow> string option \<times> 'c"
  cat_AlterTable :: "string \<Rightarrow> string \<Rightarrow> bytes \<Rightarrow> 'c \<Rightarrow> string option \<times> 'c"

definition RevertDDLOp :: "DDLUndoOp \<Rightarrow> 'c Catalog option \<Rightarrow> 'c \<Rightarrow> string option \<times> 'c" where
  "RevertDDLOp op catalog c =
     (case catalog of
        None \<Rightarrow> (Some ''catalog does not implement the required Catalog interface'', c)
      | Some cat \<Rightarrow>
          (case undo_Type op of
             OpCreateTable \<Rightarrow> cat_DropTable cat (undo_DBName op) (undo_TableName op) c
           | OpDropTable \<Rightarrow>
               if undo_OldSchema op = [] then (Some ''missing old schema for DROP_TABLE revert'', c)
               else cat_CreateTable cat (undo_DBName op) (undo_TableName op) (undo_OldSchema op) c
           | OpAlterTable \<Rightarrow>
               if undo_OldSchema op = [] then (Some ''missing old schema for ALTER_TABLE revert'', c)
               else cat_AlterTable cat (undo_DBName op) (undo_TableName op) (undo_OldSchema op) c
           | OpUnsupported t \<Rightarrow> (Some (''unsupported DDL operation type: '' @ t), c)))"

text \<open>
  \<open>undo_of\<close> reads a payload as an undo record, from the record itself or from a generic JSON object. The errors of
  the catalog are ignored. \<open>has_catalog\<close> is false when the caller passes nil.
\<close>

definition revert_ops ::
  "('p \<Rightarrow> DDLUndoOp option) \<Rightarrow> 'c Catalog option \<Rightarrow> 'p PendingOp list \<Rightarrow> 'c \<Rightarrow> 'c" where
  "revert_ops undo_of catalog ops =
     fold (\<lambda>op c. if op_Type op = ''CREATE_TABLE'' \<or> op_Type op = ''DROP_TABLE''
                  then (case undo_of (op_Payload op) of Some u \<Rightarrow> snd (RevertDDLOp u catalog c) | None \<Rightarrow> c) else c) (rev ops)"

definition tx_Rollback ::
  "(bytes \<Rightarrow> string + 'p PendingOp) \<Rightarrow> bool \<Rightarrow> ('p \<Rightarrow> DDLUndoOp option) \<Rightarrow> bool \<Rightarrow> 'c Catalog option
     \<Rightarrow> 'p Transaction \<times> 'c \<Rightarrow> 'p Transaction \<times> 'c" where
  "tx_Rollback dec read_ok undo_of has_catalog catalog = (\<lambda>(tx, c).
     let c = (if has_catalog then (case ReadOps dec read_ok tx of Inr ops \<Rightarrow> revert_ops undo_of catalog ops c | Inl _ \<Rightarrow> c) else c);
         tx = tx\<lparr>tx_Ops := [], tx_State := TxIdle, opCounter := 0, savepoints := Map.empty, savepointOrder := [],
                 spillErr := None, ReadSet := (\<lambda>_. Map.empty), HasDependentReads := False\<rparr>
     in (if spilled tx then tx\<lparr>spillFile := None, spilled := False\<rparr> else tx, c))"

definition mgr_Rollback ::
  "(bytes \<Rightarrow> string + 'p PendingOp) \<Rightarrow> bool \<Rightarrow> ('p \<Rightarrow> DDLUndoOp option) \<Rightarrow> bool \<Rightarrow> 'c Catalog option
     \<Rightarrow> 'p Transaction \<times> 'c \<Rightarrow> Manager \<Rightarrow> ('p Transaction \<times> 'c) \<times> Manager" where
  "mgr_Rollback dec read_ok undo_of has_catalog catalog = (\<lambda>(tx, c) m.
     (tx_Rollback dec read_ok undo_of has_catalog catalog (tx, c), remove_active (tx_ID tx) m))"

section \<open>Transaction numbers\<close>

definition IsCommitted :: "Manager \<Rightarrow> u64 \<Rightarrow> bool" where
  "IsCommitted m xid \<longleftrightarrow> xid < counter m"

definition GetSnapshot :: "Manager \<Rightarrow> u64 \<Rightarrow> u64 set option" where
  "GetSnapshot m txID = map_of (ActiveTxs m) txID"

definition OldestActiveXID :: "Manager \<Rightarrow> u64" where
  "OldestActiveXID m = fold (\<lambda>(xid, _) oldest. if xid < oldest then xid else oldest) (ActiveTxs m) (counter m)"

text \<open>The loop over the compare-and-swap, without interference.\<close>

definition EnsureCounterAtLeast :: "u64 \<Rightarrow> Manager \<Rightarrow> Manager" where
  "EnsureCounterAtLeast n m = (if n \<le> counter m then m else m\<lparr>counter := n\<rparr>)"

text \<open>\<open>filepath.Ext\<close>: the part of the name from its last dot on.\<close>

definition Ext :: "string \<Rightarrow> string" where
  "Ext name = (if CHR ''.'' \<in> set name then CHR ''.'' # rev (takeWhile (\<lambda>c. c \<noteq> CHR ''.'') (rev name)) else '''')"

text \<open>The directory as a list of names, each with a flag for directories; \<open>gone\<close> says for which names the removal succeeds.\<close>

definition CleanupSpillFiles :: "(string \<Rightarrow> bool) \<Rightarrow> (string \<times> bool) list \<Rightarrow> (string \<times> bool) list" where
  "CleanupSpillFiles gone entries = filter (\<lambda>(name, isDir). \<not> (\<not> isDir \<and> Ext name = ''.tmp'' \<and> gone name)) entries"

section \<open>SIREAD locks\<close>

definition AcquireSIREADLock :: "u64 \<Rightarrow> PredicateLock \<Rightarrow> Manager \<Rightarrow> Manager" where
  "AcquireSIREADLock txID lock m = m\<lparr>PredicateLocks := PredicateLocks m @ [lock\<lparr>pl_TxID := txID\<rparr>]\<rparr>"

fun CheckConflict :: "PredicateLock list \<Rightarrow> u64 \<Rightarrow> string \<Rightarrow> string \<Rightarrow> u64 \<Rightarrow> u16 \<Rightarrow> bool" where
  "CheckConflict [] txID dbName tableName pageID tupleID = False"
| "CheckConflict (lock # locks) txID dbName tableName pageID tupleID =
     (if pl_TxID lock = txID then CheckConflict locks txID dbName tableName pageID tupleID
      else if pl_DBName lock \<noteq> dbName \<or> pl_TableName lock \<noteq> tableName then CheckConflict locks txID dbName tableName pageID tupleID
      else case Granularity lock of
             RelationGranularity \<Rightarrow> True
           | PageGranularity \<Rightarrow> pl_PageID lock = pageID \<or> CheckConflict locks txID dbName tableName pageID tupleID
           | TupleGranularity \<Rightarrow> (pl_PageID lock = pageID \<and> pl_TupleID lock = tupleID)
               \<or> CheckConflict locks txID dbName tableName pageID tupleID)"

section \<open>The buffer refines a list with saved copies\<close>

text \<open>
  The specification: the list of operations, and for each savepoint a copy of the list when it was set. The actions
  of a session on its transaction are run on both; a failed rollback to a savepoint changes nothing in the specification.
\<close>

datatype 'p tx_act =
    Act_add "'p PendingOp" append_outcome write_outcome
  | Act_save string
  | Act_release string
  | Act_rollback string bool write_outcome

type_synonym 'p tx_spec = "'p PendingOp list \<times> (string \<times> 'p PendingOp list) list"

fun exec_act ::
  "('p PendingOp \<Rightarrow> string + bytes) \<Rightarrow> (bytes \<Rightarrow> string + 'p PendingOp) \<Rightarrow> Manager \<Rightarrow> 'p tx_act \<Rightarrow> 'p Transaction \<Rightarrow> string option \<times> 'p Transaction" where
  "exec_act enc dec m (Act_add op aoc woc) tx = (None, AddOp enc aoc woc m op tx)"
| "exec_act enc dec m (Act_save name) tx = (None, Savepoint name tx)"
| "exec_act enc dec m (Act_release name) tx = (None, snd (ReleaseSavepoint name tx))"
| "exec_act enc dec m (Act_rollback name read_ok woc) tx = RollbackToSavepoint enc dec read_ok woc name tx"

fun spec_act :: "'p tx_act \<Rightarrow> 'p tx_spec \<Rightarrow> 'p tx_spec" where
  "spec_act (Act_add op _ _) (log, sps) = (log @ [op], sps)"
| "spec_act (Act_save name) (log, sps) = (log, sps @ [(name, log)])"
| "spec_act (Act_release name) (log, sps) = (log, filter (\<lambda>(n, _). n \<noteq> name) sps)"
| "spec_act (Act_rollback name _ _) (log, sps) =
     (case map_of sps name of
        None \<Rightarrow> (log, sps)
      | Some l \<Rightarrow> (l, takeWhile (\<lambda>(n, _). n \<noteq> name) sps @ [(name, l)]))"

text \<open>A run, each action with the manager of its moment; \<^const>\<open>None\<close> if a savepoint is set again while it exists.\<close>

fun run_acts ::
  "('p PendingOp \<Rightarrow> string + bytes) \<Rightarrow> (bytes \<Rightarrow> string + 'p PendingOp) \<Rightarrow> (Manager \<times> 'p tx_act) list
     \<Rightarrow> 'p Transaction \<Rightarrow> 'p tx_spec \<Rightarrow> ('p Transaction \<times> 'p tx_spec) option" where
  "run_acts enc dec [] tx s = Some (tx, s)"
| "run_acts enc dec ((m, a) # acts) tx s =
     (if (case a of Act_save name \<Rightarrow> savepoints tx name \<noteq> None | _ \<Rightarrow> False) then None
      else case exec_act enc dec m a tx of
             (None, tx) \<Rightarrow> run_acts enc dec acts tx (spec_act a s)
           | (Some e, tx) \<Rightarrow> run_acts enc dec acts tx s)"

definition codec_ok :: "('p PendingOp \<Rightarrow> string + bytes) \<Rightarrow> (bytes \<Rightarrow> string + 'p PendingOp) \<Rightarrow> bool" where
  "codec_ok enc dec \<longleftrightarrow> (\<forall>op b. enc op = Inr b \<longrightarrow> b \<noteq> [] \<and> 10 \<notin> set b \<and> dec b = Inr op)"

lemma encode_all_snoc:
  "encode_all enc ops = Inr bs \<Longrightarrow> enc op = Inr b \<Longrightarrow> encode_all enc (ops @ [op]) = Inr (bs @ b @ [10])"
  by (induction ops arbitrary: bs) (auto split: sum.splits)

lemma encode_all_take: "encode_all enc ops = Inr bs \<Longrightarrow> \<exists>bs'. encode_all enc (take n ops) = Inr bs'"
  by (induction ops arbitrary: bs n) (auto simp: take_Cons' split: sum.splits, (metis sum.distinct(1))+)

lemma split_line: "10 \<notin> set b \<Longrightarrow> split_lines acc (b @ 10 # r) = (acc @ b) # split_lines [] r"
  by (induction b arbitrary: acc) auto

lemma decode_split:
  "codec_ok enc dec \<Longrightarrow> encode_all enc ops = Inr bs \<Longrightarrow> decode_lines dec (split_lines [] bs) = Inr ops"
proof (induction ops arbitrary: bs)
  case (Cons op ops)
  then obtain b bs' where b: "enc op = Inr b" "encode_all enc ops = Inr bs'" "bs = b @ 10 # bs'" by (auto split: sum.splits)
  then have "b \<noteq> []" "10 \<notin> set b" "dec b = Inr op" using Cons.prems(1) by (auto simp: codec_ok_def)
  then show ?case using Cons.IH [OF Cons.prems(1) b(2)] b(3) by (simp add: split_line)
qed simp

definition buffer_is :: "('p PendingOp \<Rightarrow> string + bytes) \<Rightarrow> 'p Transaction \<Rightarrow> 'p PendingOp list \<Rightarrow> bool" where
  "buffer_is enc tx log \<longleftrightarrow>
     (if spilled tx then \<exists>bs. encode_all enc log = Inr bs \<and> spillFile tx = Some bs else tx_Ops tx = log)
     \<and> opCounter tx = length log"

definition savepoints_are :: "'p Transaction \<Rightarrow> 'p tx_spec \<Rightarrow> bool" where
  "savepoints_are tx = (\<lambda>(log, sps). savepointOrder tx = map fst sps \<and> distinct (map fst sps)
     \<and> savepoints tx = map_option length \<circ> map_of sps
     \<and> sorted_wrt prefix (map snd sps) \<and> (\<forall>l \<in> snd ` set sps. prefix l log))"

definition tx_rel :: "('p PendingOp \<Rightarrow> string + bytes) \<Rightarrow> 'p Transaction \<Rightarrow> 'p tx_spec \<Rightarrow> bool" where
  "tx_rel enc tx s \<longleftrightarrow> spillErr tx \<noteq> None \<or> buffer_is enc tx (fst s) \<and> savepoints_are tx s"

text \<open>What the parts of \<open>AddOp\<close> leave alone.\<close>

lemma RecordAccess_frame [simp]:
  "spillErr (RecordAccess m db t tx) = spillErr tx" "spilled (RecordAccess m db t tx) = spilled tx"
  "spillFile (RecordAccess m db t tx) = spillFile tx" "tx_Ops (RecordAccess m db t tx) = tx_Ops tx"
  "opCounter (RecordAccess m db t tx) = opCounter tx" "spillDir (RecordAccess m db t tx) = spillDir tx"
  "savepoints (RecordAccess m db t tx) = savepoints tx" "savepointOrder (RecordAccess m db t tx) = savepointOrder tx"
  by (simp_all add: RecordAccess_def Let_def split: option.splits)

lemma spillToDisk_frame [simp]:
  "savepoints (spillToDisk enc woc tx) = savepoints tx" "savepointOrder (spillToDisk enc woc tx) = savepointOrder tx"
  "opCounter (spillToDisk enc woc tx) = opCounter tx" "TableSnapshots (spillToDisk enc woc tx) = TableSnapshots tx"
  by (simp_all add: spillToDisk_def split: option.splits prod.splits)

lemma appendOpToFile_frame [simp]:
  "savepoints (appendOpToFile enc aoc op tx) = savepoints tx" "savepointOrder (appendOpToFile enc aoc op tx) = savepointOrder tx"
  "opCounter (appendOpToFile enc aoc op tx) = opCounter tx" "TableSnapshots (appendOpToFile enc aoc op tx) = TableSnapshots tx"
  "spilled (appendOpToFile enc aoc op tx) = spilled tx"
  by (simp_all add: appendOpToFile_def split: option.splits sum.splits append_outcome.splits)

lemma AddOp_frame [simp]:
  "savepoints (AddOp enc aoc woc m op tx) = savepoints tx" "savepointOrder (AddOp enc aoc woc m op tx) = savepointOrder tx"
  "opCounter (AddOp enc aoc woc m op tx) = Suc (opCounter tx)"
  "TableSnapshots (AddOp enc aoc woc m op tx) = TableSnapshots (RecordAccess m (op_DB op) (op_Table op) tx)"
  by (simp_all add: AddOp_def Let_def)

lemma writeOpsToFile_ok: "writeOpsToFile enc woc ops f = (None, f') \<Longrightarrow> \<exists>bs. encode_all enc ops = Inr bs \<and> f' = Some bs"
  by (auto simp: writeOpsToFile_def split: if_splits sum.splits write_outcome.splits)

lemma spillToDisk_buffer:
  "spillErr tx = None \<Longrightarrow> \<not> spilled tx \<Longrightarrow> buffer_is enc tx log \<Longrightarrow>
   spillErr (spillToDisk enc woc tx) \<noteq> None \<or> buffer_is enc (spillToDisk enc woc tx) log"
  using writeOpsToFile_ok [of enc woc "tx_Ops tx" "spillFile tx"]
  by (auto simp: spillToDisk_def buffer_is_def split: option.splits prod.splits)

lemma appendOpToFile_buffer:
  assumes "spilled tx" "encode_all enc log = Inr bs" "spillFile tx = Some bs" "spillErr tx = None"
  shows "spillErr (appendOpToFile enc aoc op tx) \<noteq> None
    \<or> (\<exists>bs'. encode_all enc (log @ [op]) = Inr bs' \<and> spillFile (appendOpToFile enc aoc op tx) = Some bs')"
  using assms encode_all_snoc [OF assms(2), of op]
  by (auto simp: appendOpToFile_def split: sum.splits append_outcome.splits)

lemma AddOp_buffer:
  assumes "spillErr tx = None" "buffer_is enc tx log"
  shows "spillErr (AddOp enc aoc woc m op tx) \<noteq> None \<or> buffer_is enc (AddOp enc aoc woc m op tx) (log @ [op])"
proof -
  let ?tx = "(RecordAccess m (op_DB op) (op_Table op) tx)\<lparr>opCounter := opCounter (RecordAccess m (op_DB op) (op_Table op) tx) + 1\<rparr>"
  show ?thesis
  proof (cases "spilled tx")
    case True
    then have "spilled ?tx" "spillErr ?tx = None" using assms(1) by simp_all
    moreover obtain bs where "encode_all enc log = Inr bs" "spillFile ?tx = Some bs" using True assms(2) by (auto simp: buffer_is_def)
    ultimately show ?thesis
      using appendOpToFile_buffer [of ?tx enc log bs aoc op] assms(2) True by (auto simp: AddOp_def Let_def buffer_is_def)
  next
    case False
    let ?tx' = "?tx\<lparr>tx_Ops := tx_Ops ?tx @ [op]\<rparr>"
    have "buffer_is enc ?tx' (log @ [op])" "spillErr ?tx' = None" "\<not> spilled ?tx'"
      using False assms by (simp_all add: buffer_is_def)
    then show ?thesis using spillToDisk_buffer [of ?tx' enc "log @ [op]" woc] False by (simp add: AddOp_def Let_def)
  qed
qed

lemma spillErr_sticky: "spillErr tx = Some e \<Longrightarrow> exec_act enc dec m a tx = (r, tx') \<Longrightarrow> spillErr tx' \<noteq> None"
  by (cases a) (auto simp: AddOp_def Let_def appendOpToFile_def spillToDisk_def Savepoint_def ReleaseSavepoint_def
      RollbackToSavepoint_def ReadOps_def split: sum.splits option.splits append_outcome.splits if_splits prod.splits
      dest: sym)

lemma ReadOps_buffer:
  assumes "codec_ok enc dec" "spillErr tx = None" "buffer_is enc tx log"
  shows "ReadOps dec read_ok tx = (if spilled tx \<and> \<not> read_ok then Inl ''read spill file'' else Inr log)"
  using assms(2,3) decode_split [OF assms(1), of log] by (auto simp: ReadOps_def buffer_is_def)

lemma keep_ops_frame:
  "keep_ops enc woc kept tx = (r, tx') \<Longrightarrow> savepoints tx' = savepoints tx \<and> savepointOrder tx' = savepointOrder tx
     \<and> (r = None \<longrightarrow> spillErr tx' = spillErr tx) \<and> (r \<noteq> None \<longrightarrow> spillErr tx' \<noteq> None)"
  by (auto simp: keep_ops_def split: if_splits option.splits prod.splits)

lemma keep_ops_buffer:
  assumes "buffer_is enc tx log" "keep_ops enc woc (take n log) tx = (None, tx')"
  shows "buffer_is enc (tx'\<lparr>opCounter := min n (length log)\<rparr>) (take n log)"
  using assms writeOpsToFile_ok [of enc woc "take n log" "spillFile tx"]
  by (auto simp: keep_ops_def buffer_is_def min.commute split: if_splits option.splits prod.splits)

lemma trim_savepoints_frame [simp]:
  "buffer_is enc (trim_savepoints name tx) = buffer_is enc tx" "spillErr (trim_savepoints name tx) = spillErr tx"
  by (auto simp: trim_savepoints_def buffer_is_def Let_def fun_eq_iff)

lemma savepoints_are_trim:
  assumes "savepoints_are tx (log, as @ (name, l) # bs)" "name \<notin> fst ` set as"
  shows "savepoints_are (trim_savepoints name tx) (l, as @ [(name, l)])"
proof -
  have w: "takeWhile (\<lambda>sn. sn \<noteq> name) (map fst as @ name # ns) = map fst as"
    "dropWhile (\<lambda>sn. sn \<noteq> name) (map fst as @ name # ns) = name # ns" for ns
    using assms(2) by (induction as) auto
  have d: "distinct (map fst as @ name # map fst bs)" using assms(1) by (simp add: savepoints_are_def)
  have m: "(if sn \<in> fst ` set bs then None else map_option length (map_of (as @ (name, l) # bs) sn))
    = map_option length (map_of (as @ [(name, l)]) sn)" for sn
  proof (cases "sn \<in> fst ` set bs")
    case True
    then have "map_of (as @ [(name, l)]) sn = None" using d by (auto simp: map_of_eq_None_iff)
    then show ?thesis using True by simp
  next
    case False
    then have "map_of bs sn = None" by (simp add: map_of_eq_None_iff)
    then show ?thesis using False by (cases "map_of as sn") (auto simp: map_add_def)
  qed
  have sp: "savepoints tx = map_option length \<circ> map_of (as @ (name, l) # bs)"
    and so: "savepointOrder tx = map fst as @ name # map fst bs" using assms(1) by (simp_all add: savepoints_are_def)
  have t: "trim_savepoints name tx = tx\<lparr>savepoints := \<lambda>sn. if sn \<in> fst ` set bs then None else savepoints tx sn,
      savepointOrder := map fst as @ [name]\<rparr>"
    by (simp add: trim_savepoints_def so w)
  have "savepoints (trim_savepoints name tx) sn = (map_option length \<circ> map_of (as @ [(name, l)])) sn" for sn
    unfolding t sp using m [of sn] by (cases "sn \<in> fst ` set bs") (simp_all del: map_of_append)
  then have "savepoints (trim_savepoints name tx) = map_option length \<circ> map_of (as @ [(name, l)])" by (rule ext)
  then show ?thesis
    using assms(1) d by (auto simp: savepoints_are_def t sorted_wrt_append)
qed

lemma map_of_split: "map_of xs k = Some v \<Longrightarrow> \<exists>as bs. xs = as @ (k, v) # bs \<and> k \<notin> fst ` set as"
proof (induction xs)
  case (Cons x xs)
  show ?case
  proof (cases "fst x = k")
    case True
    then show ?thesis using Cons.prems by (intro exI [of _ "[]"] exI [of _ xs]) (cases x, simp)
  next
    case False
    then obtain as bs where "xs = as @ (k, v) # bs" "k \<notin> fst ` set as" using Cons by (cases x) auto
    then show ?thesis using False by (intro exI [of _ "x # as"] exI [of _ bs]) auto
  qed
qed simp

lemma RollbackToSavepoint_rel:
  assumes c: "codec_ok enc dec" and e: "spillErr tx = None" and b: "buffer_is enc tx log" and s: "savepoints_are tx (log, sps)"
    and r: "RollbackToSavepoint enc dec read_ok woc name tx = (r, tx')"
  shows "tx_rel enc tx' (if r = None then spec_act (Act_rollback name read_ok woc) (log, sps) else (log, sps))"
proof (cases "map_of sps name")
  case None
  then have "savepoints tx name = None" using s by (simp add: savepoints_are_def)
  then show ?thesis using r b s by (auto simp: RollbackToSavepoint_def tx_rel_def None)
next
  case (Some l)
  then obtain as bs where sps: "sps = as @ (name, l) # bs" "name \<notin> fst ` set as" using map_of_split by metis
  have l: "l = take (length l) log" "length l \<le> length log" using s sps by (auto simp: savepoints_are_def prefix_def)
  have sp: "savepoints tx name = Some (length l)" using s Some by (simp add: savepoints_are_def)
  show ?thesis
  proof (cases "ReadOps dec read_ok tx")
    case (Inl x)
    then show ?thesis using r sp b s by (auto simp: RollbackToSavepoint_def tx_rel_def)
  next
    case (Inr ops)
    then have "ops = log" using ReadOps_buffer [OF c e b, of read_ok] by (auto split: if_splits)
    obtain r0 tx0 where k: "keep_ops enc woc (take (length l) log) tx = (r0, tx0)" by fastforce
    note f = keep_ops_frame [OF k]
    show ?thesis
    proof (cases r0)
      case None
      then have t: "r = None" "tx' = trim_savepoints name (tx0\<lparr>opCounter := length l\<rparr>)"
        using r sp Inr k l(2) \<open>ops = log\<close> by (auto simp: RollbackToSavepoint_def)
      have "buffer_is enc (tx0\<lparr>opCounter := length l\<rparr>) l"
        using keep_ops_buffer [OF b k [unfolded None]] l by (simp add: min_absorb1)
      moreover have "savepoints_are (tx0\<lparr>opCounter := length l\<rparr>) (log, as @ (name, l) # bs)"
        using s f sps by (simp add: savepoints_are_def)
      moreover have "takeWhile (\<lambda>(n, _). n \<noteq> name) sps = as"
        unfolding sps(1) using sps(2) by (induction as) auto
      ultimately show ?thesis
        using t Some savepoints_are_trim [OF _ sps(2)] by (simp add: tx_rel_def)
    next
      case (Some x)
      then show ?thesis using r sp Inr k l(2) \<open>ops = log\<close> f by (auto simp: RollbackToSavepoint_def tx_rel_def)
    qed
  qed
qed

lemma Savepoint_rel:
  assumes "buffer_is enc tx log" "savepoints_are tx (log, sps)" "savepoints tx name = None"
  shows "buffer_is enc (Savepoint name tx) log \<and> savepoints_are (Savepoint name tx) (log, sps @ [(name, log)])"
proof -
  have n: "name \<notin> fst ` set sps" using assms(2,3) by (simp add: savepoints_are_def map_of_eq_None_iff)
  have "(map_option length \<circ> map_of sps)(name \<mapsto> length log) = map_option length \<circ> map_of (sps @ [(name, log)])"
    using n by (auto simp: fun_eq_iff map_add_def image_iff dest!: map_of_SomeD split: option.splits)
  then show ?thesis
    using assms n by (auto simp: buffer_is_def savepoints_are_def Savepoint_def sorted_wrt_append)
qed

lemma map_of_filter_ne: "map_of (filter (\<lambda>(n, _). n \<noteq> name) sps) = (map_of sps)(name := None)"
  by (induction sps) auto

lemma ReleaseSavepoint_rel:
  assumes "buffer_is enc tx log" "savepoints_are tx (log, sps)"
  shows "buffer_is enc (snd (ReleaseSavepoint name tx)) log
    \<and> savepoints_are (snd (ReleaseSavepoint name tx)) (log, filter (\<lambda>(n, _). n \<noteq> name) sps)"
proof (cases "savepoints tx name")
  case None
  then have "name \<notin> fst ` set sps" using assms(2) by (simp add: savepoints_are_def map_of_eq_None_iff)
  then have "filter (\<lambda>(n, _). n \<noteq> name) sps = sps" by (induction sps) auto
  then show ?thesis using assms None by (simp add: ReleaseSavepoint_def)
next
  case (Some k)
  have f: "map fst (filter (\<lambda>(n, _). n \<noteq> name) sps) = filter (\<lambda>n. n \<noteq> name) (map fst sps)"
    by (induction sps) auto
  have "(map_option length \<circ> map_of sps)(name := None) = map_option length \<circ> map_of (filter (\<lambda>(n, _). n \<noteq> name) sps)"
    by (auto simp: map_of_filter_ne)
  moreover have "sorted_wrt prefix (map snd (filter (\<lambda>(n, _). n \<noteq> name) sps))"
    using assms(2) by (auto simp: savepoints_are_def sorted_wrt_map sorted_wrt_filter)
  ultimately show ?thesis
    using assms Some by (auto simp: ReleaseSavepoint_def savepoints_are_def buffer_is_def f distinct_remove1_removeAll
        removeAll_filter_not_eq eq_commute)
qed

lemma exec_act_rel:
  assumes "codec_ok enc dec" "tx_rel enc tx s" "exec_act enc dec m a tx = (r, tx')"
    and "\<not> (case a of Act_save name \<Rightarrow> savepoints tx name \<noteq> None | _ \<Rightarrow> False)"
  shows "tx_rel enc tx' (if r = None then spec_act a s else s)"
proof (cases "spillErr tx")
  case (Some e)
  then show ?thesis using spillErr_sticky [OF Some assms(3)] by (simp add: tx_rel_def)
next
  case None
  obtain log sps where s: "s = (log, sps)" by fastforce
  have b: "buffer_is enc tx log" "savepoints_are tx (log, sps)" using assms(2) None s by (auto simp: tx_rel_def)
  show ?thesis
  proof (cases a)
    case (Act_add op aoc woc)
    have "savepoints_are (AddOp enc aoc woc m op tx) (log @ [op], sps)" using b(2) by (auto simp: savepoints_are_def)
    then show ?thesis using AddOp_buffer [OF None b(1), of aoc woc m op] assms(3) Act_add s by (auto simp: tx_rel_def)
  next
    case (Act_save name)
    then show ?thesis using Savepoint_rel [OF b] assms(3,4) s by (auto simp: tx_rel_def)
  next
    case (Act_release name)
    then show ?thesis using ReleaseSavepoint_rel [OF b] assms(3) s by (auto simp: tx_rel_def)
  next
    case (Act_rollback name rd woc)
    then have "RollbackToSavepoint enc dec rd woc name tx = (r, tx')" using assms(3) by simp
    then show ?thesis using RollbackToSavepoint_rel [OF assms(1) None b] Act_rollback s by metis
  qed
qed

lemma run_acts_rel:
  "codec_ok enc dec \<Longrightarrow> tx_rel enc tx s \<Longrightarrow> run_acts enc dec acts tx s = Some (tx', s') \<Longrightarrow> tx_rel enc tx' s'"
proof (induction acts arbitrary: tx s)
  case (Cons x acts)
  obtain m a where x: "x = (m, a)" by fastforce
  obtain r t where e: "exec_act enc dec m a tx = (r, t)" by fastforce
  have n: "\<not> (case a of Act_save name \<Rightarrow> savepoints tx name \<noteq> None | _ \<Rightarrow> False)"
    and run: "run_acts enc dec acts t (if r = None then spec_act a s else s) = Some (tx', s')"
    using Cons.prems(3) x e by (auto split: if_splits option.splits)
  show ?case by (rule Cons.IH [OF Cons.prems(1) exec_act_rel [OF Cons.prems(1,2) e n] run])
qed simp


text \<open>The premises hold for a run with a spill threshold of two and a codec that writes the first character of the operation type.\<close>

definition demo_enc :: "unit PendingOp \<Rightarrow> string + bytes" where
  "demo_enc op = (if op = \<lparr>op_Type = ''a'', op_DB = ''d'', op_Table = ''t'', op_Payload = (), op_OldRow = (), op_Row = (),
     op_Pos = 0, op_RowKey = '''', op_TupleID = 0\<rparr> then Inr [97] else Inl ''unsupported'')"

definition demo_dec :: "bytes \<Rightarrow> string + unit PendingOp" where
  "demo_dec b = (if b = [97] then Inr \<lparr>op_Type = ''a'', op_DB = ''d'', op_Table = ''t'', op_Payload = (), op_OldRow = (), op_Row = (),
     op_Pos = 0, op_RowKey = '''', op_TupleID = 0\<rparr> else Inl ''syntax'')"

definition demo_op :: "unit PendingOp" where
  "demo_op = \<lparr>op_Type = ''a'', op_DB = ''d'', op_Table = ''t'', op_Payload = (), op_OldRow = (), op_Row = (),
     op_Pos = 0, op_RowKey = '''', op_TupleID = 0\<rparr>"

definition demo_mgr :: Manager where
  "demo_mgr = NewManager\<lparr>SpillThreshold := 2, mgr_SpillDir := ''tmp''\<rparr>"

definition demo_acts :: "(Manager \<times> unit tx_act) list" where
  "demo_acts = [(demo_mgr, Act_add demo_op Append_ok Write_ok), (demo_mgr, Act_save ''s''), (demo_mgr, Act_add demo_op Append_ok Write_ok),
     (demo_mgr, Act_add demo_op Append_ok Write_ok), (demo_mgr, Act_rollback ''s'' True Write_ok)]"

lemma demo_codec: "codec_ok demo_enc demo_dec"
  by (simp add: codec_ok_def demo_enc_def demo_dec_def)

lemma demo_run:
  "case run_acts demo_enc demo_dec demo_acts (fst (Begin demo_mgr)) ([], []) of
     Some (tx, log, sps) \<Rightarrow> spilled tx \<and> spillErr tx = None \<and> log = [demo_op] | None \<Rightarrow> False"
  by code_simp


text \<open>A buffer in memory, as a list, a counter and savepoints.\<close>

definition in_memory :: "'p Transaction \<Rightarrow> 'p PendingOp list \<Rightarrow> nat \<Rightarrow> (string \<rightharpoonup> nat) \<Rightarrow> string list \<Rightarrow> bool" where
  "in_memory tx ops n sp ord \<longleftrightarrow> \<not> spilled tx \<and> spillErr tx = None \<and> tx_Ops tx = ops \<and> opCounter tx = n
     \<and> savepoints tx = sp \<and> savepointOrder tx = ord"

lemma in_memory_AddOp:
  "in_memory tx ops n sp ord \<Longrightarrow> in_memory (AddOp enc Append_ok Write_ok NewManager op tx) (ops @ [op]) (Suc n) sp ord"
  by (simp add: in_memory_def AddOp_def Let_def NewManager_def)

lemma in_memory_Savepoint:
  "in_memory tx ops n sp ord \<Longrightarrow> in_memory (Savepoint name tx) ops n (sp(name \<mapsto> n)) (if sp name = None then ord @ [name] else ord)"
  by (simp add: in_memory_def Savepoint_def)

lemma in_memory_Rollback:
  assumes "in_memory tx ops n sp (as @ name # bs)" "name \<notin> set as" "sp name = Some k" "k \<le> length ops"
  shows "fst (RollbackToSavepoint enc dec True Write_ok name tx) = None"
    "in_memory (snd (RollbackToSavepoint enc dec True Write_ok name tx)) (take k ops) k (\<lambda>sn. if sn \<in> set bs then None else sp sn) (as @ [name])"
proof -
  have w: "takeWhile (\<lambda>sn. sn \<noteq> name) (as @ name # bs) = as" "dropWhile (\<lambda>sn. sn \<noteq> name) (as @ name # bs) = name # bs"
    using assms(2) by (induction as) auto
  show "fst (RollbackToSavepoint enc dec True Write_ok name tx) = None"
    "in_memory (snd (RollbackToSavepoint enc dec True Write_ok name tx)) (take k ops) k (\<lambda>sn. if sn \<in> set bs then None else sp sn) (as @ [name])"
    using assms w by (auto simp: in_memory_def RollbackToSavepoint_def ReadOps_def keep_ops_def trim_savepoints_def Let_def min_absorb1)
qed

lemma in_memory_ReadOps: "in_memory tx ops n sp ord \<Longrightarrow> ReadOps dec True tx = Inr ops"
  by (simp add: in_memory_def ReadOps_def)

text \<open>
  Setting a savepoint again leaves its place in the order of creation unchanged. So a rollback to an older savepoint keeps a
  marker that was set later, and a rollback to that marker keeps operations added after everything: here \<open>A\<close> was
  set on \<open>[]\<close> and on \<open>[x, y]\<close>, and the rollback to it leaves \<open>[x, z]\<close>.
\<close>

theorem savepoint_set_again_wrong:
  "let add = (\<lambda>op. AddOp enc Append_ok Write_ok NewManager op);
       back_to = (\<lambda>name tx. snd (RollbackToSavepoint enc dec True Write_ok name tx));
       tx1 = Savepoint ''A'' (fst (Begin NewManager));
       tx2 = Savepoint ''A'' (add y (Savepoint ''B'' (add x tx1)));
       tx3 = add w (add z (back_to ''B'' tx2))
   in ReadOps dec True tx1 = Inr [] \<and> ReadOps dec True tx2 = Inr [x, y]
      \<and> fst (RollbackToSavepoint enc dec True Write_ok ''A'' tx3) = None
      \<and> ReadOps dec True (back_to ''A'' tx3) = Inr [x, z]"
proof -
  let ?add = "\<lambda>op. AddOp enc Append_ok Write_ok NewManager op"
  let ?rb = "\<lambda>name tx. snd (RollbackToSavepoint enc dec True Write_ok name tx)"
  let ?tx1 = "Savepoint ''A'' (fst (Begin NewManager))"
  let ?tx2 = "Savepoint ''A'' (?add y (Savepoint ''B'' (?add x ?tx1)))"
  let ?tx3 = "?add w (?add z (?rb ''B'' ?tx2))"
  have "in_memory (fst (Begin NewManager)) [] 0 Map.empty []" by (simp add: in_memory_def Begin_def Let_def)
  from in_memory_Savepoint [OF this, of "''A''"] have 1: "in_memory ?tx1 [] 0 [''A'' \<mapsto> 0] [''A'']" by simp
  from in_memory_Savepoint [OF in_memory_AddOp [OF this, of enc x], of "''B''"]
  have "in_memory (Savepoint ''B'' (?add x ?tx1)) [x] 1 [''A'' \<mapsto> 0, ''B'' \<mapsto> 1] [''A'', ''B'']" by simp
  from in_memory_Savepoint [OF in_memory_AddOp [OF this, of enc y], of "''A''"]
  have 2: "in_memory ?tx2 [x, y] 2 [''B'' \<mapsto> 1, ''A'' \<mapsto> 2] ([''A''] @ ''B'' # [])" by (simp add: numeral_2_eq_2 fun_upd_twist)
  from in_memory_Rollback(2) [OF this, of 1 enc dec]
  have "in_memory (?rb ''B'' ?tx2) [x] 1 [''B'' \<mapsto> 1, ''A'' \<mapsto> 2] [''A'', ''B'']" by (simp add: fun_upd_def)
  from in_memory_AddOp [OF in_memory_AddOp [OF this, of enc z], of enc w]
  have 3: "in_memory ?tx3 [x, z, w] 3 [''B'' \<mapsto> 1, ''A'' \<mapsto> 2] ([] @ ''A'' # [''B''])" by (simp add: numeral_3_eq_3)
  from in_memory_Rollback [OF this, of 2 enc dec]
  have "fst (RollbackToSavepoint enc dec True Write_ok ''A'' ?tx3) = None"
    "in_memory (?rb ''A'' ?tx3) [x, z] 2 (\<lambda>sn. if sn \<in> set [''B''] then None else [''B'' \<mapsto> 1, ''A'' \<mapsto> 2] sn) [''A'']"
    by simp_all
  then show ?thesis unfolding Let_def using in_memory_ReadOps 1 2 by blast
qed

section \<open>Optimistic concurrency control\<close>

text \<open>
  What happens between the first action of a transaction and its commit: actions of the transaction itself, and what
  other goroutines do to the manager. Every write of a table bumps its version.
\<close>

datatype 'p occ_event =
    Ev_access string string
  | Ev_own "'p tx_act"
  | Ev_bump string string
  | Ev_begin
  | Ev_finish u64
  | Ev_counter u64
  | Ev_conflict u64 u64

fun occ_exec ::
  "('p PendingOp \<Rightarrow> string + bytes) \<Rightarrow> (bytes \<Rightarrow> string + 'p PendingOp) \<Rightarrow> 'p occ_event \<Rightarrow> Manager \<times> 'p Transaction \<Rightarrow> Manager \<times> 'p Transaction" where
  "occ_exec enc dec (Ev_access db table) (m, tx) = (m, RecordAccess m db table tx)"
| "occ_exec enc dec (Ev_own a) (m, tx) = (m, snd (exec_act enc dec m a tx))"
| "occ_exec enc dec (Ev_bump db table) (m, tx) = (BumpTableVersion db table m, tx)"
| "occ_exec enc dec Ev_begin (m, tx) = (snd (Begin m :: 'p Transaction \<times> Manager), tx)"
| "occ_exec enc dec (Ev_finish i) (m, tx) = (remove_active i m, tx)"
| "occ_exec enc dec (Ev_counter n) (m, tx) = (EnsureCounterAtLeast n m, tx)"
| "occ_exec enc dec (Ev_conflict r w) (m, tx) = (RecordRWConflict r w m, tx)"

fun accesses :: "string \<Rightarrow> 'p occ_event \<Rightarrow> bool" where
  "accesses k (Ev_access db table) = (tableKey db table = k)"
| "accesses k (Ev_own (Act_add op _ _)) = (tableKey (op_DB op) (op_Table op) = k)"
| "accesses k _ = False"

fun bumps :: "string \<Rightarrow> 'p occ_event \<Rightarrow> bool" where
  "bumps k (Ev_bump db table) = (tableKey db table = k)"
| "bumps k _ = False"

text \<open>How often the table was written since the transaction first touched it; \<^const>\<open>None\<close> if it never did.\<close>

fun written_since :: "string \<Rightarrow> 'p occ_event list \<Rightarrow> nat option" where
  "written_since k [] = None"
| "written_since k (e # es) = (if accesses k e then Some (length (filter (bumps k) es)) else written_since k es)"

lemma RecordAccess_snapshot:
  "map_of (TableSnapshots (RecordAccess m db t tx)) k =
    (case map_of (TableSnapshots tx) k of Some v \<Rightarrow> Some v | None \<Rightarrow> if tableKey db t = k then Some (current_version m k) else None)"
  by (auto simp: RecordAccess_def Let_def TableVersion_def split: option.splits)

lemma other_snapshots [simp]:
  "TableSnapshots (Savepoint n tx) = TableSnapshots tx" "TableSnapshots (snd (ReleaseSavepoint n tx)) = TableSnapshots tx"
  "TableSnapshots (snd (RollbackToSavepoint enc dec rd woc n tx)) = TableSnapshots tx"
  by (auto simp: Savepoint_def ReleaseSavepoint_def RollbackToSavepoint_def keep_ops_def trim_savepoints_def Let_def
      split: option.splits sum.splits prod.splits)

lemma occ_exec_snapshot:
  "map_of (TableSnapshots (snd (occ_exec enc dec e (m, tx)))) k =
    (case map_of (TableSnapshots tx) k of Some v \<Rightarrow> Some v | None \<Rightarrow> if accesses k e then Some (current_version m k) else None)"
proof (cases e)
  case (Ev_own a)
  then show ?thesis by (cases a) (auto simp: RecordAccess_snapshot split: option.splits)
qed (auto simp: RecordAccess_snapshot split: option.splits)

lemma occ_exec_version:
  "current_version (fst (occ_exec enc dec e (m, tx))) k = current_version m k + (if bumps k e then 1 else 0)"
  by (cases e) (auto simp: BumpTableVersion_def TableVersion_def current_version_def Begin_def remove_active_def EnsureCounterAtLeast_def
      RecordRWConflict_def Let_def)

lemma occ_run_version:
  "current_version (fst (fold (occ_exec enc dec) es s)) k = current_version (fst s) k + of_nat (length (filter (bumps k) es))"
proof (induction es arbitrary: s)
  case (Cons e es)
  then show ?case using occ_exec_version [of enc dec e "fst s" "snd s" k] by (simp add: algebra_simps)
qed simp

lemma occ_run_snapshot:
  "map_of (TableSnapshots (snd (fold (occ_exec enc dec) es s))) k =
    (case map_of (TableSnapshots (snd s)) k of
       Some v \<Rightarrow> Some v
     | None \<Rightarrow> map_option (\<lambda>n. current_version (fst (fold (occ_exec enc dec) es s)) k - of_nat n) (written_since k es))"
proof (induction es arbitrary: s)
  case Nil
  then show ?case by (simp split: option.splits)
next
  case (Cons e es)
  obtain m tx where s: "s = (m, tx)" by fastforce
  have b: "bumps k e \<Longrightarrow> \<not> accesses k e" by (cases e) auto
  show ?case
    using Cons [of "occ_exec enc dec e s"] occ_run_version [of enc dec es "occ_exec enc dec e s" k] b
    unfolding s by (auto simp: occ_exec_snapshot occ_exec_version split: option.splits)
qed

lemma stale_table_iff:
  "stale_table m tx = None \<longleftrightarrow> (\<forall>k v. map_of (TableSnapshots tx) k = Some v \<longrightarrow> current_version m k = v)"
proof -
  have "set (commit_tables tx) = dom (map_of (TableSnapshots tx))" by (simp add: commit_tables_def dom_map_of_conv_image_fst)
  then show ?thesis unfolding stale_table_def find_None_iff by force
qed

text \<open>
  C1: Optimistic validation is exact. Let a transaction and any other goroutines run in any order, with fewer than 2^64
  writes per table. If some table was written after the transaction first touched it, \<open>Commit\<close> fails with a conflict
  and applies nothing; otherwise, unless the serialization check objects, it applies exactly the buffered operations. In both cases the transaction
  is no longer active.
\<close>

theorem Commit_validates:
  assumes "fold (occ_exec enc dec) evs (m0, tx0) = (m, tx)" and "TableSnapshots tx0 = []"
    and "\<forall>k. length (filter (bumps k) evs) < 2 ^ 64" and "\<not> HasCycle m (tx_ID tx)"
  shows "if \<exists>k n. written_since k evs = Some n \<and> 0 < n
    then \<exists>conflict. Commit dec read_ok applyFn tx (m, w) = (Some (ErrTxConflict (Some conflict)), remove_active (tx_ID tx) m, w)
    else Commit dec read_ok applyFn tx (m, w) =
      (case ReadOps dec read_ok tx of
         Inl e \<Rightarrow> (Some (OtherError (''read ops: '' @ e)), remove_active (tx_ID tx) m, w)
       | Inr ops \<Rightarrow> (case applyFn ops (m, w) of (err, m', w') \<Rightarrow> (err, remove_active (tx_ID tx) m', w')))"
proof -
  have snap: "map_of (TableSnapshots tx) k = map_option (\<lambda>n. current_version m k - of_nat n) (written_since k evs)" for k
    using occ_run_snapshot [of enc dec evs "(m0, tx0)" k] assms(1,2) by simp
  have le: "n \<le> length (filter (bumps k) evs)" if "written_since k evs = Some n" for k n
    using that by (induction evs) (auto split: if_splits)
  have "of_nat n \<noteq> (0 :: u64)" if "written_since k evs = Some n" "0 < n" for k n
  proof -
    have "n < 2 ^ 64" using le [OF that(1)] assms(3) by (meson le_less_trans)
    then have "unat (of_nat n :: u64) = n" by (simp add: unsigned_of_nat take_bit_eq_mod)
    then show ?thesis using that(2) by auto
  qed
  then have "stale_table m tx = None \<longleftrightarrow> \<not> (\<exists>k n. written_since k evs = Some n \<and> 0 < n)"
    unfolding stale_table_iff snap by fastforce
  then show ?thesis
    using assms(4) by (auto simp: Commit_def split: option.splits sum.splits prod.splits)
qed

text \<open>The premises hold when one table is read and another one is written by somebody else; then the commit goes through.\<close>

theorem Commit_validates_witness:
  "\<exists>m tx. fold (occ_exec demo_enc demo_dec) [Ev_access ''d'' ''t'', Ev_bump ''d'' ''u''] (snd (Begin NewManager :: unit Transaction \<times> Manager), fst (Begin NewManager)) = (m, tx)
     \<and> Commit demo_dec True (\<lambda>ops (m, w). (None, m, w + length ops)) tx (m, 5) = (None, remove_active (tx_ID tx) m, 5)"
proof -
  let ?b = "Begin NewManager :: unit Transaction \<times> Manager"
  let ?evs = "[Ev_access ''d'' ''t'', Ev_bump ''d'' ''u''] :: unit occ_event list"
  obtain m tx where r: "fold (occ_exec demo_enc demo_dec) ?evs (snd ?b, fst ?b) = (m, tx)" by fastforce
  have t: "tx = RecordAccess (snd ?b) ''d'' ''t'' (fst ?b)" and m: "m = BumpTableVersion ''d'' ''u'' (snd ?b)" using r by simp_all
  have h: "\<not> HasCycle m (tx_ID tx)" by (simp add: m HasCycle_def BumpTableVersion_def Begin_def NewManager_def Let_def)
  have o: "ReadOps demo_dec True tx = Inr []" by (simp add: t ReadOps_def Begin_def Let_def)
  have w: "\<not> (\<exists>k n. written_since k ?evs = Some n \<and> 0 < n)" by (auto simp: tableKey_def)
  have b: "\<forall>k. length (filter (bumps k) ?evs) < 2 ^ 64" by (simp add: tableKey_def)
  have "Commit demo_dec True (\<lambda>ops (m, w). (None, m, w + length ops)) tx (m, 5) = (None, remove_active (tx_ID tx) m, 5)"
    using Commit_validates [OF r _ b h, of True "\<lambda>ops (m, w). (None, m, w + length ops)" 5] w o
    by (simp add: Begin_def Let_def)
  then show ?thesis using r by blast
qed

section \<open>Retry, locks and transaction numbers\<close>

text \<open>\<open>Commit\<close> locks its tables in increasing order of their keys, each once.\<close>

definition lockTables_step :: "string table_locks \<Rightarrow> string table_locks \<Rightarrow> bool" where
  "lockTables_step = plan_step (\<lambda>keys. sort (remdups keys))"

interpretation tables: lock_plan "\<lambda>keys :: string list. sort (remdups keys)"
  by unfold_locales simp_all

lemma commit_tables_plan: "distinct (map fst (TableSnapshots tx)) \<Longrightarrow> commit_tables tx = sort (remdups (map fst (TableSnapshots tx)))"
  by (simp add: commit_tables_def distinct_remdups_id)

text \<open>Commits never wait for each other in a circle.\<close>

lemma lockTables_no_deadlock:
  assumes "lockTables_step\<^sup>*\<^sup>* no_locks s" and "todo s t \<noteq> []"
  shows "(\<exists>u h hs. todo s u = h # hs \<and> tl_owner s h = None) \<or> (\<exists>u h. tl_owner s h = Some u \<and> todo s u = [])"
  by (rule tables.not_stuck [OF assms [unfolded lockTables_step_def]])

lemma SplitN2_join: "SplitN2 acc s = Some (db, table) \<Longrightarrow> tableKey db table = acc @ s"
  by (induction acc s rule: SplitN2.induct) (auto simp: tableKey_def split: if_splits)

lemma refreshSnapshots_fresh:
  assumes "\<forall>k \<in> fst ` set (TableSnapshots tx). SplitN2 [] k \<noteq> None"
  shows "stale_table m (refreshSnapshots m tx) = None"
proof -
  have e: "(case SplitN2 [] k of Some (db, table) \<Rightarrow> TableVersion m db table | None \<Rightarrow> v) = current_version m k"
    if "SplitN2 [] k \<noteq> None" for k v
    using that SplitN2_join [of "[]" k] by (auto simp: TableVersion_def)
  have "map_of (map (\<lambda>(key, v). (key, case SplitN2 [] key of Some (db, table) \<Rightarrow> TableVersion m db table | None \<Rightarrow> v)) xs) k = Some v
    \<Longrightarrow> \<forall>k \<in> fst ` set xs. SplitN2 [] k \<noteq> None \<Longrightarrow> current_version m k = v" for xs k v
  proof (induction xs)
    case (Cons x xs)
    then show ?case using e [of "fst x" "snd x"] by (cases x) (auto split: if_splits)
  qed simp
  then show ?thesis using assms by (simp add: stale_table_iff refreshSnapshots_def)
qed

text \<open>The oldest active transaction number is at most the counter and every active number, and is one of them.\<close>

lemma OldestActiveXID_Min: "OldestActiveXID m = Min (insert (counter m) (fst ` set (ActiveTxs m)))"
proof -
  have "fold (\<lambda>(xid, _) oldest. if xid < oldest then xid else oldest) xs c = fold min (map fst xs) c"
    for xs :: "(u64 \<times> u64 set) list" and c
    by (induction xs arbitrary: c) (auto simp: min_def)
  then have "OldestActiveXID m = Min (set (counter m # map fst (ActiveTxs m)))"
    unfolding OldestActiveXID_def Min.set_eq_fold by simp
  then show ?thesis by simp
qed

text \<open>A transaction that has begun and not ended counts as committed as soon as another one begins.\<close>

lemma active_counts_as_committed:
  "let (t1, m1) = Begin NewManager; (t2, m2) = Begin m1
   in GetSnapshot m2 (tx_ID t1) \<noteq> None \<and> IsCommitted m2 (tx_ID t1) \<and> \<not> IsCommitted m2 (tx_ID t2)"
  by (simp add: Begin_def NewManager_def Let_def GetSnapshot_def IsCommitted_def)

text \<open>A lock conflicts exactly with the writes of other transactions that its granule contains.\<close>

definition lock_covers :: "PredicateLock \<Rightarrow> string \<Rightarrow> string \<Rightarrow> u64 \<Rightarrow> u16 \<Rightarrow> bool" where
  "lock_covers l db table p t \<longleftrightarrow> pl_DBName l = db \<and> pl_TableName l = table
     \<and> (Granularity l = RelationGranularity \<or> pl_PageID l = p \<and> (Granularity l = PageGranularity \<or> pl_TupleID l = t))"

lemma CheckConflict_iff:
  "CheckConflict locks tx db table p t \<longleftrightarrow> (\<exists>l \<in> set locks. pl_TxID l \<noteq> tx \<and> lock_covers l db table p t)"
  by (induction locks) (auto simp: lock_covers_def split: LockGranularity.splits)

text \<open>A rolled-back transaction is as good as new, except for its number and its snapshots; the spill file is gone.\<close>

lemma tx_Rollback_clean:
  "let (tx', c') = tx_Rollback dec read_ok undo_of has_catalog catalog (tx, c)
   in tx_State tx' = TxIdle \<and> \<not> spilled tx' \<and> (spilled tx \<longrightarrow> spillFile tx' = None) \<and> ReadOps dec rd tx' = Inr []
      \<and> (\<not> has_catalog \<longrightarrow> c' = c)"
  by (simp add: tx_Rollback_def Let_def ReadOps_def)

end
