(* ===== verification/Float64.thy ===== *)
theory Float64
  imports Vdb_Prelude
begin

text \<open>
  Go's \<^verbatim>\<open>float64\<close>: IEEE 754 binary64 with rounding to nearest, ties to even. A value is its 64 bits
  (\<^verbatim>\<open>math.Float64bits\<close>). A finite number is a sign and \<open>m * 2 ^ e\<close> with a natural number \<open>m\<close>; the
  arithmetic operations compute exactly on such pairs and round once. The language does not fix the bits of a NaN
  result; the model always gives the same quiet NaN, and no comparison depends on its bits.
\<close>

unbundle bit_operations_syntax

type_synonym f64 = u64

definition f64_neg :: "f64 \<Rightarrow> bool" where
  "f64_neg x \<longleftrightarrow> bit x 63"

definition f64_exp :: "f64 \<Rightarrow> nat" where
  "f64_exp x = unat (drop_bit 52 x AND 0x7FF)"

definition f64_frac :: "f64 \<Rightarrow> nat" where
  "f64_frac x = unat (x AND 0xFFFFFFFFFFFFF)"

definition f64_nan :: "f64 \<Rightarrow> bool" where
  "f64_nan x \<longleftrightarrow> f64_exp x = 0x7FF \<and> f64_frac x \<noteq> 0"

definition f64_inf :: "f64 \<Rightarrow> bool" where
  "f64_inf x \<longleftrightarrow> f64_exp x = 0x7FF \<and> f64_frac x = 0"

definition f64_zero :: "f64 \<Rightarrow> bool" where
  "f64_zero x \<longleftrightarrow> f64_exp x = 0 \<and> f64_frac x = 0"

text \<open>The magnitude of a finite number: \<open>m * 2 ^ e\<close>.\<close>

definition f64_mag :: "f64 \<Rightarrow> nat \<times> int" where
  "f64_mag x = (if f64_exp x = 0 then (f64_frac x, - 1074) else (2 ^ 52 + f64_frac x, int (f64_exp x) - 1075))"

definition quiet_nan :: f64 where "quiet_nan = 0x7FF8000000000001"

definition with_sign :: "bool \<Rightarrow> nat \<Rightarrow> f64" where
  "with_sign s bits = (if s then word_of_nat (2 ^ 63 + bits) else word_of_nat bits)"

definition infinity_bits :: nat where "infinity_bits = 0x7FF0000000000000"

section \<open>Rounding\<close>

text \<open>The fraction \<open>n * 2 ^ e / d\<close> as a pair of naturals.\<close>

definition scaled :: "nat \<Rightarrow> nat \<Rightarrow> int \<Rightarrow> nat \<times> nat" where
  "scaled n d e = (if 0 \<le> e then (n * 2 ^ nat e, d) else (n, d * 2 ^ nat (- e)))"

definition round_half_even :: "nat \<Rightarrow> nat \<Rightarrow> nat" where
  "round_half_even a b = (let q = a div b; r = a mod b in if b < 2 * r \<or> (2 * r = b \<and> odd q) then q + 1 else q)"

fun bit_length :: "nat \<Rightarrow> nat" where
  "bit_length n = (if n = 0 then 0 else Suc (bit_length (n div 2)))"

declare bit_length.simps [simp del]

text \<open>The largest \<open>a\<close> with \<open>2 ^ a \<le> n / d\<close>, for positive \<open>n\<close> and \<open>d\<close>.\<close>

definition floor_log2 :: "nat \<Rightarrow> nat \<Rightarrow> int" where
  "floor_log2 n d =
     (let a = int (bit_length n) - int (bit_length d); (n', d') = scaled n d (- a)
      in if d' \<le> n' then a else a - 1)"

text \<open>The number nearest to \<open>n * 2 ^ e / d\<close>: the quotient with 53 bits, or with fewer below the smallest normal number.\<close>

definition f64_round :: "bool \<Rightarrow> nat \<Rightarrow> nat \<Rightarrow> int \<Rightarrow> f64" where
  "f64_round s n d e =
     (if n = 0 then with_sign s 0
      else let (a, b) = scaled n d e;
               k = max (- 1074) (floor_log2 a b - 52);
               (a, b) = scaled a b (- k);
               q = round_half_even a b;
               bits = nat (k + 1074) * 2 ^ 52 + q
           in with_sign s (min bits infinity_bits))"

section \<open>Arithmetic\<close>

definition f64_signed :: "bool \<Rightarrow> nat \<Rightarrow> int" where
  "f64_signed s m = (if s then - int m else int m)"

definition f64_minus :: "f64 \<Rightarrow> f64" where
  "f64_minus x = x XOR 0x8000000000000000"

definition f64_add :: "f64 \<Rightarrow> f64 \<Rightarrow> f64" where
  "f64_add x y =
     (if f64_nan x \<or> f64_nan y then quiet_nan
      else if f64_inf x then (if f64_inf y \<and> f64_neg x \<noteq> f64_neg y then quiet_nan else x)
      else if f64_inf y then y
      else if f64_zero x \<and> f64_zero y then with_sign (f64_neg x \<and> f64_neg y) 0
      else let (m, e) = f64_mag x; (m', e') = f64_mag y; e0 = min e e';
               v = f64_signed (f64_neg x) (m * 2 ^ nat (e - e0)) + f64_signed (f64_neg y) (m' * 2 ^ nat (e' - e0))
           in f64_round (v < 0) (nat \<bar>v\<bar>) 1 e0)"

definition f64_sub :: "f64 \<Rightarrow> f64 \<Rightarrow> f64" where
  "f64_sub x y = (if f64_nan x \<or> f64_nan y then quiet_nan else f64_add x (f64_minus y))"

definition f64_mul :: "f64 \<Rightarrow> f64 \<Rightarrow> f64" where
  "f64_mul x y =
     (let s = (f64_neg x \<noteq> f64_neg y)
      in if f64_nan x \<or> f64_nan y \<or> (f64_inf x \<and> f64_zero y) \<or> (f64_zero x \<and> f64_inf y) then quiet_nan
         else if f64_inf x \<or> f64_inf y then with_sign s infinity_bits
         else let (m, e) = f64_mag x; (m', e') = f64_mag y in f64_round s (m * m') 1 (e + e'))"

definition f64_div :: "f64 \<Rightarrow> f64 \<Rightarrow> f64" where
  "f64_div x y =
     (let s = (f64_neg x \<noteq> f64_neg y)
      in if f64_nan x \<or> f64_nan y \<or> (f64_inf x \<and> f64_inf y) \<or> (f64_zero x \<and> f64_zero y) then quiet_nan
         else if f64_inf x \<or> f64_zero y then with_sign s infinity_bits
         else if f64_inf y then with_sign s 0
         else let (m, e) = f64_mag x; (m', e') = f64_mag y in f64_round s m m' (e - e'))"

text \<open>The conversion \<^verbatim>\<open>float64(i)\<close> of an \<^verbatim>\<open>int64\<close>.\<close>

definition f64_of_int64 :: "u64 \<Rightarrow> f64" where
  "f64_of_int64 i = f64_round (sint i < 0) (nat \<bar>sint i\<bar>) 1 0"

section \<open>Comparison\<close>

text \<open>Numbers that are not NaN are ordered by their bits, read as a sign and a magnitude.\<close>

definition f64_key :: "f64 \<Rightarrow> int" where
  "f64_key x = f64_signed (f64_neg x) (unat (x AND 0x7FFFFFFFFFFFFFFF))"

definition f64_eq :: "f64 \<Rightarrow> f64 \<Rightarrow> bool" where
  "f64_eq x y \<longleftrightarrow> \<not> f64_nan x \<and> \<not> f64_nan y \<and> f64_key x = f64_key y"

definition f64_less :: "f64 \<Rightarrow> f64 \<Rightarrow> bool" where
  "f64_less x y \<longleftrightarrow> \<not> f64_nan x \<and> \<not> f64_nan y \<and> f64_key x < f64_key y"

definition f64_le :: "f64 \<Rightarrow> f64 \<Rightarrow> bool" where
  "f64_le x y \<longleftrightarrow> \<not> f64_nan x \<and> \<not> f64_nan y \<and> f64_key x \<le> f64_key y"

section \<open>Known values\<close>

lemma bit_length_num:
  "bit_length 0 = 0" "bit_length (Suc 0) = 1" "bit_length (numeral k) = Suc (bit_length (numeral k div 2))"
  by (simp_all add: bit_length.simps [of 0] bit_length.simps [of "Suc 0"] bit_length.simps [of "numeral k"])

lemmas f64_defs = f64_add_def f64_sub_def f64_mul_def f64_div_def f64_of_int64_def f64_nan_def f64_inf_def f64_zero_def
  f64_neg_def f64_exp_def f64_frac_def f64_mag_def f64_signed_def f64_minus_def with_sign_def infinity_bits_def quiet_nan_def
  f64_key_def f64_eq_def f64_less_def f64_le_def Let_def

lemmas f64_round_defs = f64_round_def scaled_def floor_log2_def bit_length_num round_half_even_def with_sign_def infinity_bits_def

text \<open>0.1 + 0.2 = 0.30000000000000004, 3 * 0.1, 1 / 3, and 2^53 + 1, which is not a float64.\<close>

lemma f64_known_add: "f64_add 0x3FB999999999999A 0x3FC999999999999A = 0x3FD3333333333334"
  by (simp add: f64_defs) (simp add: f64_round_defs)

lemma f64_known_mul: "f64_mul 0x4008000000000000 0x3FB999999999999A = 0x3FD3333333333334"
  by (simp add: f64_defs) (simp add: f64_round_defs)

lemma f64_known_div: "f64_div 0x3FF0000000000000 0x4008000000000000 = 0x3FD5555555555555"
  by (simp add: f64_defs) (simp add: f64_round_defs)

lemma f64_known_int: "f64_of_int64 9007199254740993 = 0x4340000000000000"
  by (simp add: f64_defs) (simp add: f64_round_defs)

lemma f64_known_compare:
  "f64_eq 0 0x8000000000000000" "f64_less 0xBFF0000000000000 0x3FF0000000000000" "\<not> f64_eq quiet_nan quiet_nan"
  by (simp_all add: f64_defs)

text \<open>The comparisons are those of a total order on the numbers that are not NaN.\<close>

lemma f64_order:
  "\<not> f64_nan x \<Longrightarrow> \<not> f64_nan y \<Longrightarrow> f64_less x y \<or> f64_eq x y \<or> f64_less y x"
  "f64_le x y \<longleftrightarrow> f64_less x y \<or> f64_eq x y"
  "f64_less x y \<Longrightarrow> f64_less y z \<Longrightarrow> f64_less x z"
  by (auto simp: f64_less_def f64_eq_def f64_le_def)

end
