(* ===== verification/Row_Codec.thy ===== *)
theory Row_Codec
  imports Float64
begin

text \<open>
  Rows as bytes: the binary tuple format of \<^verbatim>\<open>storage/binary_encoding.go\<close> with the flags packed into the
  transaction numbers, the pooled buffers of \<^verbatim>\<open>storage/arena.go\<close>, and the tuple header and null bitmap of
  \<^verbatim>\<open>storage/page/tuple.go\<close>.

  A column value is a Go interface value; the constructors are the dynamic types the code distinguishes. Strings are their bytes.
  JSON objects are values of a type variable with marshalling and parsing as a parameter.
\<close>

unbundle bit_operations_syntax

section \<open>Values\<close>

datatype 'j val =
    VNil
  | VInt u64
  | VInt64 u64
  | VFloat f64
  | VBool bool
  | VString bytes
  | VVector "f64 list"
  | VMap 'j
  | VOther

text \<open>\<open>json_Decode\<close> gives an object, or \<^const>\<open>None\<close> when the text is not valid JSON or not an object.\<close>

record 'j jsonb =
  json_Marshal :: "'j \<Rightarrow> string + bytes"
  json_Decode :: "bytes \<Rightarrow> 'j option"

datatype row_error = EmptyRow | ColumnError nat string | TupleTooLarge nat | TupleTooShort | HeaderTruncated

section \<open>One column\<close>

definition encodeColumnValue :: "'j jsonb \<Rightarrow> 'j val \<Rightarrow> string + bytes" where
  "encodeColumnValue js v =
     (case v of
        VNil \<Rightarrow> Inr [0xFF]
      | VInt64 i \<Rightarrow> Inr (105 # le64 i)
      | VFloat f \<Rightarrow> Inr (102 # le64 f)
      | VBool b \<Rightarrow> Inr [98, if b then 1 else 0]
      | VString s \<Rightarrow>
          if length s > 65535 then Inl ''string too long for binary encoding'' else Inr (115 # le16 (word_of_nat (length s)) @ s)
      | VMap m \<Rightarrow>
          (case json_Marshal js m of
             Inl e \<Rightarrow> Inl e
           | Inr b \<Rightarrow> if length b > 65535 then Inl ''JSONB too long for binary encoding''
                      else Inr (106 # le16 (word_of_nat (length b)) @ b))
      | VVector fs \<Rightarrow> Inr (118 # le16 (word_of_nat (length fs)) @ concat (map le64 fs))
      | _ \<Rightarrow> Inl ''unsupported value type for binary encoding'')"

text \<open>The floats of a vector, read one after the other.\<close>

fun read_floats :: "nat \<Rightarrow> bytes \<Rightarrow> f64 list" where
  "read_floats 0 data = []"
| "read_floats (Suc n) data = get64 data # read_floats n (drop 8 data)"

definition decodeColumnValue :: "'j jsonb \<Rightarrow> bytes \<Rightarrow> string + 'j val" where
  "decodeColumnValue js data =
     (if data = [] then Inr VNil
      else let tag = hd data; len = unat (get16 (drop 1 data))
        in if tag = 0xFF then Inr VNil
           else if tag = 105 then (if length data < 9 then Inl ''int64 truncated'' else Inr (VInt64 (get64 (drop 1 data))))
           else if tag = 102 then (if length data < 9 then Inl ''float64 truncated'' else Inr (VFloat (get64 (drop 1 data))))
           else if tag = 98 then (if length data < 2 then Inl ''bool truncated'' else Inr (VBool (data ! 1 = 1)))
           else if tag = 115 then
             (if length data < 3 then Inl ''string header truncated''
              else if length data < 3 + len then Inl ''string data truncated''
              else Inr (VString (take len (drop 3 data))))
           else if tag = 106 then
             (if length data < 3 then Inl ''jsonb header truncated''
              else if length data < 3 + len then Inl ''jsonb data truncated''
              else (case json_Decode js (take len (drop 3 data)) of
                      Some m \<Rightarrow> Inr (VMap m) | None \<Rightarrow> Inr (VString (take len (drop 3 data)))))
           else if tag = 118 then
             (if length data < 3 then Inl ''vector header truncated''
              else if length data < 3 + len * 8 then Inl ''vector data truncated''
              else Inr (VVector (read_floats len (drop 3 data))))
           else Inl ''unknown type tag'')"

section \<open>Encoding a row\<close>

text \<open>The first pass: the size of the tuple, or the first column that cannot be encoded.\<close>

definition value_size :: "'j jsonb \<Rightarrow> 'j val \<Rightarrow> string + nat" where
  "value_size js v =
     (case v of
        VNil \<Rightarrow> Inr 1
      | VInt64 i \<Rightarrow> Inr 9
      | VFloat f \<Rightarrow> Inr 9
      | VBool b \<Rightarrow> Inr 2
      | VString s \<Rightarrow> if length s > 65535 then Inl ''string too long for binary encoding'' else Inr (3 + length s)
      | VVector fs \<Rightarrow> Inr (3 + length fs * 8)
      | VMap m \<Rightarrow>
          (case json_Marshal js m of
             Inl e \<Rightarrow> Inl e
           | Inr b \<Rightarrow> if length b > 65535 then Inl ''JSONB too long for binary encoding'' else Inr (3 + length b))
      | _ \<Rightarrow> Inl ''unsupported value type for binary encoding'')"

fun total_size :: "'j jsonb \<Rightarrow> nat \<Rightarrow> nat \<Rightarrow> 'j val list \<Rightarrow> row_error + nat" where
  "total_size js i acc [] = Inr acc"
| "total_size js i acc (v # vs) =
     (case value_size js v of
        Inl e \<Rightarrow> Inl (ColumnError i e)
      | Inr n \<Rightarrow> total_size js (i + 1) (acc + n) vs)"

text \<open>\<open>Get\<close> of the memory pool; \<open>b\<close> is the buffer the pool holds, up to its capacity. Its old contents stay.\<close>

definition MemoryPool_Get :: "bytes \<Rightarrow> nat \<Rightarrow> bytes" where
  "MemoryPool_Get b n = (if length b < n then replicate n 0 else take n b)"

text \<open>\<^verbatim>\<open>PutUintNN(p[lo:hi], v)\<close>: the bounds are checked, and the slice must be long enough.\<close>

definition put_slice :: "u16 \<Rightarrow> u16 \<Rightarrow> bytes \<Rightarrow> bytes \<Rightarrow> bytes option" where
  "put_slice lo hi bs p =
     (if lo \<le> hi \<and> unat hi \<le> length p \<and> length bs \<le> unat hi - unat lo then Some (overwrite (unat lo) bs p) else None)"

fun put_floats :: "u16 \<Rightarrow> f64 list \<Rightarrow> bytes \<Rightarrow> bytes option" where
  "put_floats lo [] p = Some p"
| "put_floats lo (f # fs) p = Option.bind (put_slice lo (lo + 8) (le64 f) p) (put_floats (lo + 8) fs)"

text \<open>The second pass writes each value at its offset, a \<^verbatim>\<open>uint16\<close>, into the buffer.\<close>

definition put_value :: "'j jsonb \<Rightarrow> u16 \<Rightarrow> 'j val \<Rightarrow> bytes \<Rightarrow> (u16 \<times> bytes) option" where
  "put_value js offset v p =
     (case v of
        VNil \<Rightarrow> map_option (Pair (offset + 1)) (put_at (unat offset) [0xFF] p)
      | VInt64 i \<Rightarrow>
          Option.bind (put_at (unat offset) [105] p) (\<lambda>p.
            map_option (Pair (offset + 9)) (put_slice (offset + 1) (offset + 9) (le64 i) p))
      | VFloat f \<Rightarrow>
          Option.bind (put_at (unat offset) [102] p) (\<lambda>p.
            map_option (Pair (offset + 9)) (put_slice (offset + 1) (offset + 9) (le64 f) p))
      | VBool b \<Rightarrow>
          Option.bind (put_at (unat offset) [98] p) (\<lambda>p.
            map_option (Pair (offset + 2)) (put_at (unat (offset + 1)) [if b then 1 else 0] p))
      | VString s \<Rightarrow>
          Option.bind (put_at (unat offset) [115] p) (\<lambda>p.
            Option.bind (put_slice (offset + 1) (offset + 3) (le16 (word_of_nat (length s))) p) (\<lambda>p.
              map_option (Pair (offset + word_of_nat (3 + length s))) (copy_at (unat (offset + 3)) s p)))
      | VVector fs \<Rightarrow>
          Option.bind (put_at (unat offset) [118] p) (\<lambda>p.
            Option.bind (put_slice (offset + 1) (offset + 3) (le16 (word_of_nat (length fs))) p) (\<lambda>p.
              map_option (Pair (offset + word_of_nat (3 + length fs * 8))) (put_floats (offset + 3) fs p)))
      | VMap m \<Rightarrow>
          (case json_Marshal js m of
             Inl e \<Rightarrow> Some (offset, p)
           | Inr b \<Rightarrow>
               Option.bind (put_at (unat offset) [106] p) (\<lambda>p.
                 Option.bind (put_slice (offset + 1) (offset + 3) (le16 (word_of_nat (length b))) p) (\<lambda>p.
                   map_option (Pair (offset + word_of_nat (3 + length b))) (copy_at (unat (offset + 3)) b p))))
      | _ \<Rightarrow> Some (offset, p))"

fun put_columns :: "'j jsonb \<Rightarrow> nat \<Rightarrow> u16 \<Rightarrow> 'j val list \<Rightarrow> bytes \<Rightarrow> bytes option" where
  "put_columns js i offset [] p = Some p"
| "put_columns js i offset (v # vs) p =
     Option.bind (put_at (18 + i * 2) (le16 offset) p) (\<lambda>p.
       Option.bind (put_value js offset v p) (\<lambda>(offset, p). put_columns js (i + 1) offset vs p))"

definition EncodeRow :: "'j jsonb \<Rightarrow> bytes \<Rightarrow> u64 \<Rightarrow> u64 \<Rightarrow> 'j val list \<Rightarrow> (row_error + bytes) option" where
  "EncodeRow js pooled createdTx deletedTx row =
     (if row = [] then Some (Inl EmptyRow)
      else let headerSize = 18 + length row * 2
        in case total_size js 0 headerSize row of
             Inl e \<Rightarrow> Some (Inl e)
           | Inr totalSize \<Rightarrow>
               if totalSize > 65535 then Some (Inl (TupleTooLarge totalSize))
               else
                 Option.bind (put_at 0 (le64 createdTx) (MemoryPool_Get pooled totalSize)) (\<lambda>p.
                 Option.bind (put_at 8 (le64 deletedTx) p) (\<lambda>p.
                 Option.bind (put_at 16 (le16 (word_of_nat (length row))) p) (\<lambda>p.
                   map_option Inr (put_columns js 0 (word_of_nat headerSize) row p)))))"

section \<open>Decoding a row\<close>

definition read16 :: "bytes \<Rightarrow> nat \<Rightarrow> u16 option" where
  "read16 p i = map_option get16 (go_slice p i (i + 2))"

fun read_columns :: "'j jsonb \<Rightarrow> bytes \<Rightarrow> nat \<Rightarrow> nat list \<Rightarrow> (row_error + 'j val list) option" where
  "read_columns js tuple n [] = Some (Inr [])"
| "read_columns js tuple n (i # is) =
     Option.bind (read16 tuple (18 + i * 2)) (\<lambda>valOffset.
     Option.bind (if i + 1 < n then read16 tuple (18 + (i + 1) * 2) else Some (word_of_nat (length tuple))) (\<lambda>nextOffset.
     Option.bind (go_slice tuple (unat valOffset) (unat nextOffset)) (\<lambda>valBytes.
       case decodeColumnValue js valBytes of
         Inl e \<Rightarrow> Some (Inl (ColumnError i e))
       | Inr v \<Rightarrow> map_option (map_sum id (Cons v)) (read_columns js tuple n is))))"

definition DecodeRow :: "'j jsonb \<Rightarrow> bytes \<Rightarrow> (row_error + u64 \<times> u64 \<times> 'j val list) option" where
  "DecodeRow js tuple =
     (if length tuple < 18 then Some (Inl TupleTooShort)
      else let n = unat (get16 (drop 16 tuple))
        in if length tuple < 18 + n * 2 then Some (Inl HeaderTruncated)
           else map_option (map_sum id (\<lambda>row. (get64 tuple, get64 (drop 8 tuple), row))) (read_columns js tuple n [0 ..< n]))"

section \<open>Flags in the transaction number\<close>

definition TxIDMask :: u64 where "TxIDMask = 0x0000FFFFFFFFFFFF"
definition hotUpdatedFlag :: u64 where "hotUpdatedFlag = push_bit 48 1"
definition hotHeapTupleFlag :: u64 where "hotHeapTupleFlag = push_bit 49 1"
definition hotForwardMask :: u64 where "hotForwardMask = 0x3FFF"
definition xminCommittedFlag :: u64 where "xminCommittedFlag = push_bit 62 1"
definition xmaxCommittedFlag :: u64 where "xmaxCommittedFlag = push_bit 63 1"

text \<open>The operations work on the first eight bytes of the tuple and panic when it is shorter; here they work on the number itself.\<close>

definition IsHOTUpdated :: "u64 \<Rightarrow> bool" where "IsHOTUpdated val \<longleftrightarrow> val AND hotUpdatedFlag \<noteq> 0"
definition IsHOTHeapTuple :: "u64 \<Rightarrow> bool" where "IsHOTHeapTuple val \<longleftrightarrow> val AND hotHeapTupleFlag \<noteq> 0"
definition GetForwardSlot :: "u64 \<Rightarrow> u16" where "GetForwardSlot val = ucast (drop_bit 50 val AND hotForwardMask)"

definition SetHOTUpdated :: "u16 \<Rightarrow> u64 \<Rightarrow> u64" where
  "SetHOTUpdated forwardSlot val =
     (((val OR hotUpdatedFlag) AND NOT (push_bit 50 hotForwardMask)) OR push_bit 50 (ucast forwardSlot AND hotForwardMask))"

definition SetHOTHeapTuple :: "u64 \<Rightarrow> u64" where "SetHOTHeapTuple val = val OR hotHeapTupleFlag"
definition IsXMinCommitted :: "u64 \<Rightarrow> bool" where "IsXMinCommitted val \<longleftrightarrow> val AND xminCommittedFlag \<noteq> 0"
definition SetXMinCommitted :: "u64 \<Rightarrow> u64" where "SetXMinCommitted val = val OR xminCommittedFlag"
definition IsXMaxCommitted :: "u64 \<Rightarrow> bool" where "IsXMaxCommitted val \<longleftrightarrow> val AND xmaxCommittedFlag \<noteq> 0"
definition SetXMaxCommitted :: "u64 \<Rightarrow> u64" where "SetXMaxCommitted val = val OR xmaxCommittedFlag"

text \<open>An operation of the flags on the bytes of a tuple.\<close>

definition on_tuple :: "(u64 \<Rightarrow> u64) \<Rightarrow> bytes \<Rightarrow> bytes option" where
  "on_tuple f tuple = (if length tuple < 8 then None else Some (overwrite 0 (le64 (f (get64 tuple))) tuple))"

section \<open>Tuple header and null bitmap\<close>

record TupleHeader =
  XMin :: u64
  XMax :: u64
  CMin :: u32
  InfoMask :: u16
  NAttributes :: u16

definition TupleHeaderSize :: nat where "TupleHeaderSize = 24"

definition Serialize :: "TupleHeader \<Rightarrow> bytes \<Rightarrow> string + bytes" where
  "Serialize h buf =
     (if length buf < TupleHeaderSize then Inl ''buffer too small for tuple header''
      else Inr (overwrite 22 (le16 (NAttributes h)) (overwrite 20 (le16 (InfoMask h)) (overwrite 16 (le32 (CMin h))
             (overwrite 8 (le64 (XMax h)) (overwrite 0 (le64 (XMin h)) buf))))))"

definition ParseTupleHeader :: "bytes \<Rightarrow> string + TupleHeader" where
  "ParseTupleHeader buf =
     (if length buf < TupleHeaderSize then Inl ''tuple header too short''
      else Inr \<lparr>XMin = get64 buf, XMax = get64 (drop 8 buf), CMin = get32 (drop 16 buf), InfoMask = get16 (drop 20 buf),
                NAttributes = get16 (drop 22 buf)\<rparr>)"

definition NullBitmapSize :: "u16 \<Rightarrow> nat" where
  "NullBitmapSize nAttrs = (unat nAttrs + 7) div 8"

definition IsNull :: "bytes \<Rightarrow> int \<Rightarrow> bool" where
  "IsNull bitmap i =
     (if i < 0 \<or> int (length bitmap) \<le> i div 8 then False
      else bitmap ! nat (i div 8) AND push_bit (nat (i mod 8)) 1 = 0)"

definition SetNotNull :: "int \<Rightarrow> bytes \<Rightarrow> bytes" where
  "SetNotNull i bitmap =
     (if i < 0 \<or> int (length bitmap) \<le> i div 8 then bitmap
      else bitmap[nat (i div 8) := bitmap ! nat (i div 8) OR push_bit (nat (i mod 8)) 1])"

section \<open>The layout of an encoded row\<close>

text \<open>The reference: the header, the offsets of the columns, and the columns one after the other.\<close>

fun offsets :: "nat \<Rightarrow> bytes list \<Rightarrow> nat list" where
  "offsets pos [] = []"
| "offsets pos (b # bs) = pos # offsets (pos + length b) bs"

definition tuple_bytes :: "u64 \<Rightarrow> u64 \<Rightarrow> bytes list \<Rightarrow> bytes" where
  "tuple_bytes createdTx deletedTx cols =
     le64 createdTx @ le64 deletedTx @ le16 (word_of_nat (length cols))
       @ concat (map (\<lambda>n. le16 (word_of_nat n)) (offsets (18 + 2 * length cols) cols)) @ concat cols"

fun encode_columns :: "'j jsonb \<Rightarrow> nat \<Rightarrow> 'j val list \<Rightarrow> row_error + bytes list" where
  "encode_columns js i [] = Inr []"
| "encode_columns js i (v # vs) =
     (case encodeColumnValue js v of
        Inl e \<Rightarrow> Inl (ColumnError i e)
      | Inr b \<Rightarrow> map_sum id (Cons b) (encode_columns js (i + 1) vs))"

lemma length_offsets [simp]: "length (offsets pos bs) = length bs"
  by (induction bs arbitrary: pos) auto

lemma length_concat_le: "length (concat (map le64 fs)) = 8 * length fs" "length (concat (map (\<lambda>n. le16 (f n)) ns)) = 2 * length ns"
  by (induction fs; simp) (induction ns; simp)

lemma value_size_encode: "value_size js v = map_sum id length (encodeColumnValue js v)"
  by (auto simp: value_size_def encodeColumnValue_def length_concat_le split: val.splits sum.splits)

lemma total_size_encode:
  "total_size js i acc vs = map_sum id (\<lambda>bs. acc + length (concat bs)) (encode_columns js i vs)"
proof (induction vs arbitrary: i acc)
  case (Cons v vs)
  then show ?case by (cases "encodeColumnValue js v"; cases "encode_columns js (i + 1) vs") (simp_all add: value_size_encode)
qed simp

text \<open>Writing at the end of the part that is already written.\<close>

lemma overwrite_at_end:
  "length a = i \<Longrightarrow> overwrite i bs (a @ r) = a @ bs @ drop (length bs) r"
  by (simp add: overwrite_def)

lemma put_at_end: "length a = i \<Longrightarrow> length bs \<le> length r \<Longrightarrow> put_at i bs (a @ r) = Some (a @ bs @ drop (length bs) r)"
  by (simp add: put_at_def overwrite_at_end)

lemma unat_off:
  "i \<le> 65535 \<Longrightarrow> unat (word_of_nat i :: u16) = i"
  "i + 1 \<le> 65535 \<Longrightarrow> unat (word_of_nat i + 1 :: u16) = i + 1"
  "i + numeral k \<le> 65535 \<Longrightarrow> unat (word_of_nat i + numeral k :: u16) = i + numeral k"
proof -
  show a: "i \<le> 65535 \<Longrightarrow> unat (word_of_nat i :: u16) = i" for i by (rule unat_of_nat_u16) simp
  show "i + 1 \<le> 65535 \<Longrightarrow> unat (word_of_nat i + 1 :: u16) = i + 1" using a [of "i + 1"] by (simp add: add.commute)
  show "i + numeral k \<le> 65535 \<Longrightarrow> unat (word_of_nat i + numeral k :: u16) = i + numeral k" using a [of "i + numeral k"] by simp
qed

lemma put_slice_end:
  "unat lo = length a \<Longrightarrow> unat hi = length a + length bs \<Longrightarrow> length bs \<le> length r \<Longrightarrow>
   put_slice lo hi bs (a @ r) = Some (a @ bs @ drop (length bs) r)"
  by (simp add: put_slice_def word_le_nat_alt overwrite_at_end)

lemma put_floats_end:
  "unat lo = length a \<Longrightarrow> 8 * length fs \<le> length r \<Longrightarrow> length a + length r \<le> 65535 \<Longrightarrow>
   put_floats lo fs (a @ r) = Some (a @ concat (map le64 fs) @ drop (8 * length fs) r)"
proof (induction fs arbitrary: lo a r)
  case (Cons f fs)
  have "unat (lo + 8) = length a + 8" using Cons.prems by (simp add: unat_word_ariths)
  then have "put_slice lo (lo + 8) (le64 f) (a @ r) = Some (a @ le64 f @ drop 8 r)"
    using Cons.prems put_slice_end [of lo a "lo + 8" "le64 f" r] by simp
  then show ?case
    using Cons.IH [of "lo + 8" "a @ le64 f" "drop 8 r"] Cons.prems \<open>unat (lo + 8) = length a + 8\<close> by (simp add: add.commute)
qed simp

text \<open>A tag, a length and the data, as strings and JSON objects are written.\<close>

lemma put_string_end:
  assumes "length a = i" "3 + length s \<le> length r" "length a + length r \<le> 65535"
  shows "Option.bind (put_at (unat (word_of_nat i :: u16)) [t] (a @ r)) (\<lambda>p.
     Option.bind (put_slice (word_of_nat i + 1) (word_of_nat i + 3) (le16 n) p) (\<lambda>p.
       map_option (Pair x) (copy_at (unat (word_of_nat i + 3 :: u16)) s p)))
   = Some (x, a @ (t # le16 n @ s) @ drop (3 + length s) r)"
proof -
  have u: "unat (word_of_nat i :: u16) = i" "unat (word_of_nat i + 1 :: u16) = i + 1" "unat (word_of_nat i + 3 :: u16) = i + 3"
    using assms by (simp_all add: unat_off)
  have 1: "put_at i [t] (a @ r) = Some ((a @ [t]) @ drop 1 r)" using assms by (simp add: put_at_end)
  have 2: "put_slice (word_of_nat i + 1) (word_of_nat i + 3) (le16 n) ((a @ [t]) @ drop 1 r) = Some ((a @ [t] @ le16 n) @ drop 3 r)"
    using put_slice_end [of "word_of_nat i + 1" "a @ [t]" "word_of_nat i + 3" "le16 n" "drop 1 r"] assms u by simp
  have 3: "copy_at (i + 3) s ((a @ [t] @ le16 n) @ drop 3 r) = Some ((a @ [t] @ le16 n @ s) @ drop (3 + length s) r)"
    using copy_at_Some [of "i + 3" s "(a @ [t] @ le16 n) @ drop 3 r"] overwrite_at_end [of "a @ [t] @ le16 n" "i + 3" s "drop 3 r"] assms
    by (simp add: add.commute)
  show ?thesis using 1 2 3 u by simp
qed

lemma put_int_end:
  assumes "length a = i" "9 \<le> length r" "length a + length r \<le> 65535"
  shows "Option.bind (put_at (unat (word_of_nat i :: u16)) [t] (a @ r)) (\<lambda>p.
     map_option (Pair x) (put_slice (word_of_nat i + 1) (word_of_nat i + 9) (le64 n) p))
   = Some (x, a @ (t # le64 n) @ drop 9 r)"
proof -
  have u: "unat (word_of_nat i :: u16) = i" "unat (word_of_nat i + 1 :: u16) = i + 1" "unat (word_of_nat i + 9 :: u16) = i + 9"
    using assms by (simp_all add: unat_off)
  have "put_at i [t] (a @ r) = Some ((a @ [t]) @ drop 1 r)" using assms by (simp add: put_at_end)
  moreover have "put_slice (word_of_nat i + 1) (word_of_nat i + 9) (le64 n) ((a @ [t]) @ drop 1 r) = Some (a @ (t # le64 n) @ drop 9 r)"
    using put_slice_end [of "word_of_nat i + 1" "a @ [t]" "word_of_nat i + 9" "le64 n" "drop 1 r"] assms u by simp
  ultimately show ?thesis using u by simp
qed

lemma put_vector_end:
  assumes "length a = i" "3 + 8 * length fs \<le> length r" "length a + length r \<le> 65535"
  shows "Option.bind (put_at (unat (word_of_nat i :: u16)) [t] (a @ r)) (\<lambda>p.
     Option.bind (put_slice (word_of_nat i + 1) (word_of_nat i + 3) (le16 n) p) (\<lambda>p.
       map_option (Pair x) (put_floats (word_of_nat i + 3) fs p)))
   = Some (x, a @ (t # le16 n @ concat (map le64 fs)) @ drop (3 + 8 * length fs) r)"
proof -
  have u: "unat (word_of_nat i :: u16) = i" "unat (word_of_nat i + 1 :: u16) = i + 1" "unat (word_of_nat i + 3 :: u16) = i + 3"
    using assms by (simp_all add: unat_off)
  have 1: "put_at i [t] (a @ r) = Some ((a @ [t]) @ drop 1 r)" using assms by (simp add: put_at_end)
  have 2: "put_slice (word_of_nat i + 1) (word_of_nat i + 3) (le16 n) ((a @ [t]) @ drop 1 r) = Some ((a @ [t] @ le16 n) @ drop 3 r)"
    using put_slice_end [of "word_of_nat i + 1" "a @ [t]" "word_of_nat i + 3" "le16 n" "drop 1 r"] assms u by simp
  have 3: "put_floats (word_of_nat i + 3) fs ((a @ [t] @ le16 n) @ drop 3 r)
      = Some ((a @ [t] @ le16 n @ concat (map le64 fs)) @ drop (3 + 8 * length fs) r)"
    using put_floats_end [of "word_of_nat i + 3" "a @ [t] @ le16 n" fs "drop 3 r"] assms u by (simp add: add.commute)
  show ?thesis using 1 2 3 u by simp
qed

lemma put_value_end:
  assumes e: "encodeColumnValue js v = Inr b" and l: "length a = i" "length b \<le> length r" "length a + length r \<le> 65535"
  shows "put_value js (word_of_nat i) v (a @ r) = Some (word_of_nat (i + length b), a @ b @ drop (length b) r)"
proof -
  have u: "unat (word_of_nat i :: u16) = i" using l by (intro unat_off) simp
  show ?thesis
  proof (cases v)
    case VNil
    then have "b = [0xFF]" using e by (simp add: encodeColumnValue_def)
    then show ?thesis using l u VNil by (simp add: put_value_def put_at_end add.commute)
  next
    case (VInt64 x)
    then have "b = 105 # le64 x" using e by (simp add: encodeColumnValue_def)
    then show ?thesis using put_int_end [OF l(1) _ l(3)] l(2) VInt64 by (simp add: put_value_def)
  next
    case (VFloat x)
    then have "b = 102 # le64 x" using e by (simp add: encodeColumnValue_def)
    then show ?thesis using put_int_end [OF l(1) _ l(3)] l(2) VFloat by (simp add: put_value_def)
  next
    case (VBool x)
    then have b: "b = [98, if x then 1 else 0]" using e by (simp add: encodeColumnValue_def)
    have "unat (word_of_nat i + 1 :: u16) = i + 1" using l b by (intro unat_off) simp
    moreover have "put_at i [98] (a @ r) = Some ((a @ [98]) @ drop 1 r)" using l b by (simp add: put_at_end)
    moreover have "put_at (i + 1) [if x then 1 else 0] ((a @ [98]) @ drop 1 r) = Some (a @ b @ drop (length b) r)"
      using l b put_at_end [of "a @ [98]" "i + 1" "[if x then 1 else 0]" "drop 1 r"] by (simp add: numeral_2_eq_2)
    ultimately show ?thesis using u VBool b by (simp add: put_value_def)
  next
    case (VString x)
    then have b: "b = 115 # le16 (word_of_nat (length x)) @ x" using e by (simp add: encodeColumnValue_def split: if_splits)
    then have lb: "length b = 3 + length x" by simp
    have "put_value js (word_of_nat i) v (a @ r) = Some (word_of_nat i + word_of_nat (3 + length x),
        a @ (115 # le16 (word_of_nat (length x)) @ x) @ drop (3 + length x) r)"
      using put_string_end [OF l(1) _ l(3), of x] l(2) lb VString by (simp add: put_value_def del: of_nat_add)
    then show ?thesis unfolding lb unfolding b by simp
  next
    case (VVector x)
    then have b: "b = 118 # le16 (word_of_nat (length x)) @ concat (map le64 x)" using e by (simp add: encodeColumnValue_def)
    then have lb: "length b = 3 + 8 * length x" by (simp add: length_concat_le)
    have "put_value js (word_of_nat i) v (a @ r) = Some (word_of_nat i + word_of_nat (3 + 8 * length x),
        a @ (118 # le16 (word_of_nat (length x)) @ concat (map le64 x)) @ drop (3 + 8 * length x) r)"
      using put_vector_end [OF l(1) _ l(3), of x] l(2) lb VVector by (simp add: put_value_def mult.commute del: of_nat_add)
    then show ?thesis unfolding lb unfolding b by simp
  next
    case (VMap m)
    then obtain x where x: "json_Marshal js m = Inr x" "b = 106 # le16 (word_of_nat (length x)) @ x"
      using e by (auto simp: encodeColumnValue_def split: if_splits sum.splits)
    then have lb: "length b = 3 + length x" by simp
    have "put_value js (word_of_nat i) v (a @ r) = Some (word_of_nat i + word_of_nat (3 + length x),
        a @ (106 # le16 (word_of_nat (length x)) @ x) @ drop (3 + length x) r)"
      using put_string_end [OF l(1) _ l(3), of x] l(2) lb VMap x by (simp add: put_value_def del: of_nat_add)
    then show ?thesis unfolding lb unfolding x by simp
  qed (use e in \<open>simp_all add: encodeColumnValue_def\<close>)
qed

lemma put_columns_end:
  "encode_columns js i vs = Inr bs \<Longrightarrow> length h = 18 + i * 2 \<Longrightarrow> length o' = 2 * length vs \<Longrightarrow> length (concat bs) = length r \<Longrightarrow>
   pos = length h + length o' + length d \<Longrightarrow> pos + length r \<le> 65535 \<Longrightarrow>
   put_columns js i (word_of_nat pos) vs (h @ o' @ d @ r) =
     Some (h @ concat (map (\<lambda>n. le16 (word_of_nat n)) (offsets pos bs)) @ d @ concat bs)"
proof (induction vs arbitrary: i bs h o' d r pos)
  case Nil
  then show ?case by simp
next
  case (Cons v vs)
  obtain b bs' where b: "encodeColumnValue js v = Inr b" "encode_columns js (i + 1) vs = Inr bs'" "bs = b # bs'"
    using Cons.prems(1) by (cases "encodeColumnValue js v"; cases "encode_columns js (i + 1) vs") auto
  let ?h = "h @ le16 (word_of_nat pos)" and ?o = "drop 2 o'"
  have p: "put_at (18 + i * 2) (le16 (word_of_nat pos)) (h @ o' @ d @ r) = Some (?h @ ?o @ d @ r)"
    using Cons.prems put_at_end [of h "18 + i * 2" "le16 (word_of_nat pos)" "o' @ d @ r"] by simp
  have v: "put_value js (word_of_nat pos) v ((?h @ ?o @ d) @ r) = Some (word_of_nat (pos + length b), (?h @ ?o @ d) @ b @ drop (length b) r)"
    by (rule put_value_end [OF b(1)]) (use Cons.prems b in simp_all)
  have "put_columns js (i + 1) (word_of_nat (pos + length b)) vs (?h @ ?o @ (d @ b) @ drop (length b) r) =
      Some (?h @ concat (map (\<lambda>n. le16 (word_of_nat n)) (offsets (pos + length b) bs')) @ (d @ b) @ concat bs')"
    by (rule Cons.IH [OF b(2)]) (use Cons.prems b in simp_all)
  then show ?case using p v b(3) by simp
qed

lemma length_encode_columns: "encode_columns js i vs = Inr bs \<Longrightarrow> length bs = length vs"
proof (induction vs arbitrary: i bs)
  case (Cons v vs)
  then show ?case by (cases "encodeColumnValue js v"; cases "encode_columns js (i + 1) vs") auto
qed simp

lemma length_MemoryPool_Get [simp]: "length (MemoryPool_Get b n) = n"
  by (simp add: MemoryPool_Get_def)

lemma split_buffer: "length p = a + b \<Longrightarrow> \<exists>x y. p = x @ y \<and> length x = a \<and> length y = b"
  by (metis append_take_drop_id length_append length_take min_absorb2 le_add1 add_left_cancel)

lemma put_tuple:
  assumes c: "encode_columns js 0 row = Inr cols" and n: "length p = 18 + length row * 2 + length (concat cols)" and s: "length p \<le> 65535"
  shows "Option.bind (put_at 0 (le64 createdTx) p) (\<lambda>p. Option.bind (put_at 8 (le64 deletedTx) p) (\<lambda>p.
      Option.bind (put_at 16 (le16 (word_of_nat (length row))) p) (\<lambda>p.
        map_option f (put_columns js 0 (word_of_nat (18 + length row * 2)) row p))))
    = Some (f (tuple_bytes createdTx deletedTx cols))"
proof -
  have "length p = 18 + (length row * 2 + length (concat cols))" using n by simp
  then obtain h q where h: "p = h @ q" "length h = 18" "length q = length row * 2 + length (concat cols)" using split_buffer by blast
  then obtain o' r where o: "q = o' @ r" "length o' = length row * 2" "length r = length (concat cols)" using split_buffer by blast
  let ?h = "le64 createdTx @ le64 deletedTx @ le16 (word_of_nat (length row))"
  have 1: "put_at 0 (le64 createdTx) p = Some (le64 createdTx @ drop 8 h @ q)"
    using put_at_end [of "[]" 0 "le64 createdTx" p] h by simp
  have 2: "put_at 8 (le64 deletedTx) (le64 createdTx @ drop 8 h @ q) = Some ((le64 createdTx @ le64 deletedTx) @ drop 16 h @ q)"
    using put_at_end [of "le64 createdTx" 8 "le64 deletedTx" "drop 8 h @ q"] h by simp
  have 3: "put_at 16 (le16 (word_of_nat (length row))) ((le64 createdTx @ le64 deletedTx) @ drop 16 h @ q) = Some (?h @ o' @ [] @ r)"
    using put_at_end [of "le64 createdTx @ le64 deletedTx" 16 "le16 (word_of_nat (length row))" "drop 16 h @ q"] h o by simp
  have 4: "put_columns js 0 (word_of_nat (18 + length row * 2)) row (?h @ o' @ [] @ r)
    = Some (?h @ concat (map (\<lambda>n. le16 (word_of_nat n)) (offsets (18 + length row * 2) cols)) @ [] @ concat cols)"
    by (rule put_columns_end [OF c]) (use h o n s in simp_all)
  show ?thesis using 1 2 3 4 length_encode_columns [OF c] by (simp add: tuple_bytes_def mult.commute)
qed

lemma EncodeRow_eq:
  "EncodeRow js pooled createdTx deletedTx row = Some (
     if row = [] then Inl EmptyRow
     else case encode_columns js 0 row of
            Inl e \<Rightarrow> Inl e
          | Inr cols \<Rightarrow>
              let n = 18 + 2 * length row + length (concat cols)
              in if n > 65535 then Inl (TupleTooLarge n) else Inr (tuple_bytes createdTx deletedTx cols))"
proof (cases "encode_columns js 0 row")
  case (Inl e)
  then show ?thesis by (auto simp: EncodeRow_def total_size_encode)
next
  case (Inr cols)
  let ?n = "18 + length row * 2 + length (concat cols)"
  show ?thesis
  proof (cases "?n > 65535")
    case True
    then show ?thesis using Inr by (simp add: EncodeRow_def total_size_encode Let_def mult.commute)
  next
    case False
    then have "EncodeRow js pooled createdTx deletedTx row = (if row = [] then Some (Inl EmptyRow) else Some (Inr (tuple_bytes createdTx deletedTx cols)))"
      using Inr put_tuple [OF Inr, of "MemoryPool_Get pooled ?n" createdTx deletedTx "Inr :: bytes \<Rightarrow> row_error + bytes"]
      by (simp add: EncodeRow_def total_size_encode Let_def)
    then show ?thesis using False Inr by (simp add: Let_def mult.commute)
  qed
qed

text \<open>
  C12: \<open>EncodeRow\<close>, which measures the row, takes a used buffer from the pool and writes every value at a 16-bit offset, never
  panics, and its result does not depend on what the buffer held: it is the error of the first column that \<open>encodeColumnValue\<close> rejects, or an error when the tuple
  would exceed 65535 bytes, and otherwise the header, the column offsets and the separately encoded columns.
\<close>

theorem EncodeRow_layout:
  "EncodeRow js pooled createdTx deletedTx row = Some (
     if row = [] then Inl EmptyRow
     else case encode_columns js 0 row of
            Inl e \<Rightarrow> Inl e
          | Inr cols \<Rightarrow>
              let n = 18 + 2 * length row + length (concat cols)
              in if n > 65535 then Inl (TupleTooLarge n) else Inr (tuple_bytes createdTx deletedTx cols))"
  by (rule EncodeRow_eq)

section \<open>Reading an encoded row back\<close>

text \<open>The values that the format keeps; a JSON object must be parsed to itself.\<close>

fun storable :: "'j jsonb \<Rightarrow> 'j val \<Rightarrow> bool" where
  "storable js (VMap m) = (\<exists>b. json_Marshal js m = Inr b \<and> json_Decode js b = Some m)"
| "storable js (VVector fs) = (length fs \<le> 65535)"
| "storable js v = True"

lemma read_floats_concat: "read_floats (length fs) (concat (map le64 fs) @ r) = fs"
  by (induction fs) auto

lemma decode_encode_column:
  assumes "encodeColumnValue js v = Inr b" "storable js v"
  shows "decodeColumnValue js b = Inr v"
proof (cases v)
  case (VString s)
  then have b: "b = 115 # le16 (word_of_nat (length s)) @ s" "length s \<le> 65535"
    using assms(1) by (auto simp: encodeColumnValue_def split: if_splits)
  then have "unat (word_of_nat (length s) :: u16) = length s" by (intro unat_off)
  then show ?thesis using VString b(1) by (simp add: decodeColumnValue_def Let_def)
next
  case (VVector fs)
  then have b: "b = 118 # le16 (word_of_nat (length fs)) @ concat (map le64 fs)" using assms(1) by (simp add: encodeColumnValue_def)
  have "unat (word_of_nat (length fs) :: u16) = length fs" using assms(2) VVector by (intro unat_off) simp
  then show ?thesis using VVector b read_floats_concat [of fs "[]"] by (simp add: decodeColumnValue_def Let_def length_concat_le)
next
  case (VMap m)
  then obtain x where x: "json_Marshal js m = Inr x" "b = 106 # le16 (word_of_nat (length x)) @ x" "length x \<le> 65535" "json_Decode js x = Some m"
    using assms by (auto simp: encodeColumnValue_def split: if_splits)
  have "unat (word_of_nat (length x) :: u16) = length x" using x(3) by (intro unat_off)
  then show ?thesis using VMap x by (simp add: decodeColumnValue_def Let_def)
qed (use assms in \<open>auto simp: encodeColumnValue_def decodeColumnValue_def Let_def split: if_splits\<close>)

text \<open>Where column \<open>i\<close> starts.\<close>

definition col_start :: "bytes list \<Rightarrow> nat \<Rightarrow> nat" where
  "col_start cols i = 18 + 2 * length cols + length (concat (take i cols))"

lemma offsets_nth: "i < length bs \<Longrightarrow> offsets pos bs ! i = pos + length (concat (take i bs))"
proof (induction bs arbitrary: pos i)
  case (Cons b bs)
  then show ?case by (cases i) auto
qed simp

lemma window_le16s: "i < length ns \<Longrightarrow> window (2 * i) 2 (concat (map (\<lambda>n. le16 (f n)) ns) @ r) = le16 (f (ns ! i))"
proof (induction ns arbitrary: i)
  case (Cons n ns)
  show ?case
  proof (cases i)
    case 0
    then show ?thesis by (simp add: window_def)
  next
    case (Suc j)
    then show ?thesis using Cons.IH [of j] Cons.prems by (simp add: window_def)
  qed
qed simp

lemma length_tuple_bytes: "length (tuple_bytes c d cols) = col_start cols (length cols)"
  by (simp add: tuple_bytes_def col_start_def length_concat_le)

lemma tuple_offset:
  assumes "i < length cols"
  shows "read16 (tuple_bytes c d cols) (18 + i * 2) = Some (word_of_nat (col_start cols i))"
proof -
  let ?h = "le64 c @ le64 d @ le16 (word_of_nat (length cols))"
  let ?o = "concat (map (\<lambda>n. le16 (word_of_nat n)) (offsets (18 + 2 * length cols) cols))"
  have "window (18 + i * 2) 2 (?h @ ?o @ concat cols) = window (2 * i) 2 (?o @ concat cols)"
    by (simp add: window_def mult.commute)
  also have "\<dots> = le16 (word_of_nat (col_start cols i))"
    using window_le16s [of i "offsets (18 + 2 * length cols) cols" word_of_nat "concat cols"] assms
    by (simp add: offsets_nth col_start_def)
  finally have w: "window (18 + i * 2) 2 (tuple_bytes c d cols) = le16 (word_of_nat (col_start cols i))"
    by (simp add: tuple_bytes_def)
  have "18 + i * 2 + 2 \<le> length (tuple_bytes c d cols)" using assms by (simp add: length_tuple_bytes col_start_def)
  then show ?thesis unfolding read16_def by (subst go_slice_Some) (simp_all add: w)
qed

lemma col_start_Suc: "i < length cols \<Longrightarrow> col_start cols (i + 1) = col_start cols i + length (cols ! i)"
  by (simp add: col_start_def take_Suc_conv_app_nth)

lemma tuple_column:
  assumes "i < length cols"
  shows "go_slice (tuple_bytes c d cols) (col_start cols i) (col_start cols (i + 1)) = Some (cols ! i)"
proof -
  let ?h = "le64 c @ le64 d @ le16 (word_of_nat (length cols)) @ concat (map (\<lambda>n. le16 (word_of_nat n)) (offsets (18 + 2 * length cols) cols))"
  have "cols = take i cols @ cols ! i # drop (Suc i) cols" using assms by (simp add: id_take_nth_drop)
  then have "concat cols = concat (take i cols) @ cols ! i @ concat (drop (Suc i) cols)" by (metis concat.simps(2) concat_append)
  then have t: "tuple_bytes c d cols = (?h @ concat (take i cols)) @ cols ! i @ concat (drop (Suc i) cols)"
    by (simp add: tuple_bytes_def)
  have l: "length (?h @ concat (take i cols)) = col_start cols i" by (simp add: col_start_def length_concat_le)
  have "window (col_start cols i) (length (cols ! i)) (tuple_bytes c d cols) = cols ! i"
    unfolding t window_def l [symmetric] by simp
  moreover have "col_start cols i + length (cols ! i) \<le> length (tuple_bytes c d cols)" unfolding t using l by simp
  ultimately show ?thesis using assms by (subst col_start_Suc) (simp_all add: go_slice_Some)
qed

lemma col_start_le: "col_start cols i \<le> col_start cols (length cols)"
  by (simp add: col_start_def) (metis append_take_drop_id concat_append le_add1 length_append)

lemma read_columns_tuple:
  assumes "length (tuple_bytes c d cols) \<le> 65535" "\<forall>i < length cols. decodeColumnValue js (cols ! i) = Inr (vals ! i)"
  shows "set is \<subseteq> {..< length cols} \<Longrightarrow> read_columns js (tuple_bytes c d cols) (length cols) is = Some (Inr (map ((!) vals) is))"
proof (induction "is")
  case (Cons i "is")
  have i: "i < length cols" using Cons.prems by simp
  have u: "unat (word_of_nat (col_start cols j) :: u16) = col_start cols j" for j
    using assms(1) col_start_le [of cols j] by (intro unat_off) (simp add: length_tuple_bytes)
  have nx: "(if i + 1 < length cols then read16 (tuple_bytes c d cols) (18 + (i + 1) * 2) else Some (word_of_nat (length (tuple_bytes c d cols))))
      = Some (word_of_nat (col_start cols (i + 1)))"
  proof (cases "i + 1 < length cols")
    case True
    then show ?thesis using tuple_offset [OF True] by simp
  next
    case False
    then have "i + 1 = length cols" using i by simp
    then show ?thesis by (simp add: length_tuple_bytes)
  qed
  show ?case
    unfolding read_columns.simps tuple_offset [OF i] nx
    using Cons assms(2) i tuple_column [OF i] u by simp
qed simp

lemma encode_columns_nth:
  "encode_columns js k vs = Inr bs \<Longrightarrow> i < length vs \<Longrightarrow> encodeColumnValue js (vs ! i) = Inr (bs ! i)"
proof (induction vs arbitrary: k bs i)
  case (Cons v vs)
  then show ?case by (cases "encodeColumnValue js v"; cases "encode_columns js (k + 1) vs"; cases i) auto
qed simp


text \<open>The premises hold for a row with a number, a null, a string and an object.\<close>

definition demo_js :: "unit jsonb" where
  "demo_js = \<lparr>json_Marshal = \<lambda>_. Inr [123, 125], json_Decode = \<lambda>b. if b = [123, 125] then Some () else None\<rparr>"


section \<open>The flags overlap\<close>

lemma hotForwardMask_mask: "hotForwardMask = mask 14"
  by (simp add: hotForwardMask_def mask_eq_decr_exp)

lemma bit_GetForwardSlot: "bit (GetForwardSlot v) n \<longleftrightarrow> n < 14 \<and> bit v (50 + n)"
  by (auto simp: GetForwardSlot_def hotForwardMask_mask bit_simps)

lemma bit_or_flag:
  "bit (v OR push_bit k 1 :: u64) n \<longleftrightarrow> bit v n \<or> (n = k \<and> k < 64)"
  "bit (w OR push_bit k 1 :: u16) n \<longleftrightarrow> bit w n \<or> (n = k \<and> k < 16)"
  by (auto simp: bit_simps)

lemma bit_SetHOTUpdated:
  "bit (SetHOTUpdated s v) n \<longleftrightarrow> n < 64 \<and> (if 50 \<le> n then bit s (n - 50) else n = 48 \<or> bit v n)"
  unfolding SetHOTUpdated_def hotForwardMask_mask hotUpdatedFlag_def bit_or_iff [of "_ AND _"] bit_and_iff bit_or_flag
  by (auto simp: bit_simps)

lemma bit_flags:
  "bit (SetXMinCommitted v) n \<longleftrightarrow> n = 62 \<or> bit v n" "bit (SetXMaxCommitted v) n \<longleftrightarrow> n = 63 \<or> bit v n"
  "bit (SetHOTHeapTuple v) n \<longleftrightarrow> n = 49 \<or> bit v n"
  unfolding SetXMinCommitted_def SetXMaxCommitted_def SetHOTHeapTuple_def xminCommittedFlag_def xmaxCommittedFlag_def
    hotHeapTupleFlag_def bit_or_flag by auto

lemma and_flag: "(v :: u64) AND push_bit k 1 \<noteq> 0 \<longleftrightarrow> k < 64 \<and> bit v k"
proof
  assume "v AND push_bit k 1 \<noteq> 0"
  then obtain n where "bit (v AND push_bit k 1) n" by (metis bit_0_eq bot_apply bot_bool_def bit_eqI)
  then show "k < 64 \<and> bit v k" by (auto simp: bit_simps)
next
  assume "k < 64 \<and> bit v k"
  then have "bit (v AND push_bit k 1) k" by (simp add: bit_simps)
  then show "v AND push_bit k 1 \<noteq> 0" by (metis bit_0_eq bot_apply bot_bool_def)
qed

lemma flag_bits:
  "IsHOTUpdated v \<longleftrightarrow> bit v 48" "IsHOTHeapTuple v \<longleftrightarrow> bit v 49" "IsXMinCommitted v \<longleftrightarrow> bit v 62" "IsXMaxCommitted v \<longleftrightarrow> bit v 63"
  unfolding IsHOTUpdated_def IsHOTHeapTuple_def IsXMinCommitted_def IsXMaxCommitted_def hotUpdatedFlag_def hotHeapTupleFlag_def
    xminCommittedFlag_def xmaxCommittedFlag_def and_flag by simp_all

lemma GetForwardSlot_flags:
  "GetForwardSlot (SetXMinCommitted v) = GetForwardSlot v OR push_bit 12 1"
  "GetForwardSlot (SetXMaxCommitted v) = GetForwardSlot v OR push_bit 13 1"
  by (rule bit_eqI; auto simp only: bit_GetForwardSlot bit_flags bit_or_flag; simp)+

lemma SetHOTUpdated_get:
  "IsHOTUpdated (SetHOTUpdated s val)" "GetForwardSlot (SetHOTUpdated s val) = s AND mask 14"
  "SetHOTUpdated s val AND TxIDMask = val AND TxIDMask" "IsHOTHeapTuple (SetHOTUpdated s val) = IsHOTHeapTuple val"
proof -
  have t: "TxIDMask = mask 48" by (simp add: TxIDMask_def mask_eq_decr_exp)
  show "IsHOTUpdated (SetHOTUpdated s val)" "IsHOTHeapTuple (SetHOTUpdated s val) = IsHOTHeapTuple val"
    by (simp_all add: flag_bits bit_SetHOTUpdated)
  show "GetForwardSlot (SetHOTUpdated s val) = s AND mask 14"
    by (rule bit_eqI) (auto simp: bit_GetForwardSlot bit_SetHOTUpdated bit_simps)
  show "SetHOTUpdated s val AND TxIDMask = val AND TxIDMask"
    unfolding t by (rule bit_eqI) (auto simp: bit_SetHOTUpdated bit_simps)
qed

text \<open>
  The forward slot takes the bits 50 to 63 of the transaction number, and the commit flags are the bits 62 and 63. So marking a
  HOT-updated tuple as committed changes its forward slot, and setting a forward slot erases the flags.
\<close>

theorem forward_slot_overlaps_flags:
  "GetForwardSlot (SetHOTUpdated 5 val) = 5
   \<and> GetForwardSlot (SetXMinCommitted (SetHOTUpdated 5 val)) = 5 + 4096
   \<and> GetForwardSlot (SetXMaxCommitted (SetHOTUpdated 5 val)) = 5 + 8192
   \<and> \<not> IsXMinCommitted (SetHOTUpdated 5 (SetXMinCommitted val))"
proof -
  have "(5 :: u16) AND mask 14 = 5" "(5 :: u16) OR push_bit 12 1 = 5 + 4096" "(5 :: u16) OR push_bit 13 1 = 5 + 8192"
    by (simp_all add: mask_eq_decr_exp push_bit_eq_mult)
  then show ?thesis by (simp add: GetForwardSlot_flags SetHOTUpdated_get flag_bits bit_SetHOTUpdated)
qed

section \<open>Tuple header and null bitmap\<close>

lemma ParseTupleHeader_Serialize:
  assumes "24 \<le> length buf"
  shows "\<exists>b. Serialize h buf = Inr b \<and> ParseTupleHeader b = Inr h \<and> drop 24 b = drop 24 buf"
proof -
  let ?b = "le64 (XMin h) @ le64 (XMax h) @ le32 (CMin h) @ le16 (InfoMask h) @ le16 (NAttributes h) @ drop 24 buf"
  have "Serialize h buf = Inr ?b"
    using assms by (simp add: Serialize_def TupleHeaderSize_def overwrite_def)
  moreover have "ParseTupleHeader ?b = Inr h"
    by (simp add: ParseTupleHeader_def TupleHeaderSize_def)
  ultimately show ?thesis by (intro exI [of _ ?b]) simp
qed

lemma IsNull_SetNotNull:
  assumes "0 \<le> i" "i div 8 < int (length bitmap)" "0 \<le> j"
  shows "IsNull (SetNotNull i bitmap) j = (i \<noteq> j \<and> IsNull bitmap j)"
proof -
  have m: "nat (x mod 8) < 8" for x :: int by simp
  have "bit (b OR push_bit (nat (i mod 8)) 1) k \<longleftrightarrow> bit b k \<or> k = nat (i mod 8)" for b :: u8 and k
    by (auto simp: bit_simps m)
  moreover have "i = j" if "i div 8 = j div 8" "i mod 8 = j mod 8" using that by (metis div_mult_mod_eq)
  ultimately show ?thesis
    using assms by (auto simp: IsNull_def SetNotNull_def and_exp_eq_0_iff_not_bit nth_list_update nat_eq_iff)
qed

lemma NullBitmapSize_enough: "i < unat n \<Longrightarrow> i div 8 < NullBitmapSize n"
  by (simp add: NullBitmapSize_def)

end
