(* ===== verification/Eval_Vm.thy ===== *)
theory Eval_Vm
  imports Row_Codec "HOL-Library.List_Lexorder"
begin

text \<open>
  The expression machine of \<^verbatim>\<open>executor/eval/vm\<close>: conditions are compiled to instructions of a stack machine
  (\<^verbatim>\<open>compiler.go\<close>) and run on a decoded row (\<^verbatim>\<open>ExecuteVM\<close>, \<^verbatim>\<open>ExecuteVMBool\<close>) or on the bytes of a tuple
  (\<^verbatim>\<open>ExecuteVMRaw\<close>, \<^verbatim>\<open>vm.go\<close>).

  The three interpreters of the source differ in how a column is loaded and in what is returned; the model has one
  interpreter with the load as an argument. The stack is an array of eight values without a check: a ninth push is an
  index out of range, a panic (\<^const>\<open>None\<close>). An \<^verbatim>\<open>int64\<close> is a \<^typ>\<open>64 word\<close> and wraps. Names of columns and types are ASCII
  text; an error with formatted details is named by its fixed part.
\<close>

section \<open>Instructions and values\<close>

datatype OpCode =
    OpPushInt u64
  | OpPushFloat f64
  | OpPushString bytes
  | OpPushBool bool
  | OpLoadColumn int
  | OpAdd | OpSub | OpMul | OpDiv
  | OpEq | OpNeq | OpLt | OpGt | OpLte | OpGte
  | OpAnd | OpOr | OpNot
  | OpReturn
  | OpUnknown u8

datatype Value = ValInt u64 | ValFloat f64 | ValString bytes | ValBool bool | ValNull

definition ToInterface :: "Value \<Rightarrow> 'j val" where
  "ToInterface v = (case v of ValInt i \<Rightarrow> VInt64 i | ValFloat f \<Rightarrow> VFloat f | ValString s \<Rightarrow> VString s | ValBool b \<Rightarrow> VBool b | ValNull \<Rightarrow> VNil)"

text \<open>The field \<^verbatim>\<open>Bool\<close> of a value; it is false when the value is of another type.\<close>

fun Bool_of :: "Value \<Rightarrow> bool" where
  "Bool_of (ValBool b) = b"
| "Bool_of _ = False"

section \<open>Arithmetic\<close>

text \<open>Division of \<^verbatim>\<open>int64\<close> truncates toward zero; the quotient of the least number by \<open>-1\<close> wraps.\<close>

definition int64_div :: "u64 \<Rightarrow> u64 \<Rightarrow> u64" where
  "int64_div a b = word_of_int (sgn (sint a) * sgn (sint b) * (\<bar>sint a\<bar> div \<bar>sint b\<bar>))"

definition arith_int :: "OpCode \<Rightarrow> u64 \<Rightarrow> u64 \<Rightarrow> string + u64" where
  "arith_int op l r =
     (case op of
        OpAdd \<Rightarrow> Inr (l + r)
      | OpSub \<Rightarrow> Inr (l - r)
      | OpMul \<Rightarrow> Inr (l * r)
      | OpDiv \<Rightarrow> if r = 0 then Inl ''division by zero'' else Inr (int64_div l r)
      | _ \<Rightarrow> Inr 0)"

definition arith_float :: "OpCode \<Rightarrow> f64 \<Rightarrow> f64 \<Rightarrow> string + f64" where
  "arith_float op l r =
     (case op of
        OpAdd \<Rightarrow> Inr (f64_add l r)
      | OpSub \<Rightarrow> Inr (f64_sub l r)
      | OpMul \<Rightarrow> Inr (f64_mul l r)
      | OpDiv \<Rightarrow> if f64_eq r 0 then Inl ''division by zero'' else Inr (f64_div l r)
      | _ \<Rightarrow> Inr 0)"

definition vm_arith :: "OpCode \<Rightarrow> Value \<Rightarrow> Value \<Rightarrow> string + Value" where
  "vm_arith op left right =
     (case (left, right) of
        (ValInt l, ValInt r) \<Rightarrow> map_sum id ValInt (arith_int op l r)
      | (ValFloat l, ValFloat r) \<Rightarrow> map_sum id ValFloat (arith_float op l r)
      | (ValInt l, ValFloat r) \<Rightarrow> map_sum id ValFloat (arith_float op (f64_of_int64 l) r)
      | (ValFloat l, ValInt r) \<Rightarrow> map_sum id ValFloat (arith_float op l (f64_of_int64 r))
      | _ \<Rightarrow> Inl ''type mismatch in arithmetic operation'')"

section \<open>Comparison and logic\<close>

definition cmp_with :: "('a \<Rightarrow> 'a \<Rightarrow> bool) \<Rightarrow> ('a \<Rightarrow> 'a \<Rightarrow> bool) \<Rightarrow> ('a \<Rightarrow> 'a \<Rightarrow> bool) \<Rightarrow> OpCode \<Rightarrow> 'a \<Rightarrow> 'a \<Rightarrow> bool" where
  "cmp_with eq lt le op l r =
     (case op of
        OpEq \<Rightarrow> eq l r | OpNeq \<Rightarrow> \<not> eq l r | OpLt \<Rightarrow> lt l r | OpGt \<Rightarrow> lt r l | OpLte \<Rightarrow> le l r | OpGte \<Rightarrow> le r l | _ \<Rightarrow> False)"

definition cmp_int :: "OpCode \<Rightarrow> u64 \<Rightarrow> u64 \<Rightarrow> bool" where
  "cmp_int = cmp_with (=) (\<lambda>l r. sint l < sint r) (\<lambda>l r. sint l \<le> sint r)"

definition cmp_float :: "OpCode \<Rightarrow> f64 \<Rightarrow> f64 \<Rightarrow> bool" where
  "cmp_float = cmp_with f64_eq f64_less f64_le"

definition cmp_string :: "OpCode \<Rightarrow> bytes \<Rightarrow> bytes \<Rightarrow> bool" where
  "cmp_string = cmp_with (=) (<) (\<le>)"

text \<open>Two values of unlike types are unequal; only an order between them is an error.\<close>

definition cmp_other :: "OpCode \<Rightarrow> string + Value" where
  "cmp_other op = (if op = OpEq then Inr (ValBool False) else if op = OpNeq then Inr (ValBool True) else Inl ''type mismatch in comparison'')"

definition vm_compare :: "OpCode \<Rightarrow> Value \<Rightarrow> Value \<Rightarrow> string + Value" where
  "vm_compare op left right =
     (case (left, right) of
        (ValInt l, ValInt r) \<Rightarrow> Inr (ValBool (cmp_int op l r))
      | (ValFloat l, ValFloat r) \<Rightarrow> Inr (ValBool (cmp_float op l r))
      | (ValInt l, ValFloat r) \<Rightarrow> Inr (ValBool (cmp_float op (f64_of_int64 l) r))
      | (ValFloat l, ValInt r) \<Rightarrow> Inr (ValBool (cmp_float op l (f64_of_int64 r)))
      | (ValString l, ValString r) \<Rightarrow> Inr (ValBool (cmp_string op l r))
      | (ValBool l, ValBool r) \<Rightarrow>
          if op = OpEq \<or> op = OpNeq then Inr (ValBool (if op = OpEq then l = r else l \<noteq> r)) else cmp_other op
      | _ \<Rightarrow> cmp_other op)"

definition vm_logic :: "OpCode \<Rightarrow> Value \<Rightarrow> Value \<Rightarrow> string + Value" where
  "vm_logic op left right =
     (case (left, right) of
        (ValBool l, ValBool r) \<Rightarrow> Inr (ValBool (if op = OpAnd then l \<and> r else l \<or> r))
      | _ \<Rightarrow> Inl ''type mismatch in logical operation'')"

definition vm_not :: "Value \<Rightarrow> string + Value" where
  "vm_not v = (case v of ValBool b \<Rightarrow> Inr (ValBool (\<not> b)) | _ \<Rightarrow> Inl ''type mismatch in logical NOT'')"

section \<open>The machine\<close>

text \<open>The stack holds at most eight values; the head of the list is its top.\<close>

definition vm_push :: "Value \<Rightarrow> Value list \<Rightarrow> (string + Value list) option" where
  "vm_push v st = (if length st < 8 then Some (Inr (v # st)) else None)"

definition vm_pop2 :: "(Value \<Rightarrow> Value \<Rightarrow> string + Value) \<Rightarrow> Value list \<Rightarrow> string + Value list" where
  "vm_pop2 f st = (case st of right # left # s \<Rightarrow> map_sum id (\<lambda>v. v # s) (f left right) | _ \<Rightarrow> Inl ''stack underflow'')"

definition vm_step :: "(int \<Rightarrow> string + Value) \<Rightarrow> OpCode \<Rightarrow> Value list \<Rightarrow> (string + Value list) option" where
  "vm_step load inst st =
     (case inst of
        OpPushInt i \<Rightarrow> vm_push (ValInt i) st
      | OpPushFloat f \<Rightarrow> vm_push (ValFloat f) st
      | OpPushString s \<Rightarrow> vm_push (ValString s) st
      | OpPushBool b \<Rightarrow> vm_push (ValBool b) st
      | OpLoadColumn c \<Rightarrow> (case load c of Inl e \<Rightarrow> Some (Inl e) | Inr v \<Rightarrow> vm_push v st)
      | OpNot \<Rightarrow> Some (case st of v # s \<Rightarrow> map_sum id (\<lambda>v. v # s) (vm_not v) | [] \<Rightarrow> Inl ''stack underflow'')
      | OpUnknown n \<Rightarrow> Some (Inl ''unknown opcode'')
      | _ \<Rightarrow>
          Some (vm_pop2 (if inst \<in> {OpAdd, OpSub, OpMul, OpDiv} then vm_arith inst
                         else if inst \<in> {OpAnd, OpOr} then vm_logic inst
                         else vm_compare inst) st))"

text \<open>The loop gives the top of the stack, or nothing when the stack is empty at the end.\<close>

fun vm_run :: "(int \<Rightarrow> string + Value) \<Rightarrow> OpCode list \<Rightarrow> Value list \<Rightarrow> (string + Value option) option" where
  "vm_run load [] st = Some (Inr (case st of [] \<Rightarrow> None | v # s \<Rightarrow> Some v))"
| "vm_run load (inst # insts) st =
     (if inst = OpReturn then Some (case st of [] \<Rightarrow> Inl ''stack underflow'' | v # s \<Rightarrow> Inr (Some v))
      else case vm_step load inst st of
             None \<Rightarrow> None
           | Some (Inl e) \<Rightarrow> Some (Inl e)
           | Some (Inr st) \<Rightarrow> vm_run load insts st)"

definition load_row :: "'j val list \<Rightarrow> int \<Rightarrow> string + Value" where
  "load_row row c =
     (if c < 0 \<or> int (length row) \<le> c then Inl ''column index out of range''
      else case row ! nat c of
             VInt i \<Rightarrow> Inr (ValInt i)
           | VInt64 i \<Rightarrow> Inr (ValInt i)
           | VFloat f \<Rightarrow> Inr (ValFloat f)
           | VString s \<Rightarrow> Inr (ValString s)
           | VBool b \<Rightarrow> Inr (ValBool b)
           | VNil \<Rightarrow> Inr ValNull
           | _ \<Rightarrow> Inl ''unsupported column type'')"

text \<open>The value of a column in the bytes of a tuple; the tag is the first byte.\<close>

definition raw_value :: "bytes \<Rightarrow> string + Value" where
  "raw_value valBytes =
     (if valBytes = [] \<or> hd valBytes = 0 then Inr ValNull
      else let tag = hd valBytes
        in if tag = 105 then (if length valBytes < 9 then Inl ''corrupted int value'' else Inr (ValInt (get64 (drop 1 valBytes))))
           else if tag = 102 then (if length valBytes < 9 then Inl ''corrupted float value'' else Inr (ValFloat (get64 (drop 1 valBytes))))
           else if tag = 98 then (if length valBytes < 2 then Inl ''corrupted bool value'' else Inr (ValBool (valBytes ! 1 = 1)))
           else if tag = 115 then
             (if length valBytes < 3 then Inl ''corrupted string header''
              else let strLen = unat (get16 (drop 1 valBytes))
                in if length valBytes < 3 + strLen then Inl ''corrupted string bytes'' else Inr (ValString (take strLen (drop 3 valBytes))))
           else Inl ''unsupported binary tag'')"

definition load_raw :: "bytes \<Rightarrow> int \<Rightarrow> string + Value" where
  "load_raw rawTuple c =
     (if length rawTuple < 18 then Inl ''tuple too short''
      else let colCount = unat (get16 (drop 16 rawTuple)); i = nat c
        in if c < 0 \<or> int colCount \<le> c then Inl ''column index out of range''
           else if length rawTuple < 18 + i * 2 + 2 then Inl ''tuple header truncated''
           else if i + 1 < colCount \<and> length rawTuple < 18 + (i + 1) * 2 + 2 then Inl ''tuple header truncated''
           else let valOffset = get16 (drop (18 + i * 2) rawTuple);
                    nextOffset = (if i + 1 < colCount then get16 (drop (18 + (i + 1) * 2) rawTuple) else word_of_nat (length rawTuple))
             in if length rawTuple < unat valOffset \<or> length rawTuple < unat nextOffset \<or> nextOffset < valOffset
                then Inl ''corrupted tuple column offsets''
                else raw_value (take (unat nextOffset - unat valOffset) (drop (unat valOffset) rawTuple)))"

definition ExecuteVM :: "OpCode list \<Rightarrow> 'j val list \<Rightarrow> (string + 'j val) option" where
  "ExecuteVM insts row =
     map_option (map_sum id (\<lambda>top. case top of None \<Rightarrow> VNil | Some v \<Rightarrow> ToInterface v)) (vm_run (load_row row) insts [])"

definition ExecuteVMBool :: "OpCode list \<Rightarrow> 'j val list \<Rightarrow> (string + bool) option" where
  "ExecuteVMBool insts row =
     map_option (map_sum id (\<lambda>top. case top of None \<Rightarrow> False | Some v \<Rightarrow> Bool_of v)) (vm_run (load_row row) insts [])"

definition ExecuteVMRaw :: "OpCode list \<Rightarrow> bytes \<Rightarrow> (string + bool) option" where
  "ExecuteVMRaw insts rawTuple =
     map_option (map_sum id (\<lambda>top. case top of None \<Rightarrow> False | Some v \<Rightarrow> Bool_of v)) (vm_run (load_raw rawTuple) insts [])"

section \<open>The compiler\<close>

record lit =
  lit_Type :: string
  IntVal :: u64
  FltVal :: f64
  StrVal :: bytes
  BoolVal :: bool

text \<open>The expressions of the parser the compiler distinguishes; a literal occurs as a value and as a pointer.\<close>

datatype expr =
    LitE lit
  | LitP lit
  | ColumnRef string
  | BinaryExpr expr string expr
  | AndExpr expr expr
  | OrExpr expr expr
  | NotExpr expr
  | OtherExpr

definition ascii_lower :: "char \<Rightarrow> char" where
  "ascii_lower ch = (if 65 \<le> (of_char ch :: nat) \<and> (of_char ch :: nat) \<le> 90 then char_of (of_char ch + (32 :: nat)) else ch)"

definition ToLower :: "string \<Rightarrow> string" where "ToLower s = map ascii_lower s"
definition EqualFold :: "string \<Rightarrow> string \<Rightarrow> bool" where "EqualFold s t \<longleftrightarrow> ToLower s = ToLower t"

definition compile_lit :: "lit \<Rightarrow> string + OpCode" where
  "compile_lit e =
     (let t = ToLower (lit_Type e)
      in if t = ''int'' then Inr (OpPushInt (IntVal e))
         else if t = ''float'' then Inr (OpPushFloat (FltVal e))
         else if t = ''string'' then Inr (OpPushString (StrVal e))
         else if t = ''bool'' then Inr (OpPushBool (BoolVal e))
         else Inl ''unsupported value type'')"

text \<open>The index of the first column with the name.\<close>

fun find_column :: "string list \<Rightarrow> string \<Rightarrow> nat \<Rightarrow> nat option" where
  "find_column [] name i = None"
| "find_column (c # cs) name i = (if EqualFold c name then Some i else find_column cs name (i + 1))"

definition binary_op :: "string \<Rightarrow> string + OpCode" where
  "binary_op op =
     (if op = ''+'' then Inr OpAdd else if op = ''-'' then Inr OpSub else if op = ''*'' then Inr OpMul else if op = ''/'' then Inr OpDiv
      else if op = ''='' then Inr OpEq else if op = ''!='' then Inr OpNeq else if op = ''<'' then Inr OpLt else if op = ''>'' then Inr OpGt
      else if op = ''<='' then Inr OpLte else if op = ''>='' then Inr OpGte
      else Inl ''unsupported binary operator'')"

definition sum_bind :: "'e + 'a \<Rightarrow> ('a \<Rightarrow> 'e + 'b) \<Rightarrow> 'e + 'b" where
  "sum_bind x f = (case x of Inl e \<Rightarrow> Inl e | Inr a \<Rightarrow> f a)"

lemma sum_bind_simps [simp]: "sum_bind (Inl e) f = Inl e" "sum_bind (Inr a) f = f a"
  by (simp_all add: sum_bind_def)

lemma sum_bind_cong [fundef_cong]: "x = y \<Longrightarrow> (\<And>a. y = Inr a \<Longrightarrow> f a = g a) \<Longrightarrow> sum_bind x f = sum_bind y g"
  by (simp add: sum_bind_def split: sum.splits)

fun compileNode :: "string list \<Rightarrow> expr \<Rightarrow> OpCode list \<Rightarrow> string + OpCode list" where
  "compileNode schema (LitE e) insts = map_sum id (\<lambda>op. insts @ [op]) (compile_lit e)"
| "compileNode schema (LitP e) insts = map_sum id (\<lambda>op. insts @ [op]) (compile_lit e)"
| "compileNode schema (ColumnRef name) insts =
     (case find_column schema name 0 of
        None \<Rightarrow> Inl ''column not found''
      | Some i \<Rightarrow> Inr (insts @ [OpLoadColumn (int i)]))"
| "compileNode schema (BinaryExpr l opr r) insts =
     sum_bind (compileNode schema l insts) (\<lambda>insts. sum_bind (compileNode schema r insts) (\<lambda>insts.
       map_sum id (\<lambda>op. insts @ [op]) (binary_op opr)))"
| "compileNode schema (AndExpr l r) insts =
     sum_bind (compileNode schema l insts) (\<lambda>insts. sum_bind (compileNode schema r insts) (\<lambda>insts. Inr (insts @ [OpAnd])))"
| "compileNode schema (OrExpr l r) insts =
     sum_bind (compileNode schema l insts) (\<lambda>insts. sum_bind (compileNode schema r insts) (\<lambda>insts. Inr (insts @ [OpOr])))"
| "compileNode schema (NotExpr e) insts = sum_bind (compileNode schema e insts) (\<lambda>insts. Inr (insts @ [OpNot]))"
| "compileNode schema OtherExpr insts = Inl ''unsupported expression type for compilation''"

definition Compile :: "expr option \<Rightarrow> string list \<Rightarrow> string + OpCode list" where
  "Compile e schema = (case e of None \<Rightarrow> Inr [OpPushBool True] | Some e \<Rightarrow> compileNode schema e [])"

section \<open>The value of an expression\<close>

text \<open>The reference: both operands are evaluated, the left one first, and the first error is the result.\<close>

definition lit_value :: "lit \<Rightarrow> string + Value" where
  "lit_value e =
     (let t = ToLower (lit_Type e)
      in if t = ''int'' then Inr (ValInt (IntVal e)) else if t = ''float'' then Inr (ValFloat (FltVal e))
         else if t = ''string'' then Inr (ValString (StrVal e)) else if t = ''bool'' then Inr (ValBool (BoolVal e))
         else Inl ''unsupported value type'')"

fun eval_expr :: "string list \<Rightarrow> (int \<Rightarrow> string + Value) \<Rightarrow> expr \<Rightarrow> string + Value" where
  "eval_expr schema load (LitE e) = lit_value e"
| "eval_expr schema load (LitP e) = lit_value e"
| "eval_expr schema load (ColumnRef name) = (case find_column schema name 0 of None \<Rightarrow> Inl ''column not found'' | Some i \<Rightarrow> load (int i))"
| "eval_expr schema load (BinaryExpr l opr r) =
     sum_bind (eval_expr schema load l) (\<lambda>x. sum_bind (eval_expr schema load r) (\<lambda>y.
       if opr \<in> {''+'', ''-'', ''*'', ''/''} then vm_arith (projr (binary_op opr)) x y else vm_compare (projr (binary_op opr)) x y))"
| "eval_expr schema load (AndExpr l r) =
     sum_bind (eval_expr schema load l) (\<lambda>x. sum_bind (eval_expr schema load r) (vm_logic OpAnd x))"
| "eval_expr schema load (OrExpr l r) =
     sum_bind (eval_expr schema load l) (\<lambda>x. sum_bind (eval_expr schema load r) (vm_logic OpOr x))"
| "eval_expr schema load (NotExpr e) = sum_bind (eval_expr schema load e) vm_not"
| "eval_expr schema load OtherExpr = Inl ''unsupported expression type''"

text \<open>The number of stack slots an expression needs: the left value stays on the stack while the right one is computed.\<close>

fun stack_need :: "expr \<Rightarrow> nat" where
  "stack_need (BinaryExpr l opr r) = max (stack_need l) (stack_need r + 1)"
| "stack_need (AndExpr l r) = max (stack_need l) (stack_need r + 1)"
| "stack_need (OrExpr l r) = max (stack_need l) (stack_need r + 1)"
| "stack_need (NotExpr e) = stack_need e"
| "stack_need _ = 1"

section \<open>The compiled code computes the value\<close>

lemma bind2_append:
  fixes f g :: "OpCode list \<Rightarrow> string + OpCode list"
  assumes f: "\<And>i. f i = map_sum id ((@) i) (f [])" and g: "\<And>i. g i = map_sum id ((@) i) (g [])"
  shows "sum_bind (f i) (\<lambda>i. sum_bind (g i) (\<lambda>i. map_sum id (\<lambda>op. i @ [op]) k))
    = map_sum id ((@) i) (sum_bind (f []) (\<lambda>i. sum_bind (g i) (\<lambda>i. map_sum id (\<lambda>op. i @ [op]) k)))"
proof (cases "f []")
  case (Inr a)
  then show ?thesis using f [of i] g [of "i @ a"] g [of a] by (cases "g []"; cases k) simp_all
qed (use f [of i] in simp)

lemma compileNode_append: "compileNode schema e insts = map_sum id ((@) insts) (compileNode schema e [])"
proof (induction e arbitrary: insts)
  case (BinaryExpr l opr r)
  show ?case
    using bind2_append [where f = "compileNode schema l" and g = "compileNode schema r" and k = "binary_op opr", OF BinaryExpr.IH, of insts] by (simp add: id_def)
next
  case (AndExpr l r)
  show ?case
    using bind2_append [where f = "compileNode schema l" and g = "compileNode schema r" and k = "Inr OpAnd", OF AndExpr.IH, of insts] by (simp add: id_def)
next
  case (OrExpr l r)
  show ?case
    using bind2_append [where f = "compileNode schema l" and g = "compileNode schema r" and k = "Inr OpOr", OF OrExpr.IH, of insts] by (simp add: id_def)
next
  case (NotExpr e)
  show ?case using NotExpr.IH [of insts] by (cases "compileNode schema e []") simp_all
next
  case (LitE e)
  show ?case by (cases "compile_lit e") simp_all
next
  case (LitP e)
  show ?case by (cases "compile_lit e") simp_all
next
  case (ColumnRef name)
  show ?case by (cases "find_column schema name 0") simp_all
qed simp

text \<open>One instruction of the code of an expression.\<close>

lemma binary_op_step:
  "binary_op opr = Inr op \<Longrightarrow>
     op \<noteq> OpReturn \<and>
     vm_step load op (y # x # st) =
       Some (map_sum id (\<lambda>v. v # st) (if opr \<in> {''+'', ''-'', ''*'', ''/''} then vm_arith (projr (binary_op opr)) x y
                                         else vm_compare (projr (binary_op opr)) x y))"
  by (auto simp: binary_op_def vm_step_def vm_pop2_def split: if_splits)

lemma compile_lit_step:
  "compile_lit e = Inr op \<Longrightarrow> op \<noteq> OpReturn \<and> vm_step load op st = (case lit_value e of Inl e \<Rightarrow> Some (Inl e) | Inr v \<Rightarrow> vm_push v st)"
  by (auto simp: compile_lit_def lit_value_def vm_step_def Let_def split: if_splits)

lemma vm_run_step:
  "inst \<noteq> OpReturn \<Longrightarrow> vm_step load inst st = Some (map_sum id f x) \<Longrightarrow>
   vm_run load (inst # insts) st = (case x of Inl e \<Rightarrow> Some (Inl e) | Inr v \<Rightarrow> vm_run load insts (f v))"
  by (cases x) simp_all

lemma vm_run_push:
  "inst \<noteq> OpReturn \<Longrightarrow> vm_step load inst st = vm_push v st \<Longrightarrow>
   vm_run load (inst # insts) st = (if length st < 8 then vm_run load insts (v # st) else None)"
  by (simp add: vm_push_def)

text \<open>
  The run of the code of an expression, before any other code: the value is pushed, or the run ends with the error; when the stack
  is too short, an expression that has a value panics.
\<close>

definition runs :: "(int \<Rightarrow> string + Value) \<Rightarrow> OpCode list \<Rightarrow> string + Value \<Rightarrow> nat \<Rightarrow> bool" where
  "runs load code res need \<longleftrightarrow>
     (\<forall>rest st.
        (length st + need \<le> 8 \<longrightarrow>
           vm_run load (code @ rest) st = (case res of Inl e \<Rightarrow> Some (Inl e) | Inr v \<Rightarrow> vm_run load rest (v # st))) \<and>
        (\<not> length st + need \<le> 8 \<longrightarrow> (\<forall>v. res = Inr v \<longrightarrow> vm_run load (code @ rest) st = None)))"

lemma runs_push:
  "inst \<noteq> OpReturn \<Longrightarrow> (\<And>st. vm_step load inst st = (case res of Inl e \<Rightarrow> Some (Inl e) | Inr v \<Rightarrow> vm_push v st)) \<Longrightarrow> runs load [inst] res 1"
  by (cases res) (simp_all add: runs_def vm_push_def)

lemma runs_unary:
  assumes "runs load a x n" "inst \<noteq> OpReturn" "\<And>v st. vm_step load inst (v # st) = Some (map_sum id (\<lambda>r. r # st) (f v))"
  shows "runs load (a @ [inst]) (sum_bind x f) n"
  using assms by (cases x) (simp_all add: runs_def vm_run_step [OF assms(2) assms(3)] del: vm_run.simps)

lemma runs_binary:
  assumes "runs load a x n" "runs load b y m" "inst \<noteq> OpReturn"
    "\<And>v w st. vm_step load inst (w # v # st) = Some (map_sum id (\<lambda>r. r # st) (f v w))"
  shows "runs load (a @ b @ [inst]) (sum_bind x (\<lambda>v. sum_bind y (f v))) (max n (m + 1))"
proof (cases x)
  case (Inl e)
  then show ?thesis using assms(1) by (simp add: runs_def)
next
  case x: (Inr v)
  show ?thesis
  proof (cases y)
    case (Inl e)
    then show ?thesis using assms(1,2) x by (simp add: runs_def)
  next
    case (Inr w)
    have "vm_run load (a @ b @ inst # rest) st
        = (if length st + n \<le> 8 \<and> Suc (length st) + m \<le> 8 then vm_run load (inst # rest) (w # v # st) else None)" for rest st
      using assms(1,2) x Inr by (cases "length st + n \<le> 8") (simp_all add: runs_def del: vm_run.simps)
    then show ?thesis
      using x Inr by (auto simp: runs_def vm_run_step [OF assms(3) assms(4)] simp del: vm_run.simps split: sum.splits)
  qed
qed

lemma compileNode_split:
  assumes "sum_bind (compileNode schema l []) (\<lambda>i. sum_bind (compileNode schema r i) (\<lambda>i. map_sum id (\<lambda>op. i @ [op]) k)) = Inr code"
  shows "\<exists>a b op. compileNode schema l [] = Inr a \<and> compileNode schema r [] = Inr b \<and> k = Inr op \<and> code = a @ b @ [op]"
proof (cases "compileNode schema l []")
  case (Inr a)
  then show ?thesis using assms compileNode_append [of schema r a] by (cases "compileNode schema r []"; cases k) auto
qed (use assms in simp)

lemma compileNode_runs: "compileNode schema e [] = Inr code \<Longrightarrow> runs load code (eval_expr schema load e) (stack_need e)"
proof (induction e arbitrary: code)
  case (BinaryExpr l opr r)
  from compileNode_split [of schema l r "binary_op opr" code] BinaryExpr.prems
  obtain a b op where c: "compileNode schema l [] = Inr a" "compileNode schema r [] = Inr b" "binary_op opr = Inr op" "code = a @ b @ [op]"
    by auto
  have "op \<noteq> OpReturn" using binary_op_step [OF c(3)] by blast
  then show ?case
    using runs_binary [OF BinaryExpr.IH(1) [OF c(1)] BinaryExpr.IH(2) [OF c(2)]] binary_op_step [OF c(3)] c(4) by simp
next
  case (AndExpr l r)
  from compileNode_split [of schema l r "Inr OpAnd" code] AndExpr.prems
  obtain a b where c: "compileNode schema l [] = Inr a" "compileNode schema r [] = Inr b" "code = a @ b @ [OpAnd]" by auto
  show ?case
    unfolding c(3) eval_expr.simps stack_need.simps
    by (rule runs_binary [OF AndExpr.IH(1) [OF c(1)] AndExpr.IH(2) [OF c(2)]]) (simp_all add: vm_step_def vm_pop2_def)
next
  case (OrExpr l r)
  from compileNode_split [of schema l r "Inr OpOr" code] OrExpr.prems
  obtain a b where c: "compileNode schema l [] = Inr a" "compileNode schema r [] = Inr b" "code = a @ b @ [OpOr]" by auto
  show ?case
    unfolding c(3) eval_expr.simps stack_need.simps
    by (rule runs_binary [OF OrExpr.IH(1) [OF c(1)] OrExpr.IH(2) [OF c(2)]]) (simp_all add: vm_step_def vm_pop2_def)
next
  case (NotExpr e)
  then obtain a where c: "compileNode schema e [] = Inr a" "code = a @ [OpNot]" by (cases "compileNode schema e []") auto
  show ?case
    unfolding c(2) eval_expr.simps stack_need.simps
    by (rule runs_unary [OF NotExpr.IH [OF c(1)]]) (simp_all add: vm_step_def)
next
  case (LitE e)
  then obtain op where "compile_lit e = Inr op" "code = [op]" by (cases "compile_lit e") auto
  then show ?case using compile_lit_step runs_push by simp
next
  case (LitP e)
  then obtain op where "compile_lit e = Inr op" "code = [op]" by (cases "compile_lit e") auto
  then show ?case using compile_lit_step runs_push by simp
next
  case (ColumnRef name)
  then show ?case by (cases "find_column schema name 0") (auto intro!: runs_push [unfolded One_nat_def] simp: vm_step_def)
qed simp

lemma vm_run_code:
  "runs load code res n \<Longrightarrow> n \<le> 8 \<Longrightarrow> vm_run load code [] = Some (map_sum id Some res)"
  unfolding runs_def by (drule spec [where x = "[]"], drule spec [where x = "[]"]) (auto split: sum.splits)

text \<open>
  C3: Compiled code computes the value of its expression. When the expression needs at most eight stack slots, the three interpreters
  return, without a panic, exactly what the expression evaluates to on the row or on the bytes of the tuple, errors included.
\<close>

theorem Compile_correct:
  assumes "Compile (Some e) schema = Inr code" and "stack_need e \<le> 8"
  shows "ExecuteVM code row = Some (map_sum id ToInterface (eval_expr schema (load_row row) e))
    \<and> ExecuteVMBool code row = Some (map_sum id Bool_of (eval_expr schema (load_row row) e))
    \<and> ExecuteVMRaw code rawTuple = Some (map_sum id Bool_of (eval_expr schema (load_raw rawTuple) e))"
proof -
  have "vm_run load code [] = Some (map_sum id Some (eval_expr schema load e))" for load
    using vm_run_code [OF compileNode_runs] assms by (simp add: Compile_def)
  then show ?thesis
    by (simp add: ExecuteVM_def ExecuteVMBool_def ExecuteVMRaw_def sum.map_comp comp_def id_def)
qed

text \<open>The condition \<open>2 * qty + 1 > 7\<close> on the row with \<open>qty = 4\<close>.\<close>

definition int_lit :: "u64 \<Rightarrow> expr" where
  "int_lit i = LitE \<lparr>lit_Type = ''int'', IntVal = i, FltVal = 0, StrVal = [], BoolVal = False\<rparr>"

definition demo_expr :: expr where
  "demo_expr = BinaryExpr (BinaryExpr (BinaryExpr (int_lit 2) ''*'' (ColumnRef ''QTY'')) ''+'' (int_lit 1)) ''>'' (int_lit 7)"

lemma ToLower_demo:
  "ToLower ''QTY'' = ''qty''" "ToLower ''qty'' = ''qty''" "ToLower ''id'' = ''id''" "ToLower ''int'' = ''int''"
  by code_simp+

lemmas vm_demo_simps = demo_expr_def int_lit_def Compile_def compile_lit_def ToLower_demo EqualFold_def binary_op_def
  lit_value_def vm_arith_def vm_compare_def arith_int_def cmp_int_def cmp_with_def load_row_def

theorem Compile_correct_witness:
  "\<exists>code. Compile (Some demo_expr) [''id'', ''qty''] = Inr code \<and> stack_need demo_expr \<le> 8
     \<and> ExecuteVM code [VInt64 9, VInt64 4] = Some (Inr (VBool True) :: string + unit val)"
proof -
  obtain code where c: "Compile (Some demo_expr) [''id'', ''qty''] = Inr code" by (simp add: vm_demo_simps)
  have n: "stack_need demo_expr \<le> 8" by (simp add: demo_expr_def int_lit_def)
  have "eval_expr [''id'', ''qty''] (load_row [VInt64 9, VInt64 4 :: unit val]) demo_expr = Inr (ValBool True)"
    by (simp add: vm_demo_simps)
  then show ?thesis
    using Compile_correct [OF c n, of "[VInt64 9, VInt64 4 :: unit val]"] c n by (simp add: ToInterface_def)
qed


fun nested :: "nat \<Rightarrow> expr" where
  "nested 0 = int_lit 1"
| "nested (Suc n) = BinaryExpr (int_lit 1) ''+'' (nested n)"


section \<open>Types\<close>

datatype ty = TInt | TFloat | TString | TBool

fun has_type :: "ty \<Rightarrow> Value \<Rightarrow> bool" where
  "has_type TInt (ValInt i) = True"
| "has_type TFloat (ValFloat f) = True"
| "has_type TString (ValString s) = True"
| "has_type TBool (ValBool b) = True"
| "has_type _ _ = False"

definition numeric :: "ty \<Rightarrow> bool" where "numeric t \<longleftrightarrow> t = TInt \<or> t = TFloat"

definition lit_type :: "lit \<Rightarrow> ty option" where
  "lit_type e =
     (let t = ToLower (lit_Type e)
      in if t = ''int'' then Some TInt else if t = ''float'' then Some TFloat else if t = ''string'' then Some TString
         else if t = ''bool'' then Some TBool else None)"

text \<open>Numbers of both types mix; texts compare with texts; truth values are only equal or unequal.\<close>

definition binary_type :: "string \<Rightarrow> ty \<Rightarrow> ty \<Rightarrow> ty option" where
  "binary_type opr a b =
     (if opr \<in> {''+'', ''-'', ''*'', ''/''} then
        (if a = TInt \<and> b = TInt then Some TInt else if numeric a \<and> numeric b then Some TFloat else None)
      else if opr \<in> {''='', ''!=''} then (if numeric a \<and> numeric b \<or> a = b then Some TBool else None)
      else if opr \<in> {''<'', ''>'', ''<='', ''>=''} then (if numeric a \<and> numeric b \<or> a = TString \<and> b = TString then Some TBool else None)
      else None)"

fun type_of :: "string list \<Rightarrow> ty list \<Rightarrow> expr \<Rightarrow> ty option" where
  "type_of schema tys (LitE e) = lit_type e"
| "type_of schema tys (LitP e) = lit_type e"
| "type_of schema tys (ColumnRef name) = map_option ((!) tys) (find_column schema name 0)"
| "type_of schema tys (BinaryExpr l opr r) =
     Option.bind (type_of schema tys l) (\<lambda>a. Option.bind (type_of schema tys r) (binary_type opr a))"
| "type_of schema tys (AndExpr l r) = (if type_of schema tys l = Some TBool \<and> type_of schema tys r = Some TBool then Some TBool else None)"
| "type_of schema tys (OrExpr l r) = (if type_of schema tys l = Some TBool \<and> type_of schema tys r = Some TBool then Some TBool else None)"
| "type_of schema tys (NotExpr e) = (if type_of schema tys e = Some TBool then Some TBool else None)"
| "type_of schema tys OtherExpr = None"

text \<open>A result of the right type, or the one error a typed expression has.\<close>

definition typed_result :: "ty \<Rightarrow> string + Value \<Rightarrow> bool" where
  "typed_result t r = (case r of Inl e \<Rightarrow> e = ''division by zero'' | Inr v \<Rightarrow> has_type t v)"

lemma has_typeE:
  "has_type t v \<Longrightarrow> (\<And>i. t = TInt \<Longrightarrow> v = ValInt i \<Longrightarrow> P) \<Longrightarrow> (\<And>f. t = TFloat \<Longrightarrow> v = ValFloat f \<Longrightarrow> P) \<Longrightarrow>
   (\<And>s. t = TString \<Longrightarrow> v = ValString s \<Longrightarrow> P) \<Longrightarrow> (\<And>b. t = TBool \<Longrightarrow> v = ValBool b \<Longrightarrow> P) \<Longrightarrow> P"
  by (cases t; cases v) auto

lemma arith_typed:
  "has_type a x \<Longrightarrow> has_type b y \<Longrightarrow> numeric a \<Longrightarrow> numeric b \<Longrightarrow>
   typed_result (if a = TInt \<and> b = TInt then TInt else TFloat) (vm_arith op x y)"
  by (elim has_typeE) (auto simp: vm_arith_def arith_int_def arith_float_def typed_result_def numeric_def split: OpCode.splits)

lemma compare_typed:
  "has_type a x \<Longrightarrow> has_type b y \<Longrightarrow> numeric a \<and> numeric b \<or> a = TString \<and> b = TString \<or> a = b \<and> op \<in> {OpEq, OpNeq} \<Longrightarrow>
   typed_result TBool (vm_compare op x y)"
  by (elim has_typeE) (auto simp: vm_compare_def typed_result_def numeric_def)

lemma binary_typed:
  assumes "binary_type opr a b = Some t" "has_type a x" "has_type b y"
  shows "typed_result t (if opr \<in> {''+'', ''-'', ''*'', ''/''} then vm_arith (projr (binary_op opr)) x y
      else vm_compare (projr (binary_op opr)) x y)"
proof (cases "opr \<in> {''+'', ''-'', ''*'', ''/''}")
  case True
  then have "numeric a \<and> numeric b \<and> t = (if a = TInt \<and> b = TInt then TInt else TFloat)"
    using assms(1) unfolding binary_type_def if_P [OF True] by (auto simp: numeric_def split: if_splits)
  then show ?thesis unfolding if_P [OF True] using arith_typed [OF assms(2,3)] by blast
next
  case False
  have "t = TBool" using assms(1) unfolding binary_type_def if_not_P [OF False] by (auto split: if_splits)
  moreover have "numeric a \<and> numeric b \<or> a = TString \<and> b = TString \<or> a = b \<and> projr (binary_op opr) \<in> {OpEq, OpNeq}"
    using assms(1) unfolding binary_type_def if_not_P [OF False] by (auto simp: binary_op_def split: if_splits)
  ultimately show ?thesis unfolding if_not_P [OF False] using compare_typed [OF assms(2,3)] by blast
qed

lemma logic_typed: "has_type TBool x \<Longrightarrow> has_type TBool y \<Longrightarrow> typed_result TBool (vm_logic op x y)"
  by (elim has_typeE) (auto simp: vm_logic_def typed_result_def)

lemma not_typed: "has_type TBool x \<Longrightarrow> typed_result TBool (vm_not x)"
  by (elim has_typeE) (auto simp: vm_not_def typed_result_def)

lemma typed_bind:
  "typed_result t r \<Longrightarrow> (\<And>v. has_type t v \<Longrightarrow> typed_result u (f v)) \<Longrightarrow> typed_result u (sum_bind r f)"
  by (cases r) (auto simp: typed_result_def)

lemma find_column_less: "find_column cs name k = Some i \<Longrightarrow> i < k + length cs"
  by (induction cs arbitrary: k) (fastforce split: if_splits)+

lemma eval_typed:
  assumes "length tys = length schema" "\<And>i. i < length tys \<Longrightarrow> typed_result (tys ! i) (load (int i))"
  shows "type_of schema tys e = Some t \<Longrightarrow> typed_result t (eval_expr schema load e)"
proof (induction e arbitrary: t)
  case (ColumnRef name)
  then show ?case using find_column_less [of schema name 0] assms by auto
next
  case (BinaryExpr l opr r)
  then obtain a b where t: "type_of schema tys l = Some a" "type_of schema tys r = Some b" "binary_type opr a b = Some t"
    by (auto simp: bind_eq_Some_conv)
  show ?case
    unfolding eval_expr.simps
    by (intro typed_bind [OF BinaryExpr.IH(1) [OF t(1)]] typed_bind [OF BinaryExpr.IH(2) [OF t(2)]] binary_typed [OF t(3)])
next
  case (AndExpr l r)
  then have t: "type_of schema tys l = Some TBool" "type_of schema tys r = Some TBool" "t = TBool" by (auto split: if_splits)
  show ?case
    unfolding eval_expr.simps t(3)
    by (intro typed_bind [OF AndExpr.IH(1) [OF t(1)]] typed_bind [OF AndExpr.IH(2) [OF t(2)]] logic_typed)
next
  case (OrExpr l r)
  then have t: "type_of schema tys l = Some TBool" "type_of schema tys r = Some TBool" "t = TBool" by (auto split: if_splits)
  show ?case
    unfolding eval_expr.simps t(3)
    by (intro typed_bind [OF OrExpr.IH(1) [OF t(1)]] typed_bind [OF OrExpr.IH(2) [OF t(2)]] logic_typed)
next
  case (NotExpr e)
  then have "typed_result TBool (eval_expr schema load e)" "t = TBool" by (auto split: if_splits)
  then show ?case using typed_bind [OF _ not_typed] by simp
qed (auto simp: lit_type_def lit_value_def typed_result_def Let_def split: if_splits)

lemma binary_type_op: "binary_type opr a b = Some t \<Longrightarrow> \<exists>op. binary_op opr = Inr op"
  by (auto simp: binary_type_def binary_op_def split: if_splits)

lemma compile_pair:
  assumes "\<exists>a. compileNode schema l [] = Inr a" "\<exists>b. compileNode schema r [] = Inr b" "\<exists>op. k = Inr op"
  shows "\<exists>code. sum_bind (compileNode schema l []) (\<lambda>i. sum_bind (compileNode schema r i) (\<lambda>i. map_sum id (\<lambda>op. i @ [op]) k)) = Inr code"
proof -
  obtain a b op where "compileNode schema l [] = Inr a" "compileNode schema r [] = Inr b" "k = Inr op" using assms by blast
  then show ?thesis using compileNode_append [of schema r a] by simp
qed

lemma typed_compiles: "type_of schema tys e = Some t \<Longrightarrow> \<exists>code. compileNode schema e [] = Inr code"
proof (induction e arbitrary: t)
  case (BinaryExpr l opr r)
  then obtain a b where t: "type_of schema tys l = Some a" "type_of schema tys r = Some b" "binary_type opr a b = Some t"
    by (auto simp: bind_eq_Some_conv)
  show ?case
    using compile_pair [OF BinaryExpr.IH(1) [OF t(1)] BinaryExpr.IH(2) [OF t(2)] binary_type_op [OF t(3)]] by simp
next
  case (AndExpr l r)
  then have "type_of schema tys l = Some TBool" "type_of schema tys r = Some TBool" by (auto split: if_splits)
  then show ?case using compile_pair [OF AndExpr.IH, of TBool TBool "Inr OpAnd"] by simp
next
  case (OrExpr l r)
  then have "type_of schema tys l = Some TBool" "type_of schema tys r = Some TBool" by (auto split: if_splits)
  then show ?case using compile_pair [OF OrExpr.IH, of TBool TBool "Inr OpOr"] by simp
next
  case (NotExpr e)
  then show ?case by (fastforce split: if_splits)
qed (auto simp: lit_type_def compile_lit_def Let_def split: if_splits)

text \<open>A row fits the types of its columns; no column is null.\<close>

fun val_fits :: "ty \<Rightarrow> 'j val \<Rightarrow> bool" where
  "val_fits TInt (VInt i) = True"
| "val_fits TInt (VInt64 i) = True"
| "val_fits TFloat (VFloat f) = True"
| "val_fits TString (VString s) = True"
| "val_fits TBool (VBool b) = True"
| "val_fits _ _ = False"

lemma load_row_typed: "list_all2 val_fits tys row \<Longrightarrow> i < length tys \<Longrightarrow> typed_result (tys ! i) (load_row row (int i))"
proof -
  assume a: "list_all2 val_fits tys row" "i < length tys"
  have "val_fits (tys ! i) (row ! i)" "i < length row" using list_all2_nthD [OF a] list_all2_lengthD [OF a(1)] a(2) by simp_all
  then show "typed_result (tys ! i) (load_row row (int i))"
    by (cases "tys ! i"; cases "row ! i"; simp add: load_row_def typed_result_def)
qed



section \<open>Running on the bytes of a tuple\<close>

text \<open>The values the machine can load from a tuple.\<close>

fun plain :: "'j val \<Rightarrow> bool" where
  "plain (VInt64 i) = True"
| "plain (VFloat f) = True"
| "plain (VBool b) = True"
| "plain (VString s) = True"
| "plain _ = False"

lemma raw_value_encode:
  assumes "encodeColumnValue js v = Inr b"
  shows "plain v \<Longrightarrow> raw_value b = load_row [v] 0" "v = VNil \<Longrightarrow> raw_value b = Inl ''unsupported binary tag''"
  using assms by (cases v; auto simp: encodeColumnValue_def raw_value_def load_row_def Let_def unat_of_nat_u16 split: if_splits)+

lemma read16_get: "read16 p i = Some w \<Longrightarrow> get16 (drop i p) = w \<and> i + 2 \<le> length p"
  by (auto simp: read16_def go_slice_def get16_def window_def split: if_splits)

lemma load_raw_tuple:
  assumes "length (tuple_bytes c d cols) \<le> 65535" "k < length cols"
  shows "load_raw (tuple_bytes c d cols) (int k) = raw_value (cols ! k)"
proof -
  let ?t = "tuple_bytes c d cols"
  have u: "unat (word_of_nat (col_start cols j) :: u16) = col_start cols j" for j
    using assms(1) col_start_le [of cols j] by (intro unat_off) (simp add: length_tuple_bytes)
  have n: "unat (get16 (drop 16 ?t)) = length cols"
    using assms(1) by (simp add: tuple_bytes_def length_concat_le unat_of_nat_u16)
  have off: "get16 (drop (18 + j * 2) ?t) = word_of_nat (col_start cols j) \<and> 18 + j * 2 + 2 \<le> length ?t" if "j < length cols" for j
    using read16_get [OF tuple_offset [OF that]] .
  have nx: "(if k + 1 < length cols then get16 (drop (18 + (k + 1) * 2) ?t) else word_of_nat (length ?t)) = word_of_nat (col_start cols (k + 1))"
  proof (cases "k + 1 < length cols")
    case False
    then have "k + 1 = length cols" using assms(2) by simp
    then show ?thesis by (simp add: length_tuple_bytes)
  qed (use off [of "k + 1"] in simp)
  have b: "col_start cols k \<le> col_start cols (k + 1)" "col_start cols (k + 1) \<le> length ?t"
    using col_start_Suc [OF assms(2)] col_start_le [of cols "k + 1"] by (simp_all add: length_tuple_bytes)
  have "take (col_start cols (k + 1) - col_start cols k) (drop (col_start cols k) ?t) = cols ! k"
    using tuple_column [OF assms(2), of c d] by (simp add: go_slice_def window_def split: if_splits)
  then show ?thesis
    using off [OF assms(2)] off [of "k + 1"] assms(2) b u n nx
    by (auto simp: load_raw_def Let_def word_less_nat_alt)
qed

lemma EncodeRow_tuple:
  assumes "EncodeRow js pooled createdTx deletedTx row = Some (Inr tuple)"
  obtains cols where "tuple = tuple_bytes createdTx deletedTx cols" "length cols = length row" "length tuple \<le> 65535"
    "\<And>i. i < length row \<Longrightarrow> encodeColumnValue js (row ! i) = Inr (cols ! i)"
proof -
  obtain cols where c: "encode_columns js 0 row = Inr cols" "tuple = tuple_bytes createdTx deletedTx cols"
      "18 + 2 * length row + length (concat cols) \<le> 65535"
    using assms unfolding EncodeRow_eq by (auto simp: Let_def split: if_splits sum.splits)
  moreover have "length cols = length row" by (rule length_encode_columns [OF c(1)])
  ultimately show thesis using that encode_columns_nth [OF c(1)] by (simp add: length_tuple_bytes col_start_def)
qed

lemma load_raw_EncodeRow:
  assumes e: "EncodeRow js pooled createdTx deletedTx row = Some (Inr tuple)"
  shows "c < 0 \<or> int (length row) \<le> c \<Longrightarrow> load_raw tuple c = load_row row c"
    and "k < length row \<Longrightarrow> plain (row ! k) \<Longrightarrow> load_raw tuple (int k) = load_row row (int k)"
    and "k < length row \<Longrightarrow> row ! k = VNil \<Longrightarrow> load_raw tuple (int k) = Inl ''unsupported binary tag''"
proof -
  obtain cols where t: "tuple = tuple_bytes createdTx deletedTx cols" "length cols = length row" "length tuple \<le> 65535"
    "\<And>i. i < length row \<Longrightarrow> encodeColumnValue js (row ! i) = Inr (cols ! i)"
    using EncodeRow_tuple [OF e] by blast
  have r: "load_raw tuple (int k) = raw_value (cols ! k)" if "k < length row" for k
    using load_raw_tuple [of createdTx deletedTx cols k] t that by simp
  have "18 \<le> length tuple" "length row \<le> 65535" using t(1-3) by (simp_all add: length_tuple_bytes col_start_def)
  moreover have "get16 (drop 16 tuple) = word_of_nat (length row)" by (simp add: t(1,2) tuple_bytes_def)
  ultimately show "c < 0 \<or> int (length row) \<le> c \<Longrightarrow> load_raw tuple c = load_row row c"
    by (auto simp: load_raw_def load_row_def Let_def unat_of_nat_u16)
  show "k < length row \<Longrightarrow> plain (row ! k) \<Longrightarrow> load_raw tuple (int k) = load_row row (int k)"
    using r [of k] raw_value_encode(1) [OF t(4)] by (simp add: load_row_def)
  show "k < length row \<Longrightarrow> row ! k = VNil \<Longrightarrow> load_raw tuple (int k) = Inl ''unsupported binary tag''"
    using r [of k] raw_value_encode(2) [OF t(4)] by simp
qed

text \<open>
  C13: Filtering without decoding agrees with filtering decoded rows. On the tuple that \<open>EncodeRow\<close> makes of a row whose values are
  numbers, truth values and texts, every program gives on the bytes what it gives on the row, panics and errors included.
\<close>

theorem ExecuteVMRaw_EncodeRow:
  assumes "EncodeRow js pooled createdTx deletedTx row = Some (Inr tuple)" and "\<forall>v \<in> set row. plain v"
  shows "ExecuteVMRaw insts tuple = ExecuteVMBool insts row"
proof -
  have "load_raw tuple c = load_row row c" for c
  proof (cases "c < 0 \<or> int (length row) \<le> c")
    case False
    then have "nat c < length row" "int (nat c) = c" by auto
    then show ?thesis using load_raw_EncodeRow(2) [OF assms(1), of "nat c"] assms(2) by simp
  qed (use load_raw_EncodeRow(1) [OF assms(1)] in blast)
  then have "load_raw tuple = load_row row" by blast
  then show ?thesis by (simp add: ExecuteVMRaw_def ExecuteVMBool_def)
qed

theorem ExecuteVMRaw_EncodeRow_witness:
  "\<exists>tuple. EncodeRow demo_js [] 7 0 [VInt64 5, VString [104]] = Some (Inr tuple)
     \<and> ExecuteVMRaw [OpLoadColumn 0, OpPushInt 5, OpEq] tuple = Some (Inr True)"
proof -
  obtain tuple where t: "EncodeRow demo_js [] 7 0 [VInt64 5, VString [104]] = Some (Inr tuple)"
    unfolding EncodeRow_eq by (simp add: encodeColumnValue_def demo_js_def)
  then show ?thesis
    using ExecuteVMRaw_EncodeRow [OF t, of "[OpLoadColumn 0, OpPushInt 5, OpEq]"]
    by (simp add: ExecuteVMBool_def load_row_def vm_step_def vm_push_def vm_pop2_def vm_compare_def cmp_int_def cmp_with_def)
qed

text \<open>
  Null columns make raw filtering fail. \<open>EncodeRow\<close> writes null as the tag \<open>0xFF\<close>, which the machine does not know: whatever
  follows, a program that loads a null column of a tuple ends with an error, while on the decoded row the comparison of the column
  with a number is simply false.
\<close>

theorem ExecuteVMRaw_null:
  assumes "EncodeRow js pooled createdTx deletedTx row = Some (Inr tuple)" and "k < length row" and "row ! k = VNil"
  shows "ExecuteVMRaw (OpLoadColumn (int k) # insts) tuple = Some (Inl ''unsupported binary tag'')
    \<and> ExecuteVMBool [OpLoadColumn (int k), OpPushInt n, OpEq] row = Some (Inr False)"
proof -
  have "load_row row (int k) = Inr ValNull" using assms(2,3) by (simp add: load_row_def)
  then show ?thesis
    using load_raw_EncodeRow(3) [OF assms]
    by (simp add: ExecuteVMRaw_def ExecuteVMBool_def vm_step_def vm_push_def vm_pop2_def vm_compare_def cmp_other_def)
qed

theorem ExecuteVMRaw_null_witness:
  "\<exists>tuple. EncodeRow demo_js [] 7 0 [VInt64 5, VNil] = Some (Inr tuple)
     \<and> ExecuteVMRaw [OpLoadColumn 1, OpPushInt 5, OpEq] tuple = Some (Inl ''unsupported binary tag'')"
proof -
  obtain tuple where t: "EncodeRow demo_js [] 7 0 [VInt64 5, VNil] = Some (Inr tuple)"
    unfolding EncodeRow_eq by (simp add: encodeColumnValue_def demo_js_def)
  then show ?thesis using ExecuteVMRaw_null [OF t, of 1 "[OpPushInt 5, OpEq]" 0] by simp
qed

end
