(* ===== verification/Partition.thy ===== *)
theory Partition
  imports Eval_Vm Heap
begin

text \<open>
  Partitioned tables (\<^verbatim>\<open>storage/partition.go\<close>): routing of a row to a partition by range or by hash, and pruning of the partitions
  that a condition cannot match.

  An interface value is a value of a row, a literal of the parser (the bounds of \<^verbatim>\<open>CREATE TABLE\<close> are stored as parsed), or a
  date. The argument \<open>fmt\<close> is what \<^verbatim>\<open>fmt\<close> prints with \<^verbatim>\<open>%v\<close> for floats, vectors and objects; the other values are printed
  by the model. A date is year, month and day; times of day do not occur.
\<close>

unbundle bit_operations_syntax

section \<open>Dates and printing\<close>

type_synonym date = "nat \<times> nat \<times> nat"

datatype 'j iface = Raw "'j val" | Parsed lit | Time date

definition is_digit :: "u8 \<Rightarrow> bool" where "is_digit b \<longleftrightarrow> 48 \<le> b \<and> b \<le> 57"

definition digits :: "bytes \<Rightarrow> nat" where "digits bs = foldl (\<lambda>n b. 10 * n + (unat b - 48)) 0 bs"

definition days_in :: "nat \<Rightarrow> nat \<Rightarrow> nat" where
  "days_in m y =
     (if m = 2 then (if 4 dvd y \<and> (\<not> 100 dvd y \<or> 400 dvd y) then 29 else 28) else if m \<in> {4, 6, 9, 11} then 30 else 31)"

text \<open>\<^verbatim>\<open>time.Parse("2006-01-02", s)\<close>.\<close>

definition parse_date :: "bytes \<Rightarrow> date option" where
  "parse_date s =
     (if length s = 10 \<and> list_all is_digit (take 4 s @ take 2 (drop 5 s) @ drop 8 s) \<and> s ! 4 = 45 \<and> s ! 7 = 45
      then let y = digits (take 4 s); m = digits (take 2 (drop 5 s)); d = digits (drop 8 s)
           in if 1 \<le> m \<and> m \<le> 12 \<and> 1 \<le> d \<and> d \<le> days_in m y then Some (y, m, d) else None
      else None)"

definition ascii :: "string \<Rightarrow> bytes" where "ascii s = map of_char s"

definition print_nat :: "nat \<Rightarrow> bytes" where "print_nat n = map (\<lambda>d. word_of_nat (48 + d)) (decimal n)"

definition print_int :: "int \<Rightarrow> bytes" where
  "print_int i = (if i < 0 then 45 # print_nat (nat (- i)) else print_nat (nat i))"

definition print_bool :: "bool \<Rightarrow> bytes" where "print_bool b = ascii (if b then ''true'' else ''false'')"

definition print_pad :: "nat \<Rightarrow> nat \<Rightarrow> bytes" where
  "print_pad w n = replicate (w - length (print_nat n)) 48 @ print_nat n"

definition sprint_v :: "('j val \<Rightarrow> bytes) \<Rightarrow> 'j iface \<Rightarrow> bytes" where
  "sprint_v fmt x =
     (case x of
        Raw VNil \<Rightarrow> ascii ''<nil>''
      | Raw (VInt i) \<Rightarrow> print_int (sint i)
      | Raw (VInt64 i) \<Rightarrow> print_int (sint i)
      | Raw (VBool b) \<Rightarrow> print_bool b
      | Raw (VString s) \<Rightarrow> s
      | Raw v \<Rightarrow> fmt v
      | Parsed e \<Rightarrow> ascii ''{'' @ ascii (lit_Type e) @ ascii '' '' @ print_int (sint (IntVal e)) @ ascii '' '' @ fmt (VFloat (FltVal e))
                    @ ascii '' '' @ StrVal e @ ascii '' '' @ print_bool (BoolVal e) @ ascii ''}''
      | Time (y, m, d) \<Rightarrow> print_pad 4 y @ ascii ''-'' @ print_pad 2 m @ ascii ''-'' @ print_pad 2 d @ ascii '' 00:00:00 +0000 UTC'')"

section \<open>Comparable values\<close>

datatype cval = CInt u64 | CFloat f64 | CString bytes | CTime date

definition valueToComparable :: "('j val \<Rightarrow> bytes) \<Rightarrow> 'j iface \<Rightarrow> cval" where
  "valueToComparable fmt v =
     (case v of
        Raw (VString s) \<Rightarrow> (case parse_date s of Some t \<Rightarrow> CTime t | None \<Rightarrow> CString s)
      | Raw (VInt64 i) \<Rightarrow> CInt i
      | Raw (VFloat f) \<Rightarrow> CFloat f
      | Time t \<Rightarrow> CTime t
      | _ \<Rightarrow> CString (sprint_v fmt v))"

text \<open>A comparable value is an interface value again.\<close>

definition iface_of :: "cval \<Rightarrow> 'j iface" where
  "iface_of c = (case c of CInt i \<Rightarrow> Raw (VInt64 i) | CFloat f \<Rightarrow> Raw (VFloat f) | CString s \<Rightarrow> Raw (VString s) | CTime t \<Rightarrow> Time t)"

definition Before :: "date \<Rightarrow> date \<Rightarrow> bool" where
  "Before a b = (case (a, b) of ((y, m, d), (y', m', d')) \<Rightarrow> y < y' \<or> y = y' \<and> (m < m' \<or> m = m' \<and> d < d'))"

text \<open>The order between values of one type; values of unlike types count as equal.\<close>

definition cless :: "cval \<Rightarrow> cval \<Rightarrow> bool" where
  "cless a b =
     (case (a, b) of
        (CInt x, CInt y) \<Rightarrow> sint x < sint y
      | (CFloat x, CFloat y) \<Rightarrow> f64_less x y
      | (CString x, CString y) \<Rightarrow> x < y
      | (CTime x, CTime y) \<Rightarrow> Before x y
      | _ \<Rightarrow> False)"

definition compareValues :: "('j val \<Rightarrow> bytes) \<Rightarrow> 'j iface \<Rightarrow> 'j iface \<Rightarrow> int" where
  "compareValues fmt a b =
     (let av = valueToComparable fmt a; bv = valueToComparable fmt b
      in if cless av bv then - 1 else if cless bv av then 1 else 0)"

section \<open>Routing\<close>

record 'j Partition =
  part_Name :: string
  part_TableName :: string
  part_Bound :: "'j iface option"

record 'j PartitionSpec =
  spec_Type :: string
  spec_Columns :: "string list"
  spec_Partitions :: "(string \<times> 'j iface option) list"
  NumParts :: int

record 'j PartitionedTable =
  Spec :: "'j PartitionSpec"
  pt_Columns :: "string list"
  Partitions :: "'j Partition list"

definition range_parts :: "string \<Rightarrow> (string \<times> 'j iface option) list \<Rightarrow> 'j Partition list" where
  "range_parts table defs =
     map (\<lambda>(name, bound). \<lparr>part_Name = name, part_TableName = table @ ''_'' @ name, part_Bound = bound\<rparr>) defs"

definition part_number :: "nat \<Rightarrow> string" where "part_number i = ''p'' @ map digit_char (decimal i)"

definition hash_parts :: "string \<Rightarrow> int \<Rightarrow> 'j Partition list" where
  "hash_parts table n =
     map (\<lambda>i. \<lparr>part_Name = part_number i, part_TableName = table @ ''_'' @ part_number i, part_Bound = None\<rparr>)
       [0 ..< nat (if n \<le> 0 then 1 else n)]"

definition NewPartitionedTable :: "string \<Rightarrow> string list \<Rightarrow> 'j PartitionSpec option \<Rightarrow> 'j PartitionedTable option" where
  "NewPartitionedTable table cols spec =
     map_option (\<lambda>sp. \<lparr>Spec = sp, pt_Columns = cols, Partitions =
       (if spec_Type sp = ''RANGE'' then range_parts table (spec_Partitions sp)
        else if spec_Type sp = ''HASH'' then hash_parts table (NumParts sp)
        else [])\<rparr>) spec"

fun index_lower :: "string list \<Rightarrow> string \<Rightarrow> nat \<Rightarrow> nat option" where
  "index_lower [] key i = None"
| "index_lower (c # cs) key i = (if ToLower c = key then Some i else index_lower cs key (i + 1))"

definition findKeyColumnIndex :: "'j PartitionedTable \<Rightarrow> nat option" where
  "findKeyColumnIndex pt =
     (case spec_Columns (Spec pt) of [] \<Rightarrow> None | key # _ \<Rightarrow> index_lower (pt_Columns pt) (ToLower key) 0)"

text \<open>The first partition without a bound or with a bound above the value.\<close>

definition first_fit :: "('j val \<Rightarrow> bytes) \<Rightarrow> 'j val \<Rightarrow> 'j Partition \<Rightarrow> bool" where
  "first_fit fmt v p = (case part_Bound p of None \<Rightarrow> True | Some b \<Rightarrow> compareValues fmt (Raw v) b < 0)"

text \<open>The row's key column, with the two errors of the routing functions; the error text reads the first key column.\<close>

definition route_key :: "'j PartitionedTable \<Rightarrow> 'j val list \<Rightarrow> (string + 'j val) option" where
  "route_key pt row =
     (case findKeyColumnIndex pt of
        None \<Rightarrow> if spec_Columns (Spec pt) = [] then None else Some (Inl ''partition key column not found'')
      | Some i \<Rightarrow> if length row \<le> i then Some (Inl ''row has fewer columns than partition key'') else Some (Inr (row ! i)))"

definition findRangePartition :: "('j val \<Rightarrow> bytes) \<Rightarrow> 'j PartitionedTable \<Rightarrow> 'j val list \<Rightarrow> (string + string) option" where
  "findRangePartition fmt pt row =
     map_option (\<lambda>r. sum_bind r (\<lambda>val.
       case find (first_fit fmt val) (Partitions pt) of
         None \<Rightarrow> Inl ''no partition found''
       | Some p \<Rightarrow> Inr (part_TableName p))) (route_key pt row)"

definition fnv32a :: "bytes \<Rightarrow> u32" where
  "fnv32a bs = fold (\<lambda>b h. (h XOR ucast b) * 16777619) bs 2166136261"

text \<open>The partition of a hash; there is none only when the table has no partition, where the remainder panics.\<close>

definition hash_partition :: "bytes \<Rightarrow> 'j Partition list \<Rightarrow> 'j Partition option" where
  "hash_partition bs ps =
     (let n = word_of_nat (length ps) :: u32 in if n = 0 then None else Some (ps ! unat (fnv32a bs mod n)))"

definition findHashPartition :: "('j val \<Rightarrow> bytes) \<Rightarrow> 'j PartitionedTable \<Rightarrow> 'j val list \<Rightarrow> (string + string) option" where
  "findHashPartition fmt pt row =
     Option.bind (route_key pt row) (\<lambda>r. case r of
       Inl e \<Rightarrow> Some (Inl e)
     | Inr val \<Rightarrow> map_option (\<lambda>p. Inr (part_TableName p)) (hash_partition (sprint_v fmt (Raw val)) (Partitions pt)))"

definition InsertRoute :: "('j val \<Rightarrow> bytes) \<Rightarrow> 'j PartitionedTable \<Rightarrow> 'j val list \<Rightarrow> (string + string) option" where
  "InsertRoute fmt pt row =
     (if spec_Type (Spec pt) = ''RANGE'' then findRangePartition fmt pt row
      else if spec_Type (Spec pt) = ''HASH'' then findHashPartition fmt pt row
      else Some (Inl ''unsupported partition type''))"

section \<open>Pruning\<close>

type_synonym comparison = "string \<times> cval"

definition parserValueToRaw :: "lit \<Rightarrow> 'j val" where
  "parserValueToRaw v =
     (if lit_Type v = ''int'' then VInt64 (IntVal v) else if lit_Type v = ''float'' then VFloat (FltVal v)
      else if lit_Type v = ''string'' then VString (StrVal v) else if lit_Type v = ''bool'' then VBool (BoolVal v) else VNil)"

definition literalValue :: "expr \<Rightarrow> 'j val option" where
  "literalValue e = (case e of LitE v \<Rightarrow> Some (parserValueToRaw v) | LitP v \<Rightarrow> Some (parserValueToRaw v) | _ \<Rightarrow> None)"

text \<open>The literal and whether the key column is on the left.\<close>

definition matchKeyColumn :: "'j PartitionedTable \<Rightarrow> expr \<Rightarrow> expr \<Rightarrow> 'j val option \<times> bool" where
  "matchKeyColumn pt l r =
     (case spec_Columns (Spec pt) of
        [] \<Rightarrow> (None, False)
      | key # _ \<Rightarrow>
          let is_key = (\<lambda>e. case e of ColumnRef n \<Rightarrow> ToLower n = ToLower key | _ \<Rightarrow> False)
          in case (is_key l, literalValue r) of
               (True, Some v) \<Rightarrow> (Some v, True)
             | _ \<Rightarrow> (if is_key r then literalValue l else None, False))"

definition checkBinaryComparison :: "('j val \<Rightarrow> bytes) \<Rightarrow> 'j PartitionedTable \<Rightarrow> expr \<Rightarrow> string \<Rightarrow> expr \<Rightarrow> comparison list option" where
  "checkBinaryComparison fmt pt l opr r =
     (case matchKeyColumn pt l r of
        (Some v, True) \<Rightarrow> Some [(opr, valueToComparable fmt (Raw v))]
      | _ \<Rightarrow> None)"

fun extractComparisons :: "('j val \<Rightarrow> bytes) \<Rightarrow> 'j PartitionedTable \<Rightarrow> expr \<Rightarrow> comparison list option" where
  "extractComparisons fmt pt (BinaryExpr l opr r) =
     (if opr \<in> {''='', ''!='', ''<'', ''>'', ''<='', ''>=''} then checkBinaryComparison fmt pt l opr r else None)"
| "extractComparisons fmt pt (AndExpr l r) =
     (case (extractComparisons fmt pt l, extractComparisons fmt pt r) of
        (Some a, Some b) \<Rightarrow> Some (a @ b)
      | _ \<Rightarrow> None)"
| "extractComparisons fmt pt _ = None"

definition rangeOverlapsComp :: "('j val \<Rightarrow> bytes) \<Rightarrow> cval option \<Rightarrow> cval option \<Rightarrow> comparison \<Rightarrow> bool" where
  "rangeOverlapsComp fmt lower upper c =
     (let cmp = (\<lambda>a b. compareValues fmt (iface_of a) (iface_of b)); opr = fst c; val = snd c
      in if opr = ''='' then
           \<not> (case upper of Some u \<Rightarrow> 0 \<le> cmp val u | None \<Rightarrow> False) \<and> \<not> (case lower of Some l \<Rightarrow> cmp val l < 0 | None \<Rightarrow> False)
         else if opr = ''<'' then \<not> (case lower of Some l \<Rightarrow> 0 \<le> cmp l val | None \<Rightarrow> False)
         else if opr = ''<='' then \<not> (case lower of Some l \<Rightarrow> 0 < cmp l val | None \<Rightarrow> False)
         else if opr = ''>'' then \<not> (case upper of Some u \<Rightarrow> cmp u val \<le> 0 | None \<Rightarrow> False)
         else if opr = ''>='' then \<not> (case upper of Some u \<Rightarrow> cmp u val \<le> 0 | None \<Rightarrow> False)
         else True)"

definition applyComparison :: "('j val \<Rightarrow> bytes) \<Rightarrow> cval option list \<Rightarrow> comparison \<Rightarrow> bool list \<Rightarrow> bool list" where
  "applyComparison fmt bounds c cand =
     map (\<lambda>i. cand ! i \<and> rangeOverlapsComp fmt (if 0 < i then bounds ! (i - 1) else None) (bounds ! i) c) [0 ..< length bounds]"

definition pruneRange :: "('j val \<Rightarrow> bytes) \<Rightarrow> 'j PartitionedTable \<Rightarrow> expr \<Rightarrow> 'j Partition list" where
  "pruneRange fmt pt where_expr =
     (case extractComparisons fmt pt where_expr of
        None \<Rightarrow> Partitions pt
      | Some comps \<Rightarrow>
          if comps = [] then Partitions pt
          else let bounds = map (\<lambda>p. map_option (valueToComparable fmt) (part_Bound p)) (Partitions pt);
                   cand = fold (applyComparison fmt bounds) comps (replicate (length (Partitions pt)) True);
                   kept = map fst (filter snd (zip (Partitions pt) cand))
            in if kept = [] then Partitions pt else kept)"

definition pruneHash :: "('j val \<Rightarrow> bytes) \<Rightarrow> 'j PartitionedTable \<Rightarrow> expr \<Rightarrow> 'j Partition list option" where
  "pruneHash fmt pt where_expr =
     (case extractComparisons fmt pt where_expr of
        None \<Rightarrow> Some (Partitions pt)
      | Some comps \<Rightarrow>
          (case find (\<lambda>c. fst c = ''='') comps of
             None \<Rightarrow> Some (Partitions pt)
           | Some c \<Rightarrow> map_option (\<lambda>p. [p]) (hash_partition (sprint_v fmt (iface_of (snd c))) (Partitions pt))))"

definition PrunePartitions :: "('j val \<Rightarrow> bytes) \<Rightarrow> 'j PartitionedTable \<Rightarrow> expr option \<Rightarrow> 'j Partition list option" where
  "PrunePartitions fmt pt where_expr =
     (case where_expr of
        None \<Rightarrow> Some (Partitions pt)
      | Some w \<Rightarrow>
          if spec_Type (Spec pt) = ''RANGE'' then Some (pruneRange fmt pt w)
          else if spec_Type (Spec pt) = ''HASH'' then pruneHash fmt pt w
          else Some (Partitions pt))"

section \<open>Dates in text form\<close>

lemma append_less:
  "length a = length b \<Longrightarrow> a @ x < b @ y \<longleftrightarrow> a < b \<or> a = b \<and> x < (y :: 'a :: order list)"
  by (induction a b rule: list_induct2) auto

lemma digits_snoc: "digits (bs @ [b]) = 10 * digits bs + (unat b - 48)"
  by (simp add: digits_def)

lemma digit_range: "is_digit b \<Longrightarrow> 48 \<le> unat b \<and> unat b \<le> 57"
  by (simp add: is_digit_def word_le_nat_alt)

lemma lex_digit: "b < 10 \<Longrightarrow> d < 10 \<Longrightarrow> 10 * a + b < 10 * c + (d :: nat) \<longleftrightarrow> a < c \<or> a = c \<and> b < d"
  by auto

lemma digits_less:
  "length xs = length ys \<Longrightarrow> list_all is_digit xs \<Longrightarrow> list_all is_digit ys \<Longrightarrow>
   (xs < ys \<longleftrightarrow> digits xs < digits ys) \<and> (xs = ys \<longleftrightarrow> digits xs = digits ys)"
proof (induction xs arbitrary: ys rule: rev_induct)
  case (snoc x xs)
  then obtain y zs where ys: "ys = zs @ [y]" by (cases ys rule: rev_cases) auto
  have d: "48 \<le> unat x \<and> unat x \<le> 57" "48 \<le> unat y \<and> unat y \<le> 57" using snoc.prems ys digit_range [of x] digit_range [of y] by auto
  have ih: "(xs < zs \<longleftrightarrow> digits xs < digits zs) \<and> (xs = zs \<longleftrightarrow> digits xs = digits zs)"
    using snoc ys by simp
  have xy: "x < y \<longleftrightarrow> unat x - 48 < unat y - 48" "x = y \<longleftrightarrow> unat x - 48 = unat y - 48"
    using d by (auto simp: word_less_nat_alt word_unat_eq_iff)
  have e: "10 * digits xs + (unat x - 48) = 10 * digits zs + (unat y - 48) \<longleftrightarrow> digits xs = digits zs \<and> unat x - 48 = unat y - 48"
    using d by presburger
  have l: "10 * digits xs + (unat x - 48) < 10 * digits zs + (unat y - 48)
      \<longleftrightarrow> digits xs < digits zs \<or> digits xs = digits zs \<and> unat x - 48 < unat y - 48"
    using d by (intro lex_digit) auto
  have "xs @ [x] < zs @ [y] \<longleftrightarrow> xs < zs \<or> xs = zs \<and> x < y" using snoc.prems(1) ys by (simp add: append_less)
  moreover have "xs @ [x] = zs @ [y] \<longleftrightarrow> xs = zs \<and> x = y" by simp
  ultimately show ?case unfolding ys digits_snoc using ih xy e l by blast
qed (simp add: digits_def)

lemma parse_date_Some:
  assumes "parse_date s = Some (y, m, d)"
  obtains a b c where "s = a @ [45] @ b @ [45] @ c" "length a = 4" "length b = 2" "length c = 2" "list_all is_digit a"
    "list_all is_digit b" "list_all is_digit c" "y = digits a" "m = digits b" "d = digits c"
proof -
  have l: "length s = 10" "s ! 4 = 45" "s ! 7 = 45" "list_all is_digit (take 4 s @ take 2 (drop 5 s) @ drop 8 s)"
    and v: "y = digits (take 4 s)" "m = digits (take 2 (drop 5 s))" "d = digits (drop 8 s)"
    using assms by (auto simp: parse_date_def Let_def split: if_splits)
  have "s = take 4 s @ s ! 4 # drop 5 s" using id_take_nth_drop [of 4 s] l(1) by simp
  moreover have "drop 5 s = take 2 (drop 5 s) @ s ! 7 # drop 8 s" using id_take_nth_drop [of 2 "drop 5 s"] l(1) by simp
  ultimately have "s = take 4 s @ [45] @ take 2 (drop 5 s) @ [45] @ drop 8 s" using l(2,3) by simp
  then show thesis using that [of "take 4 s" "take 2 (drop 5 s)" "drop 8 s"] l v by simp
qed

text \<open>Texts of dates are ordered like the dates.\<close>

lemma date_order:
  assumes "parse_date s = Some a" "parse_date t = Some b"
  shows "s < t \<longleftrightarrow> Before a b" "s = t \<longleftrightarrow> a = b"
proof -
  obtain y m d y' m' d' where ab: "a = (y, m, d)" "b = (y', m', d')" by (metis prod.collapse)
  obtain p q r where s: "s = p @ [45] @ q @ [45] @ r" "length p = 4" "length q = 2" "length r = 2" "list_all is_digit p"
    "list_all is_digit q" "list_all is_digit r" "y = digits p" "m = digits q" "d = digits r"
    using assms(1) unfolding ab by (rule parse_date_Some)
  obtain p' q' r' where t: "t = p' @ [45] @ q' @ [45] @ r'" "length p' = 4" "length q' = 2" "length r' = 2" "list_all is_digit p'"
    "list_all is_digit q'" "list_all is_digit r'" "y' = digits p'" "m' = digits q'" "d' = digits r'"
    using assms(2) unfolding ab by (rule parse_date_Some)
  note dl = digits_less [of p p'] digits_less [of q q'] digits_less [of r r']
  show "s < t \<longleftrightarrow> Before a b" using dl s(2-) t(2-) by (simp add: s(1) t(1) append_less ab Before_def)
  show "s = t \<longleftrightarrow> a = b" using dl s(2-) t(2-) by (simp add: s(1) t(1) ab)
qed

section \<open>The order of comparable values\<close>

text \<open>The kind of a value; NaN has none.\<close>

definition kind :: "cval \<Rightarrow> nat option" where
  "kind c = (case c of CInt i \<Rightarrow> Some 0 | CFloat f \<Rightarrow> if f64_nan f then None else Some 1 | CString s \<Rightarrow> Some 2 | CTime t \<Rightarrow> Some 3)"

lemma cless_asym: "cless a b \<Longrightarrow> \<not> cless b a"
  by (cases a; cases b) (auto simp: cless_def f64_less_def Before_def split: prod.splits)

text \<open>Values of one kind are ordered up to equality, like \<open>0.0\<close> and \<open>-0.0\<close>.\<close>

lemma cless_neg_trans:
  "kind a = Some k \<Longrightarrow> kind b = Some k \<Longrightarrow> kind c = Some k \<Longrightarrow> \<not> cless a b \<Longrightarrow> \<not> cless b c \<Longrightarrow> \<not> cless a c"
  by (cases a; cases b; cases c) (auto simp: kind_def cless_def f64_less_def Before_def split: if_splits prod.splits)

section \<open>Pruning keeps the partition of a matching row\<close>

text \<open>A value that a second conversion leaves alone.\<close>

definition canon :: "cval \<Rightarrow> bool" where
  "canon c = (case c of CString s \<Rightarrow> parse_date s = None | _ \<Rightarrow> True)"

lemma valueToComparable_iface_of: "canon c \<Longrightarrow> valueToComparable fmt (iface_of c) = c"
  by (cases c) (simp_all add: canon_def iface_of_def valueToComparable_def)

definition comp_holds :: "comparison \<Rightarrow> cval \<Rightarrow> bool" where
  "comp_holds c v =
     (if fst c = ''='' then \<not> cless v (snd c) \<and> \<not> cless (snd c) v
      else if fst c = ''<'' then cless v (snd c) else if fst c = ''<='' then \<not> cless (snd c) v
      else if fst c = ''>'' then cless (snd c) v else if fst c = ''>='' then \<not> cless v (snd c)
      else True)"

lemma compare_iface_of:
  "canon a \<Longrightarrow> canon b \<Longrightarrow> compareValues fmt (iface_of a) (iface_of b) = (if cless a b then - 1 else if cless b a then 1 else 0)"
  by (simp add: compareValues_def valueToComparable_iface_of)

text \<open>The range of the value's partition overlaps every comparison that holds of the value.\<close>

lemma overlaps_value:
  assumes v: "kind v = Some k" and c: "kind (snd c) = Some k" "canon (snd c)" "comp_holds c v"
    and l: "\<And>l. lower = Some l \<Longrightarrow> kind l = Some k \<and> canon l \<and> \<not> cless v l"
    and u: "\<And>u. upper = Some u \<Longrightarrow> kind u = Some k \<and> canon u \<and> cless v u"
  shows "rangeOverlapsComp fmt lower upper c"
proof -
  have nt: "\<not> cless x z" if "\<not> cless x y" "\<not> cless y z" "kind x = Some k" "kind y = Some k" "kind z = Some k" for x y z
    using cless_neg_trans that by blast
  have lo: "\<not> cless (snd c) l" if "lower = Some l" "\<not> cless (snd c) v" for l using nt [of "snd c" v l] l [OF that(1)] that v c by blast
  have lo': "cless l (snd c)" if "lower = Some l" "cless v (snd c)" for l using nt [of v l "snd c"] l [OF that(1)] that v c by blast
  have up: "cless (snd c) u" if "upper = Some u" "\<not> cless v (snd c)" for u using nt [of v "snd c" u] u [OF that(1)] that v c by blast
  show ?thesis
    using c lo lo' up l u cless_asym
    by (auto simp: rangeOverlapsComp_def Let_def comp_holds_def compare_iface_of split: option.splits if_splits)
qed

lemma applyComparison_nth:
  "i < length bounds \<Longrightarrow>
   applyComparison fmt bounds c cand ! i \<longleftrightarrow> cand ! i \<and> rangeOverlapsComp fmt (if 0 < i then bounds ! (i - 1) else None) (bounds ! i) c"
  by (simp add: applyComparison_def)

lemma length_applyComparison [simp]: "length (applyComparison fmt bounds c cand) = length bounds"
  by (simp add: applyComparison_def)

lemma fold_applyComparison:
  "i < length bounds \<Longrightarrow> length cand = length bounds \<Longrightarrow>
   length (fold (applyComparison fmt bounds) comps cand) = length bounds \<and>
   (fold (applyComparison fmt bounds) comps cand ! i \<longleftrightarrow>
      cand ! i \<and> (\<forall>c \<in> set comps. rangeOverlapsComp fmt (if 0 < i then bounds ! (i - 1) else None) (bounds ! i) c))"
  by (induction comps arbitrary: cand) (auto simp: applyComparison_nth)

lemma kept_partition:
  assumes "i < length ps" "length cand = length ps" "cand ! i"
  shows "ps ! i \<in> set (map fst (filter snd (zip ps cand)))"
proof -
  have "(ps ! i, True) \<in> set (zip ps cand)" using assms by (auto simp: set_zip)
  then show ?thesis by force
qed

lemma pruneRange_keeps:
  assumes f: "find (first_fit fmt x) (Partitions pt) = Some p"
    and v: "valueToComparable fmt (Raw x) = v" "kind v = Some k" "canon v"
    and b: "\<And>q b. q \<in> set (Partitions pt) \<Longrightarrow> part_Bound q = Some b \<Longrightarrow>
      kind (valueToComparable fmt b) = Some k \<and> canon (valueToComparable fmt b)"
    and c: "\<And>comps c. extractComparisons fmt pt w = Some comps \<Longrightarrow> c \<in> set comps \<Longrightarrow>
      kind (snd c) = Some k \<and> canon (snd c) \<and> comp_holds c v"
  shows "p \<in> set (pruneRange fmt pt w)"
proof -
  let ?ps = "Partitions pt"
  let ?bs = "map (\<lambda>p. map_option (valueToComparable fmt) (part_Bound p)) ?ps"
  obtain i where i: "i < length ?ps" "p = ?ps ! i" "first_fit fmt x (?ps ! i)" "\<And>j. j < i \<Longrightarrow> \<not> first_fit fmt x (?ps ! j)"
    using f by (auto simp: find_Some_iff)
  have lower: "kind l = Some k \<and> canon l \<and> \<not> cless v l" if "(if 0 < i then ?bs ! (i - 1) else None) = Some l" for l
    using that i(1) b [of "?ps ! (i - 1)"] i(4) [of "i - 1"] v
    by (auto simp: first_fit_def compareValues_def Let_def split: if_splits option.splits)
  have upper: "kind u = Some k \<and> canon u \<and> cless v u" if "?bs ! i = Some u" for u
    using that i b [of "?ps ! i"] v by (auto simp: first_fit_def compareValues_def Let_def split: if_splits)
  show ?thesis
  proof (cases "extractComparisons fmt pt w")
    case None
    then show ?thesis using i by (simp add: pruneRange_def)
  next
    case (Some comps)
    let ?m = "fold (applyComparison fmt ?bs) comps (replicate (length ?ps) True)"
    have "rangeOverlapsComp fmt (if 0 < i then ?bs ! (i - 1) else None) (?bs ! i) cc" if "cc \<in> set comps" for cc
      using c [OF Some that] v(2) by (intro overlaps_value [OF v(2)] lower upper) auto
    then have "length ?m = length ?ps" "?m ! i"
      using fold_applyComparison [of i ?bs "replicate (length ?ps) True" fmt comps] i(1) by simp_all
    then have "?ps ! i \<in> set (map fst (filter snd (zip ?ps ?m)))" using i(1) by (intro kept_partition)
    then show ?thesis using Some i(1,2) by (auto simp: pruneRange_def Let_def)
  qed
qed

text \<open>The types of literals are written in lower case, as the parser does.\<close>

fun lits_lower :: "expr \<Rightarrow> bool" where
  "lits_lower (LitE e) \<longleftrightarrow> ToLower (lit_Type e) = lit_Type e"
| "lits_lower (LitP e) \<longleftrightarrow> ToLower (lit_Type e) = lit_Type e"
| "lits_lower (BinaryExpr l opr r) \<longleftrightarrow> lits_lower l \<and> lits_lower r"
| "lits_lower (AndExpr l r) \<longleftrightarrow> lits_lower l \<and> lits_lower r"
| "lits_lower (OrExpr l r) \<longleftrightarrow> lits_lower l \<and> lits_lower r"
| "lits_lower (NotExpr e) \<longleftrightarrow> lits_lower e"
| "lits_lower _ \<longleftrightarrow> True"

text \<open>A key that can be partitioned by range: a number or a text.\<close>

fun key_value :: "'j val \<Rightarrow> bool" where
  "key_value (VInt64 i) = True"
| "key_value (VFloat f) = True"
| "key_value (VString s) = True"
| "key_value _ = False"

text \<open>What the machine compares and what pruning compares is the same.\<close>

lemma compare_holds_int:
  "opr \<in> {''='', ''!='', ''<'', ''>'', ''<='', ''>=''} \<Longrightarrow> cmp_int (projr (binary_op opr)) i j \<Longrightarrow> comp_holds (opr, CInt j) (CInt i)"
  by (auto simp: binary_op_def cmp_int_def cmp_with_def comp_holds_def cless_def)

lemma compare_holds_float:
  "opr \<in> {''='', ''!='', ''<'', ''>'', ''<='', ''>=''} \<Longrightarrow> cmp_float (projr (binary_op opr)) i j \<Longrightarrow> comp_holds (opr, CFloat j) (CFloat i)"
  by (auto simp: binary_op_def cmp_float_def cmp_with_def comp_holds_def cless_def f64_less_def f64_eq_def f64_le_def)

lemma compare_holds_string:
  "opr \<in> {''='', ''!='', ''<'', ''>'', ''<='', ''>=''} \<Longrightarrow> cmp_string (projr (binary_op opr)) s t \<Longrightarrow> comp_holds (opr, CString t) (CString s)"
  by (auto simp: binary_op_def cmp_string_def cmp_with_def comp_holds_def cless_def)

lemma compare_holds_date:
  assumes "opr \<in> {''='', ''!='', ''<'', ''>'', ''<='', ''>=''}" "cmp_string (projr (binary_op opr)) s t"
    "parse_date s = Some a" "parse_date t = Some b"
  shows "comp_holds (opr, CTime b) (CTime a)"
  using assms(1,2) date_order [OF assms(3,4)] date_order [OF assms(4,3)]
  by (auto simp: binary_op_def cmp_string_def cmp_with_def comp_holds_def cless_def)

lemma compare_other_holds:
  "opr \<in> {''='', ''!='', ''<'', ''>'', ''<='', ''>=''} \<Longrightarrow> cmp_other (projr (binary_op opr)) = Inr (ValBool True) \<Longrightarrow> comp_holds (opr, c) v"
  by (auto simp: binary_op_def cmp_other_def comp_holds_def)

lemma ToLower_types: "ToLower ''int'' = ''int''" "ToLower ''float'' = ''float''" "ToLower ''string'' = ''string''" "ToLower ''bool'' = ''bool''"
  by code_simp+

text \<open>One comparison of the key with a literal.\<close>

lemma literal_holds:
  assumes opr: "opr \<in> {''='', ''!='', ''<'', ''>'', ''<='', ''>=''}" and low: "ToLower (lit_Type e) = lit_Type e"
    and key: "key_value x" "load_row [x] 0 = Inr xv" and lv: "lit_value e = Inr yv"
    and ev: "vm_compare (projr (binary_op opr)) xv yv = Inr (ValBool True)"
    and k: "kind (valueToComparable fmt (Raw (parserValueToRaw e))) = kind (valueToComparable fmt (Raw x))"
  shows "comp_holds (opr, valueToComparable fmt (Raw (parserValueToRaw e))) (valueToComparable fmt (Raw x))"
proof -
  note h = compare_holds_int [OF opr] compare_holds_float [OF opr] compare_holds_string [OF opr] compare_holds_date [OF opr] compare_other_holds [OF opr]
  consider "lit_Type e = ''int''" | "lit_Type e = ''float''" | "lit_Type e = ''string''" | "lit_Type e = ''bool''"
    using lv low by (auto simp: lit_value_def Let_def split: if_splits)
  then show ?thesis
    using key ev lv low k h
    by cases (cases x; auto simp: lit_value_def ToLower_types load_row_def parserValueToRaw_def valueToComparable_def vm_compare_def kind_def
          split: option.splits if_splits)+
qed

lemma find_column_index: "find_column cols name i = index_lower cols (ToLower name) i"
  by (induction cols arbitrary: i) (simp_all add: EqualFold_def)

lemma index_lower_less: "index_lower cols key j = Some i \<Longrightarrow> i < j + length cols"
  by (induction cols arbitrary: j) (fastforce split: if_splits)+

text \<open>A comparison that is extracted compares the key column with a literal.\<close>

lemma checkBinaryComparison_Some:
  assumes "checkBinaryComparison fmt pt l opr r = Some comps" "findKeyColumnIndex pt = Some k"
  obtains n e where "l = ColumnRef n" "r = LitE e \<or> r = LitP e" "find_column (pt_Columns pt) n 0 = Some k"
    "comps = [(opr, valueToComparable fmt (Raw (parserValueToRaw e)))]"
  using assms
  by (auto simp: checkBinaryComparison_def matchKeyColumn_def literalValue_def findKeyColumnIndex_def find_column_index Let_def
      split: option.splits list.splits expr.splits if_splits bool.splits)

lemma where_holds:
  assumes key: "findKeyColumnIndex pt = Some k" "k < length row" "key_value (row ! k)"
  shows "extractComparisons fmt pt w = Some comps \<Longrightarrow> lits_lower w \<Longrightarrow> eval_expr (pt_Columns pt) (load_row row) w = Inr (ValBool True) \<Longrightarrow>
    \<forall>c \<in> set comps. kind (snd c) = kind (valueToComparable fmt (Raw (row ! k))) \<Longrightarrow>
    \<forall>c \<in> set comps. comp_holds c (valueToComparable fmt (Raw (row ! k)))"
proof (induction w arbitrary: comps)
  case (BinaryExpr l opr r)
  have op: "opr \<in> {''='', ''!='', ''<'', ''>'', ''<='', ''>=''}" using BinaryExpr.prems(1) by (auto split: if_splits)
  obtain n e where c: "l = ColumnRef n" "r = LitE e \<or> r = LitP e" "find_column (pt_Columns pt) n 0 = Some k"
    "comps = [(opr, valueToComparable fmt (Raw (parserValueToRaw e)))]"
    using BinaryExpr.prems(1) key(1) op by (auto elim: checkBinaryComparison_Some)
  have ld: "load_row row (int k) = load_row [row ! k] 0" using key(2) by (simp add: load_row_def)
  obtain xv yv where "load_row [row ! k] 0 = Inr xv" "lit_value e = Inr yv" "vm_compare (projr (binary_op opr)) xv yv = Inr (ValBool True)"
    using BinaryExpr.prems(3) c(1-3) op ld
    by (cases "load_row [row ! k] 0"; cases "lit_value e") (auto split: if_splits)
  moreover have "ToLower (lit_Type e) = lit_Type e" using BinaryExpr.prems(2) c(2) by auto
  ultimately show ?case using literal_holds [OF op _ key(3)] BinaryExpr.prems(4) c(4) by simp
next
  case (AndExpr l r)
  obtain a b where ab: "extractComparisons fmt pt l = Some a" "extractComparisons fmt pt r = Some b" "comps = a @ b"
    using AndExpr.prems(1) by (auto split: option.splits)
  obtain x y where "eval_expr (pt_Columns pt) (load_row row) l = Inr x" "eval_expr (pt_Columns pt) (load_row row) r = Inr y"
    "vm_logic OpAnd x y = Inr (ValBool True)"
    using AndExpr.prems(3) by (cases "eval_expr (pt_Columns pt) (load_row row) l"; cases "eval_expr (pt_Columns pt) (load_row row) r") auto
  then have "eval_expr (pt_Columns pt) (load_row row) l = Inr (ValBool True)" "eval_expr (pt_Columns pt) (load_row row) r = Inr (ValBool True)"
    by (auto simp: vm_logic_def split: Value.splits)
  then show ?case using AndExpr.IH(1) [OF ab(1)] AndExpr.IH(2) [OF ab(2)] AndExpr.prems(2,4) ab(3) by auto
qed simp_all

lemma canon_literal: "canon (valueToComparable fmt (Raw (parserValueToRaw e)))"
  by (auto simp: canon_def valueToComparable_def parserValueToRaw_def sprint_v_def print_bool_def ascii_def parse_date_def split: option.splits)

lemma canon_key: "key_value x \<Longrightarrow> canon (valueToComparable fmt (Raw x))"
  by (cases x) (auto simp: canon_def valueToComparable_def split: option.splits)

lemma extracted_canon: "extractComparisons fmt pt w = Some comps \<Longrightarrow> findKeyColumnIndex pt = Some k \<Longrightarrow> c \<in> set comps \<Longrightarrow> canon (snd c)"
proof (induction w arbitrary: comps)
  case (BinaryExpr l opr r)
  then show ?case by (auto elim!: checkBinaryComparison_Some simp: canon_literal split: if_splits)
next
  case (AndExpr l r)
  then show ?case by (auto split: option.splits)
qed simp_all

text \<open>
  C6: Pruning never loses a row. Let the key of a row, the range bounds and the literals it is compared with be of one kind (integers,
  floats that are not NaN, plain texts or dates as text). If the condition accepts the row, then the partition into which the row was
  routed is among the partitions that are left.
\<close>

theorem PrunePartitions_sound:
  assumes "spec_Type (Spec pt) = ''RANGE''" and "InsertRoute fmt pt row = Some (Inr name)"
    and "findKeyColumnIndex pt = Some k" and "key_value (row ! k)" and "kind (valueToComparable fmt (Raw (row ! k))) = Some kd"
    and "\<forall>p \<in> set (Partitions pt). \<forall>b. part_Bound p = Some b \<longrightarrow> (\<exists>y. b = Raw y \<and> key_value y \<and> kind (valueToComparable fmt b) = Some kd)"
    and "lits_lower w" and "\<forall>comps. extractComparisons fmt pt w = Some comps \<longrightarrow> (\<forall>c \<in> set comps. kind (snd c) = Some kd)"
    and "eval_expr (pt_Columns pt) (load_row row) w = Inr (ValBool True)"
  shows "\<exists>ps p. PrunePartitions fmt pt (Some w) = Some ps \<and> p \<in> set ps \<and> part_TableName p = name"
proof -
  have k: "k < length row" using assms(1-3) by (auto simp: InsertRoute_def findRangePartition_def route_key_def split: if_splits)
  then obtain p where p: "find (first_fit fmt (row ! k)) (Partitions pt) = Some p" "part_TableName p = name"
    using assms(1-3) by (auto simp: InsertRoute_def findRangePartition_def route_key_def split: option.splits)
  have "p \<in> set (pruneRange fmt pt w)"
  proof (rule pruneRange_keeps [OF p(1) refl assms(5) canon_key [OF assms(4)]])
    show "kind (valueToComparable fmt b) = Some kd \<and> canon (valueToComparable fmt b)"
      if "q \<in> set (Partitions pt)" "part_Bound q = Some b" for q b
      using assms(6) that canon_key by blast
    show "kind (snd c) = Some kd \<and> canon (snd c) \<and> comp_holds c (valueToComparable fmt (Raw (row ! k)))"
      if "extractComparisons fmt pt w = Some comps" "c \<in> set comps" for comps c
      using where_holds [OF assms(3) k assms(4) that(1) assms(7,9)] extracted_canon [OF that(1) assms(3) that(2)] assms(5,8) that by simp
  qed
  then show ?thesis using p(2) assms(1) by (auto simp: PrunePartitions_def)
qed

definition no_fmt :: "unit val \<Rightarrow> bytes" where "no_fmt v = []"

definition demo_spec :: "unit PartitionSpec" where
  "demo_spec = \<lparr>spec_Type = ''RANGE'', spec_Columns = [''ID''],
     spec_Partitions = [(''p0'', Some (Raw (VInt64 10))), (''p1'', Some (Raw (VInt64 20))), (''p2'', None)], NumParts = 0\<rparr>"

definition demo_pt :: "unit PartitionedTable" where
  "demo_pt = the (NewPartitionedTable ''t'' [''name'', ''id''] (Some demo_spec))"

definition demo_where :: expr where
  "demo_where = AndExpr (BinaryExpr (ColumnRef ''id'') ''>='' (int_lit 12)) (BinaryExpr (ColumnRef ''id'') ''<'' (int_lit 15))"

lemma ToLower_names: "ToLower ''ID'' = ''id''" "ToLower ''id'' = ''id''" "ToLower ''name'' = ''name''" "ToLower ''day'' = ''day''"
  by code_simp+

lemmas demo_pt_simps = demo_pt_def demo_spec_def NewPartitionedTable_def range_parts_def findKeyColumnIndex_def ToLower_names
  InsertRoute_def findRangePartition_def route_key_def first_fit_def compareValues_def valueToComparable_def cless_def kind_def
  extractComparisons.simps checkBinaryComparison_def matchKeyColumn_def literalValue_def parserValueToRaw_def
  PrunePartitions_def pruneRange_def applyComparison_def rangeOverlapsComp_def iface_of_def Let_def int_lit_def

lemmas demo_where_simps = demo_where_def lit_value_def binary_op_def vm_compare_def cmp_int_def cmp_with_def vm_logic_def
  load_row_def find_column.simps EqualFold_def ToLower_types ToLower_names Let_def int_lit_def

theorem PrunePartitions_sound_witness:
  "\<exists>ps p. PrunePartitions no_fmt demo_pt (Some demo_where) = Some ps \<and> p \<in> set ps \<and> part_TableName p = ''t_p1''"
proof (rule PrunePartitions_sound [where row = "[VNil, VInt64 13]" and k = 1 and kd = 0])
  show "InsertRoute no_fmt demo_pt [VNil, VInt64 13] = Some (Inr ''t_p1'')" by (simp add: demo_pt_simps)
  show "eval_expr (pt_Columns demo_pt) (load_row [VNil, VInt64 13]) demo_where = Inr (ValBool True)"
    by (simp add: demo_pt_def demo_spec_def NewPartitionedTable_def demo_where_simps)
  show "lits_lower demo_where" by (simp add: demo_where_simps)
qed (simp_all add: demo_pt_simps demo_where_def)

text \<open>
  C1: Pruning loses rows when the literal has another type than the bounds. Integer and float count as equal in
  \<open>compareValues\<close>, so the condition \<open>id = 5.0\<close>, which holds for the row with \<open>id = 5\<close> of the first partition, leaves only the
  partition without a bound.
\<close>

definition float_where :: expr where
  "float_where = BinaryExpr (ColumnRef ''id'') ''='' (LitE \<lparr>lit_Type = ''float'', IntVal = 0, FltVal = 0x4014000000000000, StrVal = [], BoolVal = False\<rparr>)"

theorem float_literal_loses_rows:
  "InsertRoute no_fmt demo_pt [VNil, VInt64 5] = Some (Inr ''t_p0'')
   \<and> eval_expr (pt_Columns demo_pt) (load_row [VNil, VInt64 5 :: unit val]) float_where = Inr (ValBool True)
   \<and> map_option (map part_TableName) (PrunePartitions no_fmt demo_pt (Some float_where)) = Some [''t_p2'']"
proof (intro conjI)
  show "InsertRoute no_fmt demo_pt [VNil, VInt64 5] = Some (Inr ''t_p0'')" by (simp add: demo_pt_simps)
  have "f64_of_int64 5 = 0x4014000000000000" by (simp add: f64_defs) (simp add: f64_round_defs)
  then show "eval_expr (pt_Columns demo_pt) (load_row [VNil, VInt64 5 :: unit val]) float_where = Inr (ValBool True)"
    by (simp add: float_where_def demo_pt_def demo_spec_def NewPartitionedTable_def demo_where_simps cmp_float_def f64_eq_def f64_nan_def
        f64_exp_def f64_frac_def)
  show "map_option (map part_TableName) (PrunePartitions no_fmt demo_pt (Some float_where)) = Some [''t_p2'']"
    by (simp add: float_where_def demo_pt_simps)
qed

text \<open>
  Range bounds given in SQL never match. The bounds of \<open>CREATE TABLE\<close> are stored as literals of the parser, which the
  comparison does not unwrap: a row with a whole number as its key always goes to the first partition without a bound, and is rejected when there
  is none, whatever the bounds are.
\<close>

theorem parsed_bounds_never_match:
  assumes "spec_Type (Spec pt) = ''RANGE''" and "findKeyColumnIndex pt = Some k" and "k < length row" and "row ! k = VInt64 i"
    and "\<forall>p \<in> set (Partitions pt). \<forall>b. part_Bound p = Some b \<longrightarrow> (\<exists>e. b = Parsed e)"
  shows "InsertRoute fmt pt row =
    Some (case find (\<lambda>p. part_Bound p = None) (Partitions pt) of
            None \<Rightarrow> Inl ''no partition found''
          | Some p \<Rightarrow> Inr (part_TableName p))"
proof -
  have "first_fit fmt (VInt64 i) p \<longleftrightarrow> part_Bound p = None" if "p \<in> set (Partitions pt)" for p
    using assms(5) that by (fastforce simp: first_fit_def compareValues_def valueToComparable_def cless_def split: option.splits)
  then have "find (first_fit fmt (VInt64 i)) (Partitions pt) = find (\<lambda>p. part_Bound p = None) (Partitions pt)"
    by (intro find_cong) auto
  then show ?thesis using assms(1-4) by (simp add: InsertRoute_def findRangePartition_def route_key_def)
qed

definition sql_pt :: "unit PartitionedTable" where
  "sql_pt = the (NewPartitionedTable ''t'' [''id''] (Some \<lparr>spec_Type = ''RANGE'', spec_Columns = [''id''],
     spec_Partitions = [(''p0'', Some (Parsed \<lparr>lit_Type = ''int'', IntVal = 10, FltVal = 0, StrVal = [], BoolVal = False\<rparr>))], NumParts = 0\<rparr>))"

theorem parsed_bounds_never_match_witness: "InsertRoute no_fmt sql_pt [VInt64 5] = Some (Inl ''no partition found'')"
  using parsed_bounds_never_match [of sql_pt 0 "[VInt64 5]" 5 no_fmt]
  by (simp add: sql_pt_def NewPartitionedTable_def range_parts_def findKeyColumnIndex_def ToLower_names)

text \<open>
  C1: Hash pruning loses rows with dates. The hash of the key is taken of its text, that of the literal of the date it is
  converted to; the row with the date goes to one partition and the search for it looks in another one.
\<close>

definition day_pt :: "unit PartitionedTable" where
  "day_pt = the (NewPartitionedTable ''t'' [''day''] (Some \<lparr>spec_Type = ''HASH'', spec_Columns = [''day''], spec_Partitions = [], NumParts = 4\<rparr>))"

definition day_where :: expr where
  "day_where = BinaryExpr (ColumnRef ''day'') ''='' (LitE \<lparr>lit_Type = ''string'', IntVal = 0, FltVal = 0, StrVal = ascii ''2024-01-01'', BoolVal = False\<rparr>)"

theorem hash_pruning_loses_dates:
  "eval_expr (pt_Columns day_pt) (load_row [VString (ascii ''2024-01-01'') :: unit val]) day_where = Inr (ValBool True)
   \<and> InsertRoute no_fmt day_pt [VString (ascii ''2024-01-01'')] = Some (Inr ''t_p1'')
   \<and> map_option (map part_TableName) (PrunePartitions no_fmt day_pt (Some day_where)) = Some [''t_p0'']"
  by (intro conjI; code_simp)

end
