(* ===== verification/Bitmap.thy ===== *)
theory Bitmap
  imports Vdb_Prelude "HOL-Library.AList"
begin

text \<open>
  The in-memory bitmap of \<^verbatim>\<open>storage/bitmap.go\<close>: row positions grouped by page, with intersection and union.

  The Go map from pages to slots is an association list with distinct keys; its order stands for the order in which the
  map is iterated, and all results hold for every order.
\<close>

record RowPosition =
  pos_PageID :: u64
  pos_Slot :: u16

record PageBitmap =
  Pages :: "(u64 \<times> u16 list) list"

definition NewPageBitmap :: PageBitmap where
  "NewPageBitmap = \<lparr>Pages = []\<rparr>"

text \<open>The loop of \<^verbatim>\<open>sort.Search\<close>.\<close>

function sort_search :: "(nat \<Rightarrow> bool) \<Rightarrow> nat \<Rightarrow> nat \<Rightarrow> nat" where
  "sort_search f i j =
     (if i < j then let h = (i + j) div 2 in if f h then sort_search f i h else sort_search f (h + 1) j
      else i)"
  by auto
termination by (relation "measure (\<lambda>(f, i, j). j - i)") auto

definition Add :: "u64 \<Rightarrow> u16 \<Rightarrow> PageBitmap \<Rightarrow> PageBitmap" where
  "Add pageID slot b =
     (case map_of (Pages b) pageID of
        None \<Rightarrow> b\<lparr>Pages := AList.update pageID [slot] (Pages b)\<rparr>
      | Some slots \<Rightarrow>
          let idx = sort_search (\<lambda>i. slot \<le> slots ! i) 0 (length slots)
          in if idx < length slots \<and> slots ! idx = slot then b
             else b\<lparr>Pages := AList.update pageID (take idx slots @ slot # drop idx slots) (Pages b)\<rparr>)"

fun and_slots :: "u16 list \<Rightarrow> u16 list \<Rightarrow> u16 list" where
  "and_slots (x # xs) (y # ys) =
     (if x = y then x # and_slots xs ys else if x < y then and_slots xs (y # ys) else and_slots (x # xs) ys)"
| "and_slots _ _ = []"

fun or_slots :: "u16 list \<Rightarrow> u16 list \<Rightarrow> u16 list" where
  "or_slots (x # xs) (y # ys) =
     (if x = y then x # or_slots xs ys else if x < y then x # or_slots xs (y # ys) else y # or_slots (x # xs) ys)"
| "or_slots [] ys = ys"
| "or_slots xs [] = xs"

definition and_page :: "PageBitmap \<Rightarrow> u64 \<times> u16 list \<Rightarrow> PageBitmap \<Rightarrow> PageBitmap" where
  "and_page other p result =
     (case map_of (Pages other) (fst p) of
        None \<Rightarrow> result
      | Some slots2 \<Rightarrow>
          let common = and_slots (snd p) slots2
          in if common = [] then result else result\<lparr>Pages := AList.update (fst p) common (Pages result)\<rparr>)"

definition And :: "PageBitmap \<Rightarrow> PageBitmap \<Rightarrow> PageBitmap" where
  "And b other = fold (and_page other) (Pages b) NewPageBitmap"

definition or_page :: "u64 \<times> u16 list \<Rightarrow> PageBitmap \<Rightarrow> PageBitmap" where
  "or_page p result =
     (case map_of (Pages result) (fst p) of
        None \<Rightarrow> result\<lparr>Pages := AList.update (fst p) (snd p) (Pages result)\<rparr>
      | Some slots1 \<Rightarrow> result\<lparr>Pages := AList.update (fst p) (or_slots slots1 (snd p)) (Pages result)\<rparr>)"

definition Or :: "PageBitmap \<Rightarrow> PageBitmap \<Rightarrow> PageBitmap" where
  "Or b other =
     fold or_page (Pages other)
       (fold (\<lambda>p result. result\<lparr>Pages := AList.update (fst p) (snd p) (Pages result)\<rparr>) (Pages b) NewPageBitmap)"

definition ToPositions :: "PageBitmap \<Rightarrow> RowPosition list" where
  "ToPositions b =
     concat (map (\<lambda>pageID. map (\<lambda>slot. \<lparr>pos_PageID = pageID, pos_Slot = slot\<rparr>) (the (map_of (Pages b) pageID)))
       (sort (map fst (Pages b))))"

section \<open>The set of positions\<close>

definition bitmap_wf :: "PageBitmap \<Rightarrow> bool" where
  "bitmap_wf b \<longleftrightarrow> distinct (map fst (Pages b)) \<and> (\<forall>(p, slots) \<in> set (Pages b). sorted_wrt (<) slots)"

definition slots_of :: "PageBitmap \<Rightarrow> u64 \<Rightarrow> u16 set" where
  "slots_of b p = (case map_of (Pages b) p of None \<Rightarrow> {} | Some slots \<Rightarrow> set slots)"

definition positions :: "PageBitmap \<Rightarrow> (u64 \<times> u16) set" where
  "positions b = {(p, s). s \<in> slots_of b p}"

text \<open>Binary search finds the first index at which a monotone condition holds.\<close>

declare sort_search.simps [simp del]

lemma sort_search_first:
  assumes mono: "\<And>x y. x \<le> y \<Longrightarrow> y < n \<Longrightarrow> f x \<Longrightarrow> f y"
  shows "i \<le> j \<Longrightarrow> j \<le> n \<Longrightarrow> (\<forall>k < i. \<not> f k) \<Longrightarrow> (\<forall>k. j \<le> k \<and> k < n \<longrightarrow> f k) \<Longrightarrow>
    sort_search f i j \<le> n \<and> (\<forall>k < sort_search f i j. \<not> f k) \<and> (\<forall>k. sort_search f i j \<le> k \<and> k < n \<longrightarrow> f k)"
proof (induction "j - i" arbitrary: i j rule: less_induct)
  case less
  show ?case
  proof (cases "i < j")
    case True
    let ?h = "(i + j) div 2"
    have h: "i \<le> ?h" "?h < j" using True by auto
    show ?thesis
    proof (cases "f ?h")
      case True
      then have eq: "sort_search f i j = sort_search f i ?h" using \<open>i < j\<close> by (subst sort_search.simps) (simp add: Let_def)
      have "\<forall>k. ?h \<le> k \<and> k < n \<longrightarrow> f k" using mono True by blast
      then show ?thesis unfolding eq using less.prems h by (intro less.hyps) auto
    next
      case False
      then have eq: "sort_search f i j = sort_search f (?h + 1) j" using \<open>i < j\<close> by (subst sort_search.simps) (simp add: Let_def)
      have "\<forall>k < ?h + 1. \<not> f k" using mono False h less.prems(2) by (metis Suc_eq_plus1 less_Suc_eq_le order_less_le_trans)
      then show ?thesis unfolding eq using less.prems h by (intro less.hyps) auto
    qed
  qed (use less.prems in \<open>simp add: sort_search.simps\<close>)
qed

text \<open>Inserting at that index keeps the order.\<close>

lemma insert_slot:
  fixes slot :: "'a::linorder"
  assumes "sorted_wrt (<) slots"
  defines "idx \<equiv> sort_search (\<lambda>i. slot \<le> slots ! i) 0 (length slots)"
  shows "(idx < length slots \<and> slots ! idx = slot) = (slot \<in> set slots)"
    and "slot \<notin> set slots \<Longrightarrow> sorted_wrt (<) (take idx slots @ slot # drop idx slots)"
proof -
  have mono: "slot \<le> slots ! x \<Longrightarrow> slot \<le> slots ! y" if "x \<le> y" "y < length slots" for x y
    using sorted_wrt_nth_less [OF assms(1), of x y] that by (cases "x = y") auto
  have "idx \<le> length slots \<and> (\<forall>k < idx. \<not> slot \<le> slots ! k) \<and> (\<forall>k. idx \<le> k \<and> k < length slots \<longrightarrow> slot \<le> slots ! k)"
    unfolding idx_def by (rule sort_search_first) (rule mono, auto)
  then have i: "idx \<le> length slots" "\<And>k. k < idx \<Longrightarrow> slots ! k < slot" "\<And>k. idx \<le> k \<Longrightarrow> k < length slots \<Longrightarrow> slot \<le> slots ! k"
    by (simp_all add: not_le)
  show mem: "(idx < length slots \<and> slots ! idx = slot) = (slot \<in> set slots)"
  proof
    assume "slot \<in> set slots"
    then obtain k where k: "k < length slots" "slots ! k = slot" by (auto simp: in_set_conv_nth)
    then have "idx \<le> k" using i(2) [of k] by (metis less_irrefl not_le_imp_less)
    then have "slot \<le> slots ! idx" "slots ! idx \<le> slots ! k"
      using i(3) [of idx] k assms(1) by (auto simp: sorted_wrt_iff_nth_less le_less)
    then show "idx < length slots \<and> slots ! idx = slot" using k \<open>idx \<le> k\<close> by auto
  qed auto
  assume new: "slot \<notin> set slots"
  have "\<forall>x \<in> set (take idx slots). x < slot" using i(1,2) by (auto simp: in_set_conv_nth)
  moreover have "slot < x" if "x \<in> set (drop idx slots)" for x
  proof -
    obtain k where "k < length slots - idx" "x = slots ! (idx + k)" using \<open>x \<in> set (drop idx slots)\<close> by (auto simp: in_set_conv_nth)
    then have "slot \<le> x" "x \<in> set slots" using i(3) [of "idx + k"] by auto
    then show ?thesis using new by (metis le_less)
  qed
  ultimately show "sorted_wrt (<) (take idx slots @ slot # drop idx slots)"
    using assms(1) sorted_wrt_append [of "(<)" "take idx slots" "drop idx slots"] by (auto simp: sorted_wrt_append dest: less_trans)
qed

lemma and_slots_set: "sorted_wrt (<) xs \<Longrightarrow> sorted_wrt (<) ys \<Longrightarrow> set (and_slots xs ys) = set xs \<inter> set ys"
  by (induction xs ys rule: and_slots.induct) (auto dest: less_trans less_asym)

lemma and_slots_sorted: "sorted_wrt (<) xs \<Longrightarrow> sorted_wrt (<) ys \<Longrightarrow> sorted_wrt (<) (and_slots xs ys)"
  by (induction xs ys rule: and_slots.induct) (auto simp: and_slots_set)

lemma or_slots_set: "set (or_slots xs ys) = set xs \<union> set ys"
  by (induction xs ys rule: or_slots.induct) auto

lemma or_slots_sorted: "sorted_wrt (<) xs \<Longrightarrow> sorted_wrt (<) ys \<Longrightarrow> sorted_wrt (<) (or_slots xs ys)"
  by (induction xs ys rule: or_slots.induct) (auto simp: or_slots_set)

text \<open>What storing the slots of a page does.\<close>

lemma store_page:
  assumes "bitmap_wf b" "sorted_wrt (<) slots"
  shows "bitmap_wf (b\<lparr>Pages := AList.update p slots (Pages b)\<rparr>)"
    and "slots_of (b\<lparr>Pages := AList.update p slots (Pages b)\<rparr>) = (slots_of b)(p := set slots)"
proof -
  let ?u = "AList.update p slots (Pages b)"
  have d: "distinct (map fst ?u)" using assms(1) by (simp add: bitmap_wf_def distinct_update)
  moreover have "sorted_wrt (<) t" if "(q, t) \<in> set ?u" for q t
  proof -
    have "map_of ?u q = Some t" using that d by simp
    then have "((map_of (Pages b))(p \<mapsto> slots)) q = Some t" by (simp add: update_conv)
    then show ?thesis using assms map_of_SomeD [of "Pages b" q t] by (auto simp: bitmap_wf_def split: if_splits)
  qed
  ultimately show "bitmap_wf (b\<lparr>Pages := ?u\<rparr>)" by (auto simp: bitmap_wf_def)
  show "slots_of (b\<lparr>Pages := ?u\<rparr>) = (slots_of b)(p := set slots)" by (simp add: fun_eq_iff slots_of_def update_conv)
qed

lemma wf_slots: "bitmap_wf b \<Longrightarrow> map_of (Pages b) p = Some slots \<Longrightarrow> sorted_wrt (<) slots"
  by (auto simp: bitmap_wf_def dest: map_of_SomeD)

lemma wf_New: "bitmap_wf NewPageBitmap" "slots_of NewPageBitmap = (\<lambda>_. {})"
  by (auto simp: bitmap_wf_def NewPageBitmap_def slots_of_def)

text \<open>The slots of each page after an operation.\<close>

lemma Add_slots: "bitmap_wf b \<Longrightarrow> bitmap_wf (Add p s b) \<and> slots_of (Add p s b) = (slots_of b)(p := insert s (slots_of b p))"
proof (cases "map_of (Pages b) p")
  case None
  then show "bitmap_wf b \<Longrightarrow> ?thesis" using store_page [of b "[s]" p] by (simp add: Add_def slots_of_def [of b])
next
  case (Some slots)
  assume b: "bitmap_wf b"
  let ?idx = "sort_search (\<lambda>i. s \<le> slots ! i) 0 (length slots)"
  have so: "sorted_wrt (<) slots" "slots_of b p = set slots" using wf_slots [OF b Some] Some by (simp_all add: slots_of_def)
  show ?thesis
  proof (cases "s \<in> set slots")
    case True
    then show ?thesis using insert_slot(1) [OF so(1), of s] b so(2) Some by (simp add: Add_def Let_def insert_absorb fun_upd_idem)
  next
    case False
    have "set (take ?idx slots @ s # drop ?idx slots) = insert s (set slots)"
      by (metis append_take_drop_id list.simps(15) set_append Un_insert_right)
    then show ?thesis
      using insert_slot [OF so(1), of s] store_page [OF b, of "take ?idx slots @ s # drop ?idx slots" p] False so(2) Some
      by (auto simp: Add_def Let_def)
  qed
qed

lemma and_fold:
  assumes o: "bitmap_wf other"
  shows "distinct (map fst ps) \<Longrightarrow> (\<forall>(p, slots) \<in> set ps. sorted_wrt (<) slots) \<Longrightarrow> bitmap_wf r \<Longrightarrow>
    (\<forall>p \<in> fst ` set ps. slots_of r p = {}) \<Longrightarrow>
    bitmap_wf (fold (and_page other) ps r) \<and>
    slots_of (fold (and_page other) ps r) = (\<lambda>p. case map_of ps p of None \<Rightarrow> slots_of r p | Some slots \<Rightarrow> set slots \<inter> slots_of other p)"
proof (induction ps arbitrary: r)
  case (Cons q ps)
  obtain p slots where q: "q = (p, slots)" by fastforce
  have so: "sorted_wrt (<) slots" using Cons.prems(2) q by simp
  have step: "bitmap_wf (and_page other q r) \<and> slots_of (and_page other q r) = (slots_of r)(p := set slots \<inter> slots_of other p)"
  proof (cases "map_of (Pages other) p")
    case None
    then show ?thesis using Cons.prems(3,4) q by (simp add: and_page_def slots_of_def [of other] fun_upd_idem)
  next
    case (Some slots2)
    have c: "sorted_wrt (<) (and_slots slots slots2)" "set (and_slots slots slots2) = set slots \<inter> slots_of other p"
      using and_slots_set and_slots_sorted so wf_slots [OF o Some] Some by (simp_all add: slots_of_def [of other])
    have "slots_of r p = {}" using Cons.prems(4) q by simp
    then have "and_slots slots slots2 = [] \<Longrightarrow> (slots_of r)(p := set slots \<inter> slots_of other p) = slots_of r"
      using c(2) by (simp add: fun_upd_idem)
    then show ?thesis using Some q c store_page [OF Cons.prems(3) c(1), of p] Cons.prems(3) by (auto simp: and_page_def Let_def)
  qed
  have "\<forall>p' \<in> fst ` set ps. slots_of (and_page other q r) p' = {}" using step Cons.prems(1,4) q by auto
  moreover have "map_of ps p = None" using Cons.prems(1) q by (simp add: map_of_eq_None_iff)
  ultimately show ?case
    using Cons.IH [of "and_page other q r"] step Cons.prems(1,2) q by (simp add: fun_eq_iff split: option.split)
qed (simp add: o)

lemma And_slots: "bitmap_wf b \<Longrightarrow> bitmap_wf other \<Longrightarrow> bitmap_wf (And b other) \<and> slots_of (And b other) = (\<lambda>p. slots_of b p \<inter> slots_of other p)"
  using and_fold [of other "Pages b" NewPageBitmap] wf_New
  by (auto simp: And_def bitmap_wf_def [of b] slots_of_def [of b] fun_eq_iff split: option.splits)

lemma copy_fold:
  "distinct (map fst ps) \<Longrightarrow> (\<forall>(p, slots) \<in> set ps. sorted_wrt (<) slots) \<Longrightarrow> bitmap_wf r \<Longrightarrow>
   bitmap_wf (fold (\<lambda>p result. result\<lparr>Pages := AList.update (fst p) (snd p) (Pages result)\<rparr>) ps r) \<and>
   slots_of (fold (\<lambda>p result. result\<lparr>Pages := AList.update (fst p) (snd p) (Pages result)\<rparr>) ps r)
     = (\<lambda>p. case map_of ps p of None \<Rightarrow> slots_of r p | Some slots \<Rightarrow> set slots)"
proof (induction ps arbitrary: r)
  case (Cons q ps)
  obtain p slots where q: "q = (p, slots)" by fastforce
  note st = store_page [OF Cons.prems(3), of slots p]
  have "map_of ps p = None" using Cons.prems(1) q by (simp add: map_of_eq_None_iff)
  then show ?case
    using Cons.IH [of "r\<lparr>Pages := AList.update p slots (Pages r)\<rparr>"] st Cons.prems(1,2) q by (simp add: fun_eq_iff split: option.split)
qed simp

lemma or_fold:
  "distinct (map fst ps) \<Longrightarrow> (\<forall>(p, slots) \<in> set ps. sorted_wrt (<) slots) \<Longrightarrow> bitmap_wf r \<Longrightarrow>
   bitmap_wf (fold or_page ps r) \<and>
   slots_of (fold or_page ps r) = (\<lambda>p. slots_of r p \<union> (case map_of ps p of None \<Rightarrow> {} | Some slots \<Rightarrow> set slots))"
proof (induction ps arbitrary: r)
  case (Cons q ps)
  obtain p slots where q: "q = (p, slots)" by fastforce
  have so: "sorted_wrt (<) slots" using Cons.prems(2) q by simp
  have step: "bitmap_wf (or_page q r) \<and> slots_of (or_page q r) = (slots_of r)(p := slots_of r p \<union> set slots)"
  proof (cases "map_of (Pages r) p")
    case None
    then show ?thesis using store_page [OF Cons.prems(3) so, of p] q by (simp add: or_page_def slots_of_def [of r])
  next
    case (Some slots1)
    have "sorted_wrt (<) (or_slots slots1 slots)" using or_slots_sorted wf_slots [OF Cons.prems(3) Some] so by blast
    then show ?thesis
      using store_page [OF Cons.prems(3), of "or_slots slots1 slots" p] Some q by (simp add: or_page_def or_slots_set slots_of_def [of r])
  qed
  have "map_of ps p = None" using Cons.prems(1) q by (simp add: map_of_eq_None_iff)
  then show ?case using Cons.IH [of "or_page q r"] step Cons.prems(1,2) q by (auto simp: fun_eq_iff split: option.split)
qed simp

lemma Or_slots: "bitmap_wf b \<Longrightarrow> bitmap_wf other \<Longrightarrow> bitmap_wf (Or b other) \<and> slots_of (Or b other) = (\<lambda>p. slots_of b p \<union> slots_of other p)"
proof -
  assume b: "bitmap_wf b" "bitmap_wf other"
  let ?c = "fold (\<lambda>p result. result\<lparr>Pages := AList.update (fst p) (snd p) (Pages result)\<rparr>) (Pages b) NewPageBitmap"
  have "bitmap_wf ?c" "slots_of ?c = slots_of b"
    using copy_fold [of "Pages b" NewPageBitmap] b(1) wf_New by (auto simp: bitmap_wf_def [of b] slots_of_def [of b] fun_eq_iff split: option.split)
  then show ?thesis
    using or_fold [of "Pages other" ?c] b(2) by (auto simp: Or_def bitmap_wf_def [of other] slots_of_def [of other] fun_eq_iff split: option.split)
qed

definition pos_less :: "RowPosition \<Rightarrow> RowPosition \<Rightarrow> bool" where
  "pos_less a b \<longleftrightarrow> pos_PageID a < pos_PageID b \<or> pos_PageID a = pos_PageID b \<and> pos_Slot a < pos_Slot b"

lemma sorted_wrt_concat:
  "(\<And>x. x \<in> set xs \<Longrightarrow> sorted_wrt R (f x)) \<Longrightarrow> sorted_wrt (\<lambda>x y. \<forall>a \<in> set (f x). \<forall>b \<in> set (f y). R a b) xs \<Longrightarrow>
   sorted_wrt R (concat (map f xs))"
  by (induction xs) (auto simp: sorted_wrt_append)

lemma ToPositions_sorted:
  assumes "bitmap_wf b"
  shows "sorted_wrt pos_less (ToPositions b)" "(\<lambda>r. (pos_PageID r, pos_Slot r)) ` set (ToPositions b) = positions b"
proof -
  have keys: "p \<in> fst ` set (Pages b) \<Longrightarrow> \<exists>slots. map_of (Pages b) p = Some slots \<and> sorted_wrt (<) slots" for p
    using wf_slots [OF assms] by (cases "map_of (Pages b) p") (auto simp: map_of_eq_None_iff)
  have strict: "sorted_wrt (<) (sort (map fst (Pages b)))"
    using assms by (simp add: bitmap_wf_def strict_sorted_iff)
  show "sorted_wrt pos_less (ToPositions b)"
    unfolding ToPositions_def
  proof (rule sorted_wrt_concat)
    show "sorted_wrt pos_less (map (\<lambda>slot. \<lparr>pos_PageID = p, pos_Slot = slot\<rparr>) (the (map_of (Pages b) p)))"
      if "p \<in> set (sort (map fst (Pages b)))" for p
      using keys [of p] that by (auto simp: sorted_wrt_map pos_less_def)
    show "sorted_wrt (\<lambda>p q. \<forall>x \<in> set (map (\<lambda>slot. \<lparr>pos_PageID = p, pos_Slot = slot\<rparr>) (the (map_of (Pages b) p))).
        \<forall>y \<in> set (map (\<lambda>slot. \<lparr>pos_PageID = q, pos_Slot = slot\<rparr>) (the (map_of (Pages b) q))). pos_less x y) (sort (map fst (Pages b)))"
      by (rule sorted_wrt_mono_rel [OF _ strict]) (auto simp: pos_less_def)
  qed
  have iff: "r \<in> set (ToPositions b) \<longleftrightarrow>
      (\<exists>p \<in> fst ` set (Pages b). \<exists>slot \<in> set (the (map_of (Pages b) p)). r = \<lparr>pos_PageID = p, pos_Slot = slot\<rparr>)" for r
    by (auto simp: ToPositions_def image_iff)
  have mem: "r \<in> set (ToPositions b) \<longleftrightarrow> pos_Slot r \<in> slots_of b (pos_PageID r)" for r
  proof
    assume "r \<in> set (ToPositions b)"
    then obtain p slot where "p \<in> fst ` set (Pages b)" "slot \<in> set (the (map_of (Pages b) p))" "r = \<lparr>pos_PageID = p, pos_Slot = slot\<rparr>"
      unfolding iff by blast
    then show "pos_Slot r \<in> slots_of b (pos_PageID r)" using keys [of p] by (auto simp: slots_of_def)
  next
    assume "pos_Slot r \<in> slots_of b (pos_PageID r)"
    then obtain slots where s: "map_of (Pages b) (pos_PageID r) = Some slots" "pos_Slot r \<in> set slots"
      by (auto simp: slots_of_def split: option.splits)
    have "pos_PageID r \<in> fst ` set (Pages b)" using map_of_SomeD [OF s(1)] by force
    moreover have "pos_Slot r \<in> set (the (map_of (Pages b) (pos_PageID r)))" using s by simp
    moreover have "r = \<lparr>pos_PageID = pos_PageID r, pos_Slot = pos_Slot r\<rparr>" by simp
    ultimately show "r \<in> set (ToPositions b)" unfolding iff by blast
  qed
  show "(\<lambda>r. (pos_PageID r, pos_Slot r)) ` set (ToPositions b) = positions b"
  proof (intro set_eqI iffI)
    fix x
    assume "x \<in> positions b"
    then have "\<lparr>pos_PageID = fst x, pos_Slot = snd x\<rparr> \<in> set (ToPositions b)" by (simp add: mem positions_def split_beta)
    then show "x \<in> (\<lambda>r. (pos_PageID r, pos_Slot r)) ` set (ToPositions b)" by (rule image_eqI [rotated]) simp
  qed (auto simp: mem positions_def)
qed

text \<open>
  C36: The bitmap is a set of positions. \<open>Add\<close> inserts a position, \<open>And\<close> intersects, \<open>Or\<close> unites, each keeps the slots of
  every page strictly increasing, and \<open>ToPositions\<close> lists the set in the order of pages and slots, without repetition.
\<close>

theorem bitmap_refines:
  assumes "bitmap_wf b" and "bitmap_wf other"
  shows "bitmap_wf (Add p s b) \<and> positions (Add p s b) = insert (p, s) (positions b)
    \<and> bitmap_wf (And b other) \<and> positions (And b other) = positions b \<inter> positions other
    \<and> bitmap_wf (Or b other) \<and> positions (Or b other) = positions b \<union> positions other
    \<and> sorted_wrt pos_less (ToPositions b) \<and> (\<lambda>r. (pos_PageID r, pos_Slot r)) ` set (ToPositions b) = positions b"
proof -
  have "positions (Add p s b) = insert (p, s) (positions b)" using Add_slots [OF assms(1), of p s] by (auto simp: positions_def split: if_splits)
  moreover have "positions (And b other) = positions b \<inter> positions other" using And_slots [OF assms] by (auto simp: positions_def)
  moreover have "positions (Or b other) = positions b \<union> positions other" using Or_slots [OF assms] by (auto simp: positions_def)
  ultimately show ?thesis
    using Add_slots [OF assms(1), of p s] And_slots [OF assms] Or_slots [OF assms] ToPositions_sorted [OF assms(1)] by blast
qed

theorem bitmap_refines_witness:
  "bitmap_wf \<lparr>Pages = [(7, [1, 4])]\<rparr> \<and> bitmap_wf \<lparr>Pages = [(9, [2]), (7, [4, 5])]\<rparr>
   \<and> positions (And \<lparr>Pages = [(7, [1, 4])]\<rparr> \<lparr>Pages = [(9, [2]), (7, [4, 5])]\<rparr>) = {(7, 4)}"
proof -
  let ?b = "\<lparr>Pages = [(7, [1, 4])]\<rparr>" and ?o = "\<lparr>Pages = [(9, [2]), (7, [4, 5])]\<rparr>"
  have wf: "bitmap_wf ?b" "bitmap_wf ?o" by (simp_all add: bitmap_wf_def)
  have "positions ?b = {7} \<times> {1, 4}" "positions ?o = {7} \<times> {4, 5} \<union> {9} \<times> {2}"
    by (auto simp: positions_def slots_of_def split: if_split_asm)
  then have "positions ?b \<inter> positions ?o = {(7, 4)}" by auto
  moreover have "positions (And ?b ?o) = positions ?b \<inter> positions ?o" using bitmap_refines [OF wf, of 0 0] by (elim conjE)
  ultimately show ?thesis using wf by (intro conjI) simp_all
qed

end
