(* ===== verification/Like.thy ===== *)
theory Like
  imports Partition
begin

text \<open>
  The operators LIKE and ILIKE (\<^verbatim>\<open>executor/eval/like.go\<close>): patterns without \<open>_\<close> are split at \<open>%\<close> and matched by substring search on
  the bytes, the others become a regular expression on the runes; compiled patterns are kept in a cache that evicts the
  least recently used one.

  The regular expressions that occur are sequences of \<^verbatim>\<open>.*\<close>, \<^verbatim>\<open>.\<close> (with \<^verbatim>\<open>(?s)\<close>, so also line ends) and quoted runes,
  anchored on both sides; \<^verbatim>\<open>re_match\<close> is the matching of such sequences. The lower case of a rune is a parameter.
\<close>

section \<open>Runes\<close>

type_synonym rune = u32

definition cont :: "u8 \<Rightarrow> u8 \<Rightarrow> bytes \<Rightarrow> nat \<Rightarrow> bool" where
  "cont lo hi bs i \<longleftrightarrow> i < length bs \<and> lo \<le> bs ! i \<and> bs ! i \<le> hi"

definition six :: "u8 \<Rightarrow> rune" where "six b = ucast b AND 0x3F"

text \<open>\<^verbatim>\<open>utf8.DecodeRune\<close>: the first rune and its width; an invalid byte is the replacement rune of width one.\<close>

definition decode_rune :: "bytes \<Rightarrow> rune \<times> nat" where
  "decode_rune bs =
     (let b = hd bs; lo = (if b = 0xE0 then 0xA0 else if b = 0xF0 then 0x90 else 0x80);
          hi = (if b = 0xED then 0x9F else if b = 0xF4 then 0x8F else 0xBF)
      in if b < 0x80 then (ucast b, 1)
         else if 0xC2 \<le> b \<and> b \<le> 0xDF \<and> cont 0x80 0xBF bs 1 then (push_bit 6 (ucast b AND 0x1F) OR six (bs ! 1), 2)
         else if 0xE0 \<le> b \<and> b \<le> 0xEF \<and> cont lo hi bs 1 \<and> cont 0x80 0xBF bs 2
         then (push_bit 12 (ucast b AND 0x0F) OR push_bit 6 (six (bs ! 1)) OR six (bs ! 2), 3)
         else if 0xF0 \<le> b \<and> b \<le> 0xF4 \<and> cont lo hi bs 1 \<and> cont 0x80 0xBF bs 2 \<and> cont 0x80 0xBF bs 3
         then (push_bit 18 (ucast b AND 0x07) OR push_bit 12 (six (bs ! 1)) OR push_bit 6 (six (bs ! 2)) OR six (bs ! 3), 4)
         else (0xFFFD, 1))"

lemma decode_rune_width: "0 < snd (decode_rune bs)"
  by (simp add: decode_rune_def Let_def)

function runes :: "bytes \<Rightarrow> rune list" where
  "runes bs = (if bs = [] then [] else fst (decode_rune bs) # runes (drop (snd (decode_rune bs)) bs))"
  by pat_completeness simp
termination
proof (relation "measure length")
  fix bs :: bytes
  assume "bs \<noteq> []"
  then have "length bs - snd (decode_rune bs) < length bs" using decode_rune_width [of bs] by simp
  then show "(drop (snd (decode_rune bs)) bs, bs) \<in> measure length" by simp
qed simp

declare runes.simps [simp del]

section \<open>Patterns without \<open>_\<close>\<close>

fun split_percent :: "bytes \<Rightarrow> bytes list" where
  "split_percent [] = [[]]"
| "split_percent (b # bs) =
     (if b = 37 then [] # split_percent bs
      else case split_percent bs of s # ss \<Rightarrow> (b # s) # ss | [] \<Rightarrow> [[b]])"

definition HasPrefix :: "bytes \<Rightarrow> bytes \<Rightarrow> bool" where "HasPrefix s p \<longleftrightarrow> take (length p) s = p"
definition HasSuffix :: "bytes \<Rightarrow> bytes \<Rightarrow> bool" where "HasSuffix s p \<longleftrightarrow> length p \<le> length s \<and> drop (length s - length p) s = p"

fun str_index :: "bytes \<Rightarrow> bytes \<Rightarrow> nat option" where
  "str_index [] sub = (if sub = [] then Some 0 else None)"
| "str_index (b # bs) sub = (if HasPrefix (b # bs) sub then Some 0 else map_option Suc (str_index bs sub))"

fun match_mids :: "bytes \<Rightarrow> bytes list \<Rightarrow> bool" where
  "match_mids text [] = True"
| "match_mids text (mid # mids) =
     (if mid = [] then match_mids text mids
      else case str_index text mid of
             None \<Rightarrow> False
           | Some i \<Rightarrow> match_mids (drop (i + length mid) text) mids)"

definition matchSegments :: "bytes \<Rightarrow> bytes list \<Rightarrow> bool" where
  "matchSegments text segs =
     (if length segs = 1 then text = segs ! 0
      else if \<not> HasPrefix text (segs ! 0) then False
      else let text = drop (length (segs ! 0)) text; last_seg = last segs
        in if length text < length last_seg \<or> \<not> HasSuffix text last_seg then False
           else match_mids (take (length text - length last_seg) text) (butlast (tl segs)))"

section \<open>Compiled patterns\<close>

datatype re_item = ReStar | ReDot | ReLit rune

datatype compiledPattern = Simple "bytes list" | Re "re_item list"

fun re_match :: "re_item list \<Rightarrow> rune list \<Rightarrow> bool" where
  "re_match [] t = (t = [])"
| "re_match (ReLit r # ps) t = (case t of [] \<Rightarrow> False | x # t' \<Rightarrow> x = r \<and> re_match ps t')"
| "re_match (ReDot # ps) t = (case t of [] \<Rightarrow> False | x # t' \<Rightarrow> re_match ps t')"
| "re_match (ReStar # ps) [] = re_match ps []"
| "re_match (ReStar # ps) (x # t) = (re_match ps (x # t) \<or> re_match (ReStar # ps) t)"

definition re_item_of :: "rune \<Rightarrow> re_item" where
  "re_item_of r = (if r = 37 then ReStar else if r = 95 then ReDot else ReLit r)"

definition compilePattern :: "bytes \<Rightarrow> compiledPattern" where
  "compilePattern pattern = (if 95 \<notin> set pattern then Simple (split_percent pattern) else Re (map re_item_of (runes pattern)))"

definition cp_match :: "compiledPattern \<Rightarrow> bytes \<Rightarrow> bool" where
  "cp_match cp text = (case cp of Simple segs \<Rightarrow> matchSegments text segs | Re items \<Rightarrow> re_match items (runes text))"

section \<open>The cache\<close>

text \<open>The list holds the patterns, the most recently used one first; the map gives the compiled form.\<close>

record likePatternCache =
  like_capacity :: nat
  like_entries :: "bytes \<rightharpoonup> compiledPattern"
  like_order :: "bytes list"

definition newLikePatternCache :: "nat \<Rightarrow> likePatternCache" where
  "newLikePatternCache n = \<lparr>like_capacity = n, like_entries = Map.empty, like_order = []\<rparr>"

definition MoveToFront :: "bytes \<Rightarrow> likePatternCache \<Rightarrow> likePatternCache" where
  "MoveToFront p c = c\<lparr>like_order := p # removeAll p (like_order c)\<rparr>"

text \<open>The two critical sections of \<^verbatim>\<open>getOrCompile\<close>; other goroutines may run between them.\<close>

definition cache_lookup :: "bytes \<Rightarrow> likePatternCache \<Rightarrow> compiledPattern option \<times> likePatternCache" where
  "cache_lookup pattern c =
     (case like_entries c pattern of None \<Rightarrow> (None, c) | Some cp \<Rightarrow> (Some cp, MoveToFront pattern c))"

definition cache_store :: "bytes \<Rightarrow> compiledPattern \<Rightarrow> likePatternCache \<Rightarrow> compiledPattern \<times> likePatternCache" where
  "cache_store pattern cp c =
     (case like_entries c pattern of
        Some cp' \<Rightarrow> (cp', MoveToFront pattern c)
      | None \<Rightarrow>
          let c = c\<lparr>like_order := pattern # like_order c, like_entries := (like_entries c)(pattern \<mapsto> cp)\<rparr>
          in (cp, if like_capacity c < length (like_order c)
                  then c\<lparr>like_order := butlast (like_order c), like_entries := (like_entries c)(last (like_order c) := None)\<rparr>
                  else c))"

definition getOrCompile :: "bytes \<Rightarrow> likePatternCache \<Rightarrow> compiledPattern \<times> likePatternCache" where
  "getOrCompile pattern c =
     (case cache_lookup pattern c of
        (Some cp, c) \<Rightarrow> (cp, c)
      | (None, c) \<Rightarrow> cache_store pattern (compilePattern pattern) c)"

section \<open>The operators\<close>

definition ValueToString :: "('j val \<Rightarrow> bytes) \<Rightarrow> 'j val \<Rightarrow> bytes" where
  "ValueToString fmt v = (case v of VNil \<Rightarrow> [] | _ \<Rightarrow> sprint_v fmt (Raw v))"

definition like_with ::
  "string \<Rightarrow> (bytes \<Rightarrow> bytes) \<Rightarrow> ('j val \<Rightarrow> bytes) \<Rightarrow> 'j val \<Rightarrow> 'j val \<Rightarrow> likePatternCache \<Rightarrow> (string + bool) \<times> likePatternCache" where
  "like_with msg lower fmt left right c =
     (if left = VNil \<or> right = VNil then (Inr False, c)
      else case right of
             VString pattern \<Rightarrow>
               (case getOrCompile (lower pattern) c of
                  (cp, c) \<Rightarrow> (Inr (cp_match cp (lower (case left of VString text \<Rightarrow> text | _ \<Rightarrow> ValueToString fmt left))), c))
           | _ \<Rightarrow> (Inl msg, c))"

definition EvalLike :: "('j val \<Rightarrow> bytes) \<Rightarrow> 'j val \<Rightarrow> 'j val \<Rightarrow> likePatternCache \<Rightarrow> (string + bool) \<times> likePatternCache" where
  "EvalLike = like_with ''LIKE pattern must be a string'' id"

definition EvalILike ::
  "(bytes \<Rightarrow> bytes) \<Rightarrow> ('j val \<Rightarrow> bytes) \<Rightarrow> 'j val \<Rightarrow> 'j val \<Rightarrow> likePatternCache \<Rightarrow> (string + bool) \<times> likePatternCache" where
  "EvalILike lower = like_with ''ILIKE pattern must be a string'' lower"

section \<open>The language of a pattern\<close>

text \<open>The reference: \<open>%\<close> stands for any text, \<open>_\<close> for any single character, every other character for itself.\<close>

fun like_lang :: "'a :: len word list \<Rightarrow> 'a word list set" where
  "like_lang [] = {[]}"
| "like_lang (c # p) =
     (if c = 37 then {u @ t | u t. t \<in> like_lang p}
      else if c = 95 then {x # t | x t. t \<in> like_lang p}
      else {c # t | t. t \<in> like_lang p})"

lemma re_match_like: "re_match (map re_item_of p) t \<longleftrightarrow> t \<in> like_lang p"
proof (induction p arbitrary: t)
  case (Cons c p)
  show ?case
  proof (cases "c = 37")
    case True
    have "re_match (ReStar # map re_item_of p) t \<longleftrightarrow> (\<exists>u v. t = u @ v \<and> v \<in> like_lang p)"
      by (induction t) (auto simp: Cons.IH Cons_eq_append_conv)
    moreover have "re_item_of c = ReStar" using True by (simp add: re_item_of_def)
    ultimately show ?thesis using True by auto
  next
    case False
    then have "re_item_of c = (if c = 95 then ReDot else ReLit c)" by (simp add: re_item_of_def)
    then show ?thesis using False by (cases t) (auto simp: Cons.IH)
  qed
qed simp

text \<open>The same language, from the parts between the percent signs.\<close>

fun seg_lang :: "bytes list \<Rightarrow> bytes set" where
  "seg_lang [] = {}"
| "seg_lang [s] = {s}"
| "seg_lang (s # t # segs) = {s @ u @ r | u r. r \<in> seg_lang (t # segs)}"

lemma split_percent_nonempty: "split_percent p \<noteq> []"
  by (induction p) (auto split: list.splits)

lemma seg_lang_Nil: "segs \<noteq> [] \<Longrightarrow> seg_lang ([] # segs) = {u @ t | u t. t \<in> seg_lang segs}"
  by (cases segs) auto

lemma seg_lang_Cons: "seg_lang ((b # s) # segs) = {b # t | t. t \<in> seg_lang (s # segs)}"
  by (cases segs) (simp, force)

lemma like_split: "95 \<notin> set p \<Longrightarrow> like_lang p = seg_lang (split_percent p)"
proof (induction p)
  case (Cons b p)
  obtain s segs where "split_percent p = s # segs" using split_percent_nonempty by (metis list.exhaust)
  then show ?case using Cons by (auto simp: seg_lang_Nil seg_lang_Cons)
qed simp

text \<open>The parts in the middle occur one after the other; taking the first occurrence of each is as good as any.\<close>

fun in_order :: "bytes list \<Rightarrow> bytes set" where
  "in_order [] = UNIV"
| "in_order (m # ms) = {u @ m @ r | u r. r \<in> in_order ms}"

lemma in_order_extend: "r \<in> in_order ms \<Longrightarrow> w @ r \<in> in_order ms"
  by (cases ms) (auto, metis append.assoc)

lemma str_index_Some: "str_index t s = Some i \<Longrightarrow> \<exists>u r. t = u @ s @ r \<and> length u = i"
proof (induction t s arbitrary: i rule: str_index.induct)
  case (2 b bs sub)
  show ?case
  proof (cases "HasPrefix (b # bs) sub")
    case True
    then have "b # bs = sub @ drop (length sub) (b # bs)" by (metis HasPrefix_def append_take_drop_id)
    then show ?thesis using 2 True by fastforce
  next
    case False
    then obtain j where j: "str_index bs sub = Some j" "i = Suc j" using "2.prems" by auto
    obtain u r where "bs = u @ sub @ r" "length u = j" using "2.IH" [OF False j(1)] by blast
    then show ?thesis using j(2) by (intro exI [of _ "b # u"] exI [of _ r]) simp
  qed
qed (auto split: if_splits)

lemma str_index_first: "str_index (u @ s @ r) s = Some i \<Longrightarrow> i \<le> length u" "str_index (u @ s @ r) s \<noteq> None"
proof -
  have *: "\<exists>i \<le> length u. str_index (u @ s @ r) s = Some i"
  proof (induction u)
    case Nil
    show ?case
    proof (cases "s @ r")
      case (Cons a l)
      moreover have "HasPrefix (s @ r) s" by (simp add: HasPrefix_def)
      ultimately show ?thesis by simp
    qed simp
  next
    case (Cons b u)
    then show ?case by (auto simp: HasPrefix_def)
  qed
  show "str_index (u @ s @ r) s = Some i \<Longrightarrow> i \<le> length u" "str_index (u @ s @ r) s \<noteq> None" using * by auto
qed

lemma match_mids_in_order: "match_mids t ms \<longleftrightarrow> t \<in> in_order ms"
proof (induction ms arbitrary: t)
  case (Cons m ms)
  show ?case
  proof (cases "m = []")
    case True
    then show ?thesis using Cons in_order_extend by auto
  next
    case False
    show ?thesis
    proof
      assume "match_mids t (m # ms)"
      then obtain i where i: "str_index t m = Some i" "drop (i + length m) t \<in> in_order ms"
        using False Cons by (auto split: option.splits)
      obtain u r where "t = u @ m @ r" "length u = i" using str_index_Some [OF i(1)] by blast
      then show "t \<in> in_order (m # ms)" using i(2) by auto
    next
      assume "t \<in> in_order (m # ms)"
      then obtain u r where t: "t = u @ m @ r" "r \<in> in_order ms" by auto
      obtain i where i: "str_index t m = Some i" "i \<le> length u" using str_index_first [of u m r] t(1) by auto
      have "drop (i + length m) t = drop (i + length m) (u @ m) @ r" using i(2) t(1) by simp
      then have "drop (i + length m) t \<in> in_order ms" using in_order_extend t(2) by simp
      then show "match_mids t (m # ms)" using False Cons i(1) by simp
    qed
  qed
qed simp

lemma seg_lang_ends:
  "seg_lang (s # mids @ [l]) = {s @ x @ l | x. x \<in> in_order mids}"
proof (induction mids arbitrary: s)
  case (Cons m mids)
  have "seg_lang (s # (m # mids) @ [l]) = {s @ u @ r | u r. r \<in> seg_lang (m # mids @ [l])}" by simp
  also have "\<dots> = {s @ (u @ m @ x) @ l | u x. x \<in> in_order mids}" unfolding Cons.IH by fastforce
  also have "\<dots> = {s @ x @ l | x. x \<in> in_order (m # mids)}" unfolding in_order.simps by blast
  finally show ?case .
qed auto

lemma matchSegments_lang: "segs \<noteq> [] \<Longrightarrow> matchSegments t segs \<longleftrightarrow> t \<in> seg_lang segs"
proof (cases "length segs = 1")
  case True
  then show ?thesis by (cases segs) (auto simp: matchSegments_def)
next
  case False
  assume "segs \<noteq> []"
  then obtain s mids l where segs: "segs = s # mids @ [l]" using False by (cases segs; cases "tl segs" rule: rev_cases) auto
  have p: "HasPrefix t s \<longleftrightarrow> (\<exists>r. t = s @ r)" by (auto simp: HasPrefix_def) (metis append_take_drop_id)
  have q: "length l \<le> length r \<and> HasSuffix r l \<longleftrightarrow> (\<exists>x. r = x @ l)" for r
    by (auto simp: HasSuffix_def) (metis append_take_drop_id)
  show ?thesis
  proof (cases "\<exists>x. t = s @ x @ l")
    case True
    then obtain x where x: "t = s @ x @ l" by blast
    then have "HasPrefix t s" "HasSuffix (x @ l) l" unfolding p by (auto simp: HasSuffix_def)
    then show ?thesis using x by (auto simp: segs matchSegments_def Let_def seg_lang_ends match_mids_in_order)
  next
    case False
    then have "\<not> (HasPrefix t s \<and> length l \<le> length (drop (length s) t) \<and> HasSuffix (drop (length s) t) l)"
      using p q [of "drop (length s) t"] by auto
    then show ?thesis using False by (auto simp: segs matchSegments_def Let_def seg_lang_ends not_less)
  qed
qed

text \<open>A compiled pattern accepts exactly the language of the pattern, over bytes or over runes.\<close>

definition like_spec :: "bytes \<Rightarrow> bytes \<Rightarrow> bool" where
  "like_spec pattern text \<longleftrightarrow> (if 95 \<in> set pattern then runes text \<in> like_lang (runes pattern) else text \<in> like_lang pattern)"

lemma compilePattern_match: "cp_match (compilePattern p) t \<longleftrightarrow> like_spec p t"
  using matchSegments_lang [OF split_percent_nonempty]
  by (simp add: cp_match_def compilePattern_def like_spec_def like_split re_match_like)

section \<open>The cache is transparent\<close>

definition like_cache_ok :: "likePatternCache \<Rightarrow> bool" where
  "like_cache_ok c \<longleftrightarrow> distinct (like_order c) \<and> dom (like_entries c) = set (like_order c) \<and> length (like_order c) \<le> like_capacity c
     \<and> (\<forall>p cp. like_entries c p = Some cp \<longrightarrow> cp = compilePattern p)"

lemma newLikePatternCache_ok: "like_cache_ok (newLikePatternCache n)"
  by (simp add: like_cache_ok_def newLikePatternCache_def)

lemma length_move: "distinct xs \<Longrightarrow> x \<in> set xs \<Longrightarrow> Suc (length (removeAll x xs)) = length xs"
  by (induction xs) auto

lemma MoveToFront_ok: "like_cache_ok c \<Longrightarrow> like_entries c p = Some cp \<Longrightarrow> like_cache_ok (MoveToFront p c)"
  using length_move [of "like_order c" p] domI [of "like_entries c" p cp]
  by (auto simp: like_cache_ok_def MoveToFront_def distinct_removeAll)

lemma cache_lookup_ok:
  "like_cache_ok c \<Longrightarrow> like_cache_ok (snd (cache_lookup p c)) \<and> (\<forall>cp. fst (cache_lookup p c) = Some cp \<longrightarrow> cp = compilePattern p)
     \<and> like_capacity (snd (cache_lookup p c)) = like_capacity c"
  using MoveToFront_ok [of c p] by (auto simp: cache_lookup_def like_cache_ok_def MoveToFront_def split: option.splits)

lemma set_butlast_distinct: "distinct xs \<Longrightarrow> xs \<noteq> [] \<Longrightarrow> set (butlast xs) = set xs - {last xs}"
  by (cases xs rule: rev_cases) simp_all

lemma cache_store_ok:
  assumes "like_cache_ok c"
  shows "like_cache_ok (snd (cache_store p (compilePattern p) c)) \<and> fst (cache_store p (compilePattern p) c) = compilePattern p
    \<and> like_capacity (snd (cache_store p (compilePattern p) c)) = like_capacity c"
proof (cases "like_entries c p")
  case None
  define order where "order = p # like_order c"
  define entries where "entries = (like_entries c)(p \<mapsto> compilePattern p)"
  have st: "snd (cache_store p (compilePattern p) c) =
      (if like_capacity c < length order then c\<lparr>like_order := butlast order, like_entries := entries(last order := None)\<rparr>
       else c\<lparr>like_order := order, like_entries := entries\<rparr>)" "fst (cache_store p (compilePattern p) c) = compilePattern p"
    using None by (simp_all add: cache_store_def order_def entries_def Let_def)
  have o: "distinct order" "dom entries = set order" "length order \<le> Suc (like_capacity c)" "\<forall>q cp. entries q = Some cp \<longrightarrow> cp = compilePattern q"
      "order \<noteq> []"
    using assms None by (auto simp: like_cache_ok_def order_def entries_def)
  have "dom (entries(last order := None)) = set (butlast order)" "distinct (butlast order)" "length (butlast order) \<le> like_capacity c"
    using o set_butlast_distinct [OF o(1,5)] by (auto simp: distinct_butlast)
  then show ?thesis using st o by (simp add: like_cache_ok_def)
next
  case (Some cp)
  then show ?thesis using MoveToFront_ok [OF assms Some] assms by (auto simp: cache_store_def like_cache_ok_def MoveToFront_def)
qed

text \<open>The critical sections of any goroutines, in any order.\<close>

datatype cache_op = Look bytes | Store bytes

fun cache_exec :: "cache_op \<Rightarrow> likePatternCache \<Rightarrow> likePatternCache" where
  "cache_exec (Look p) c = snd (cache_lookup p c)"
| "cache_exec (Store p) c = snd (cache_store p (compilePattern p) c)"

lemma cache_run_ok: "like_cache_ok c \<Longrightarrow> like_cache_ok (fold cache_exec ops c) \<and> like_capacity (fold cache_exec ops c) = like_capacity c"
proof (induction ops arbitrary: c)
  case (Cons x ops)
  then show ?case using cache_lookup_ok cache_store_ok by (cases x) auto
qed simp

lemma getOrCompile_ok: "like_cache_ok c \<Longrightarrow> fst (getOrCompile p c) = compilePattern p \<and> like_cache_ok (snd (getOrCompile p c))
    \<and> like_capacity (snd (getOrCompile p c)) = like_capacity c"
  using cache_lookup_ok [of c p] cache_store_ok [of "snd (cache_lookup p c)" p]
  by (auto simp: getOrCompile_def split: prod.splits option.splits)

lemma like_with_ok:
  assumes "like_cache_ok c"
  shows "fst (like_with msg lower fmt left right c) =
      (if left = VNil \<or> right = VNil then Inr False
       else case right of
              VString pattern \<Rightarrow> Inr (like_spec (lower pattern) (lower (case left of VString text \<Rightarrow> text | _ \<Rightarrow> ValueToString fmt left)))
            | _ \<Rightarrow> Inl msg)
    \<and> like_cache_ok (snd (like_with msg lower fmt left right c)) \<and> like_capacity (snd (like_with msg lower fmt left right c)) = like_capacity c"
  using getOrCompile_ok [OF assms] assms by (cases right) (simp_all add: like_with_def compilePattern_match case_prod_beta)

text \<open>
  C11: LIKE and ILIKE mean what SQL says. Whatever other goroutines did with the shared cache, the result is false for a null
  operand, an error for a pattern that is not a text, and otherwise whether the text is in the language of the pattern, where
  percent stands for any text and underscore for one character; the cache never holds more than its capacity.
\<close>

theorem EvalLike_correct:
  defines "cached \<equiv> \<lambda>ops n. fold cache_exec ops (newLikePatternCache n)"
  shows "fst (EvalLike fmt left right (cached ops n)) =
      (if left = VNil \<or> right = VNil then Inr False
       else case right of
              VString pattern \<Rightarrow> Inr (like_spec pattern (case left of VString text \<Rightarrow> text | _ \<Rightarrow> ValueToString fmt left))
            | _ \<Rightarrow> Inl ''LIKE pattern must be a string'')
    \<and> fst (EvalILike lower fmt left right (cached ops n)) =
      (if left = VNil \<or> right = VNil then Inr False
       else case right of
              VString pattern \<Rightarrow> Inr (like_spec (lower pattern) (lower (case left of VString text \<Rightarrow> text | _ \<Rightarrow> ValueToString fmt left)))
            | _ \<Rightarrow> Inl ''ILIKE pattern must be a string'')
    \<and> length (like_order (snd (EvalLike fmt left right (cached ops n)))) \<le> n"
proof -
  have c: "like_cache_ok (cached ops n)" "like_capacity (cached ops n) = n"
    using cache_run_ok [OF newLikePatternCache_ok] by (simp_all add: cached_def newLikePatternCache_def)
  note l = like_with_ok [OF c(1), of "''LIKE pattern must be a string''" "\<lambda>x. x" fmt left right]
  have "length (like_order (snd (EvalLike fmt left right (cached ops n)))) \<le> n"
    using l c(2) by (simp add: EvalLike_def id_def like_cache_ok_def)
  then show ?thesis using l like_with_ok [OF c(1), of "''ILIKE pattern must be a string''" lower fmt left right]
    by (simp add: EvalLike_def EvalILike_def id_def)
qed

end
