(* ===== verification/Index.thy ===== *)
theory Index
  imports Bitmap Like "HOL-Library.RBT" "HOL-Library.Multiset"
begin

text \<open>
  Indexes of \<^verbatim>\<open>core/index\<close>: the hash index (\<^verbatim>\<open>hash_index.go\<close>), the B-tree index (\<^verbatim>\<open>btree.go\<close>) and the composite
  index (\<^verbatim>\<open>composite.go\<close>). An index maps keys, which are texts, to row positions, and each row position back to its key.

  Column positions come from a search in the schema and are natural numbers. A B-tree of \<^verbatim>\<open>google/btree\<close> is a parameter
  (\<open>gbtree\<close>, with \<open>gbtree_ok\<close> what its documentation promises); the entries it holds are pointers, so the tree
  holds addresses and the lists of positions are in a store. \<^verbatim>\<open>sort.Slice\<close> is not stable and is a parameter \<open>srt\<close>,
  with \<open>sort_ok\<close> what it guarantees. Lower case of a text, and the printing of floats and of objects, are parameters.
\<close>

record 'j IndexableRow =
  DeletedTx :: u64
  row_Data :: "'j val list"

definition ValueToIndexKey :: "('j val \<Rightarrow> bytes) \<Rightarrow> 'j val \<Rightarrow> bytes" where
  "ValueToIndexKey fmt v = (if v = VNil then 0 # ascii ''NULL'' else sprint_v fmt (Raw v))"

text \<open>The rows that \<^verbatim>\<open>Rebuild\<close> indexes, with their keys; \<^const>\<open>None\<close> leaves a row out.\<close>

definition column_key :: "('j val \<Rightarrow> bytes) \<Rightarrow> nat \<Rightarrow> 'j val list \<Rightarrow> bytes option" where
  "column_key fmt ci data = (if ci < length data then Some (ValueToIndexKey fmt (data ! ci)) else None)"

fun live_entries :: "('j val list \<Rightarrow> bytes option) \<Rightarrow> int \<Rightarrow> 'j IndexableRow list \<Rightarrow> (bytes \<times> int) list" where
  "live_entries key pos [] = []"
| "live_entries key pos (row # rows) =
     (if DeletedTx row \<noteq> 0 then live_entries key (pos + 1) rows
      else case key (row_Data row) of
             None \<Rightarrow> live_entries key (pos + 1) rows
           | Some k \<Rightarrow> (k, pos) # live_entries key (pos + 1) rows)"

definition or_nil :: "'a list option \<Rightarrow> 'a list" where
  "or_nil x = (case x of None \<Rightarrow> [] | Some xs \<Rightarrow> xs)"

text \<open>Removing the first occurrence by moving the last element into its place.\<close>

definition swap_remove :: "'a \<Rightarrow> 'a list \<Rightarrow> 'a list" where
  "swap_remove p ps =
     (let i = length (takeWhile (\<lambda>x. x \<noteq> p) ps) in if i < length ps then butlast (ps[i := last ps]) else ps)"

section \<open>Hash index\<close>

record HashIndex =
  hi_name :: string
  hi_column :: string
  hi_colIndex :: nat
  hi_unique :: bool
  hi_data :: "bytes \<rightharpoonup> int list"
  hi_reverse :: "int \<rightharpoonup> bytes"

definition NewHash :: "string \<Rightarrow> string \<Rightarrow> nat \<Rightarrow> HashIndex" where
  "NewHash name column colIndex =
     \<lparr>hi_name = name, hi_column = column, hi_colIndex = colIndex, hi_unique = False, hi_data = Map.empty, hi_reverse = Map.empty\<rparr>"

definition Hash_SetUnique :: "bool \<Rightarrow> HashIndex \<Rightarrow> HashIndex" where "Hash_SetUnique u idx = idx\<lparr>hi_unique := u\<rparr>"

definition Hash_RenameColumn :: "string \<Rightarrow> string \<Rightarrow> HashIndex \<Rightarrow> HashIndex" where
  "Hash_RenameColumn old new idx = idx\<lparr>hi_column := new\<rparr>"

definition Hash_Lookup :: "HashIndex \<Rightarrow> bytes \<Rightarrow> int list \<times> bool" where
  "Hash_Lookup idx v = (case hi_data idx v of None \<Rightarrow> ([], False) | Some ps \<Rightarrow> (ps, True))"

definition Hash_Insert :: "bytes \<Rightarrow> int \<Rightarrow> HashIndex \<Rightarrow> HashIndex" where
  "Hash_Insert v rowPos idx =
     idx\<lparr>hi_data := (hi_data idx)(v \<mapsto> or_nil (hi_data idx v) @ [rowPos]), hi_reverse := (hi_reverse idx)(rowPos \<mapsto> v)\<rparr>"

definition Hash_Delete :: "int \<Rightarrow> HashIndex \<Rightarrow> HashIndex" where
  "Hash_Delete rowPos idx =
     (case hi_reverse idx rowPos of
        None \<Rightarrow> idx
      | Some key \<Rightarrow>
          let ps = or_nil (hi_data idx key);
              data = (if rowPos \<in> set ps then (hi_data idx)(key \<mapsto> swap_remove rowPos ps) else hi_data idx);
              data = (if or_nil (data key) = [] then data(key := None) else data)
          in idx\<lparr>hi_reverse := (hi_reverse idx)(rowPos := None), hi_data := data\<rparr>)"

definition Hash_Rebuild :: "('j val \<Rightarrow> bytes) \<Rightarrow> 'j IndexableRow list \<Rightarrow> HashIndex \<Rightarrow> HashIndex" where
  "Hash_Rebuild fmt rows idx =
     fold (\<lambda>(key, pos) idx. idx\<lparr>hi_data := (hi_data idx)(key \<mapsto> or_nil (hi_data idx key) @ [pos]), hi_reverse := (hi_reverse idx)(pos \<mapsto> key)\<rparr>)
       (live_entries (column_key fmt (hi_colIndex idx)) 0 rows)
       (idx\<lparr>hi_data := Map.empty, hi_reverse := Map.empty\<rparr>)"

section \<open>B-tree index\<close>

text \<open>The items of the tree: the key of an entry, which never changes, and its address.\<close>

type_synonym bt_item = "bytes \<times> nat"

record 't gbtree =
  gb_New :: 't
  gb_Get :: "'t \<Rightarrow> bytes \<Rightarrow> bt_item option"
  gb_ReplaceOrInsert :: "bt_item \<Rightarrow> 't \<Rightarrow> 't"
  gb_Delete :: "bytes \<Rightarrow> 't \<Rightarrow> 't"
  gb_Len :: "'t \<Rightarrow> nat"
  gb_Ascend :: "'t \<Rightarrow> bt_item list"
  gb_AscendGreaterOrEqual :: "bytes \<Rightarrow> 't \<Rightarrow> bt_item list"

record ('t, 'c) BTreeIndex =
  bt_tree :: 't
  bt_store :: "nat \<Rightarrow> int list"
  bt_next :: nat
  bt_name :: string
  bt_column :: string
  bt_colIndex :: nat
  bt_unique :: bool
  bt_reverse :: "int \<rightharpoonup> bytes"
  bt_storedCols :: "(int \<times> 'c) list"

definition NewBTreeIndex :: "'t gbtree \<Rightarrow> string \<Rightarrow> string \<Rightarrow> nat \<Rightarrow> ('t, 'c) BTreeIndex" where
  "NewBTreeIndex B name column colIndex =
     \<lparr>bt_tree = gb_New B, bt_store = (\<lambda>_. []), bt_next = 0, bt_name = name, bt_column = column, bt_colIndex = colIndex,
      bt_unique = False, bt_reverse = Map.empty, bt_storedCols = []\<rparr>"

definition BTree_Len :: "'t gbtree \<Rightarrow> ('t, 'c) BTreeIndex \<Rightarrow> nat" where "BTree_Len B idx = gb_Len B (bt_tree idx)"

definition BTree_SetUnique :: "bool \<Rightarrow> ('t, 'c) BTreeIndex \<Rightarrow> ('t, 'c) BTreeIndex" where "BTree_SetUnique u idx = idx\<lparr>bt_unique := u\<rparr>"

definition BTree_RenameColumn :: "string \<Rightarrow> string \<Rightarrow> ('t, 'c) BTreeIndex \<Rightarrow> ('t, 'c) BTreeIndex" where
  "BTree_RenameColumn old new idx = idx\<lparr>bt_column := new\<rparr>"

definition HasStoredColumns :: "('t, 'c) BTreeIndex \<Rightarrow> bool" where "HasStoredColumns idx \<longleftrightarrow> 0 < length (bt_storedCols idx)"

definition StoreColumns :: "int \<Rightarrow> 'c \<Rightarrow> ('t, 'c) BTreeIndex \<Rightarrow> ('t, 'c) BTreeIndex" where
  "StoreColumns rowPos columns idx = idx\<lparr>bt_storedCols := AList.update rowPos columns (bt_storedCols idx)\<rparr>"

definition StoreColumnsBatch :: "(int \<times> 'c) list \<Rightarrow> ('t, 'c) BTreeIndex \<Rightarrow> ('t, 'c) BTreeIndex" where
  "StoreColumnsBatch batch idx = fold (\<lambda>(pos, cols). StoreColumns pos cols) batch idx"

definition GetStoredColumns :: "int \<Rightarrow> ('t, 'c) BTreeIndex \<Rightarrow> 'c option" where
  "GetStoredColumns rowPos idx = map_of (bt_storedCols idx) rowPos"

definition cols_of :: "('t, 'c) BTreeIndex \<Rightarrow> int list \<Rightarrow> int \<rightharpoonup> 'c" where
  "cols_of idx ps = (\<lambda>p. if p \<in> set ps then map_of (bt_storedCols idx) p else None)"

definition BTree_Lookup :: "'t gbtree \<Rightarrow> ('t, 'c) BTreeIndex \<Rightarrow> bytes \<Rightarrow> int list \<times> bool" where
  "BTree_Lookup B idx v =
     (case gb_Get B (bt_tree idx) v of None \<Rightarrow> ([], False) | Some e \<Rightarrow> (bt_store idx (snd e), True))"

definition LookupWithColumns :: "'t gbtree \<Rightarrow> ('t, 'c) BTreeIndex \<Rightarrow> bytes \<Rightarrow> int list \<times> (int \<rightharpoonup> 'c) \<times> bool" where
  "LookupWithColumns B idx v =
     (case gb_Get B (bt_tree idx) v of
        None \<Rightarrow> ([], Map.empty, False)
      | Some e \<Rightarrow> let rowPositions = bt_store idx (snd e) in (rowPositions, cols_of idx rowPositions, True))"

text \<open>The iterator is called with the items in ascending order until it returns false.\<close>

definition Range :: "'t gbtree \<Rightarrow> ('t, 'c) BTreeIndex \<Rightarrow> bytes \<Rightarrow> bytes \<Rightarrow> int list" where
  "Range B idx low high =
     concat (map (\<lambda>e. bt_store idx (snd e)) (takeWhile (\<lambda>e. \<not> high < fst e) (gb_AscendGreaterOrEqual B low (bt_tree idx))))"

definition RangeWithColumns :: "'t gbtree \<Rightarrow> ('t, 'c) BTreeIndex \<Rightarrow> bytes \<Rightarrow> bytes \<Rightarrow> int list \<times> (int \<rightharpoonup> 'c)" where
  "RangeWithColumns B idx low high =
     (let result = concat (map (\<lambda>e. bt_store idx (snd e)) (takeWhile (\<lambda>e. \<not> high < fst e) (gb_AscendGreaterOrEqual B low (bt_tree idx))))
      in (result, cols_of idx result))"

text \<open>A new entry gets a new address.\<close>

definition bt_new_entry :: "'t gbtree \<Rightarrow> bytes \<times> int list \<Rightarrow> ('t, 'c) BTreeIndex \<Rightarrow> ('t, 'c) BTreeIndex" where
  "bt_new_entry B e idx =
     idx\<lparr>bt_tree := gb_ReplaceOrInsert B (fst e, bt_next idx) (bt_tree idx), bt_store := (bt_store idx)(bt_next idx := snd e), bt_next := bt_next idx + 1\<rparr>"

definition bt_add :: "'t gbtree \<Rightarrow> bytes \<Rightarrow> int \<Rightarrow> ('t, 'c) BTreeIndex \<Rightarrow> ('t, 'c) BTreeIndex" where
  "bt_add B v rowPos idx =
     (case gb_Get B (bt_tree idx) v of
        Some e \<Rightarrow> idx\<lparr>bt_store := (bt_store idx)(snd e := bt_store idx (snd e) @ [rowPos])\<rparr>
      | None \<Rightarrow> bt_new_entry B (v, [rowPos]) idx)"

definition BTree_Insert :: "'t gbtree \<Rightarrow> bytes \<Rightarrow> int \<Rightarrow> ('t, 'c) BTreeIndex \<Rightarrow> ('t, 'c) BTreeIndex" where
  "BTree_Insert B v rowPos idx = (let idx = bt_add B v rowPos idx in idx\<lparr>bt_reverse := (bt_reverse idx)(rowPos \<mapsto> v)\<rparr>)"

definition InsertWithColumns :: "'t gbtree \<Rightarrow> bytes \<Rightarrow> int \<Rightarrow> 'c option \<Rightarrow> ('t, 'c) BTreeIndex \<Rightarrow> ('t, 'c) BTreeIndex" where
  "InsertWithColumns B v rowPos columns idx =
     (let idx = bt_add B v rowPos idx; idx = idx\<lparr>bt_reverse := (bt_reverse idx)(rowPos \<mapsto> v)\<rparr>
      in case columns of None \<Rightarrow> idx | Some cols \<Rightarrow> idx\<lparr>bt_storedCols := AList.update rowPos cols (bt_storedCols idx)\<rparr>)"

definition BTree_Delete :: "'t gbtree \<Rightarrow> int \<Rightarrow> ('t, 'c) BTreeIndex \<Rightarrow> ('t, 'c) BTreeIndex" where
  "BTree_Delete B rowPos idx =
     (case bt_reverse idx rowPos of
        None \<Rightarrow> idx
      | Some key \<Rightarrow>
          let idx = idx\<lparr>bt_reverse := (bt_reverse idx)(rowPos := None), bt_storedCols := AList.delete rowPos (bt_storedCols idx)\<rparr>
          in case gb_Get B (bt_tree idx) key of
               None \<Rightarrow> idx
             | Some e \<Rightarrow>
                 let idx = idx\<lparr>bt_store := (bt_store idx)(snd e := swap_remove rowPos (bt_store idx (snd e)))\<rparr>
                 in if bt_store idx (snd e) = [] then idx\<lparr>bt_tree := gb_Delete B key (bt_tree idx)\<rparr> else idx)"

definition BTree_Rebuild ::
  "'t gbtree \<Rightarrow> ((bytes \<times> int) list \<Rightarrow> (bytes \<times> int) list) \<Rightarrow> ('j val \<Rightarrow> bytes) \<Rightarrow> 'j IndexableRow list
    \<Rightarrow> ('t, 'c) BTreeIndex \<Rightarrow> ('t, 'c) BTreeIndex" where
  "BTree_Rebuild B srt fmt rows idx =
     fold (\<lambda>(key, pos) idx. let idx = bt_add B key pos idx in idx\<lparr>bt_reverse := (bt_reverse idx)(pos \<mapsto> key)\<rparr>)
       (srt (live_entries (column_key fmt (bt_colIndex idx)) 0 rows))
       (idx\<lparr>bt_tree := gb_New B, bt_reverse := Map.empty\<rparr>)"

text \<open>What is written to the file, and the index made from it; the entries get new addresses.\<close>

record 'c btreeIndexData =
  bd_Name :: string
  bd_Column :: string
  bd_ColIndex :: nat
  bd_Keys :: "bytes list"
  bd_Values :: "int list list"
  bd_Reverse :: "int \<rightharpoonup> bytes"
  bd_StoredCols :: "(int \<times> 'c) list"

definition BTree_Save :: "'t gbtree \<Rightarrow> ('t, 'c) BTreeIndex \<Rightarrow> 'c btreeIndexData" where
  "BTree_Save B idx =
     \<lparr>bd_Name = bt_name idx, bd_Column = bt_column idx, bd_ColIndex = bt_colIndex idx, bd_Keys = map fst (gb_Ascend B (bt_tree idx)),
      bd_Values = map (\<lambda>e. bt_store idx (snd e)) (gb_Ascend B (bt_tree idx)), bd_Reverse = bt_reverse idx, bd_StoredCols = bt_storedCols idx\<rparr>"

definition LoadBTreeIndex :: "'t gbtree \<Rightarrow> 'c btreeIndexData \<Rightarrow> ('t, 'c) BTreeIndex" where
  "LoadBTreeIndex B d =
     fold (bt_new_entry B) (zip (bd_Keys d) (bd_Values d))
       \<lparr>bt_tree = gb_New B, bt_store = (\<lambda>_. []), bt_next = 0, bt_name = bd_Name d, bt_column = bd_Column d, bt_colIndex = bd_ColIndex d,
        bt_unique = False, bt_reverse = bd_Reverse d, bt_storedCols = bd_StoredCols d\<rparr>"

section \<open>Keys of a composite index\<close>

text \<open>\<^verbatim>\<open>unicode.IsSpace\<close>, and \<^verbatim>\<open>strings.TrimSpace\<close>, which removes runes, that is groups of bytes, at both ends.\<close>

definition is_space :: "rune \<Rightarrow> bool" where
  "is_space r \<longleftrightarrow>
     r \<in> {9, 10, 11, 12, 13, 32, 0x85, 0xA0, 0x1680, 0x2028, 0x2029, 0x202F, 0x205F, 0x3000} \<or> 0x2000 \<le> r \<and> r \<le> 0x200A"

function rune_chunks :: "bytes \<Rightarrow> bytes list" where
  "rune_chunks bs =
     (if bs = [] then [] else take (snd (decode_rune bs)) bs # rune_chunks (drop (snd (decode_rune bs)) bs))"
  by pat_completeness simp
termination
proof (relation "measure length")
  fix bs :: bytes
  assume "bs \<noteq> []"
  then have "length bs - snd (decode_rune bs) < length bs" using decode_rune_width [of bs] by simp
  then show "(drop (snd (decode_rune bs)) bs, bs) \<in> measure length" by simp
qed simp

declare rune_chunks.simps [simp del]

definition TrimSpace :: "bytes \<Rightarrow> bytes" where
  "TrimSpace s =
     (let space = (\<lambda>c. is_space (fst (decode_rune c)))
      in concat (rev (dropWhile space (rev (dropWhile space (rune_chunks s))))))"

definition TrimLeftMinus :: "bytes \<Rightarrow> bytes" where "TrimLeftMinus s = dropWhile (\<lambda>b. b = 45) s"

text \<open>
  \<^verbatim>\<open>formatAny\<close> and \<^verbatim>\<open>formatAnyRaw\<close> call each other; for a value that is neither text, whole number nor truth value they
  never return.
\<close>

partial_function (option) formatAny :: "'j val \<Rightarrow> bytes option" where
  "formatAny v =
     Option.bind
       (case v of
          VString s \<Rightarrow> Some s
        | VInt i \<Rightarrow> Some (print_int (sint i))
        | VInt64 i \<Rightarrow> Some (print_int (sint i))
        | VBool b \<Rightarrow> Some (if b then ascii ''1'' else ascii ''0'')
        | _ \<Rightarrow> Option.bind (formatAny v) (\<lambda>s. Some (TrimSpace (TrimLeftMinus (TrimSpace s)))))
       (\<lambda>raw. let s = TrimSpace (TrimLeftMinus (TrimSpace raw)) in Some (if s = [] then ascii ''0'' else s))"

definition pad20 :: "bytes \<Rightarrow> bytes" where
  "pad20 s = replicate (20 - length (TrimLeftMinus s)) 32 @ s"

text \<open>\<open>fmtf\<close> is \<^verbatim>\<open>strconv.FormatFloat(val, 'f', -1, 64)\<close>.\<close>

definition formatValue :: "(f64 \<Rightarrow> bytes) \<Rightarrow> 'j val \<Rightarrow> bytes option" where
  "formatValue fmtf v =
     (case v of
        VString s \<Rightarrow> Some s
      | VInt i \<Rightarrow> Some (pad20 (print_int (sint i)))
      | VInt64 i \<Rightarrow> Some (pad20 (print_int (sint i)))
      | VFloat f \<Rightarrow> Some (pad20 (fmtf f))
      | VBool b \<Rightarrow> Some (if b then ascii ''1'' else ascii ''0'')
      | _ \<Rightarrow> map_option (\<lambda>s. TrimSpace (TrimLeftMinus (TrimSpace s))) (formatAny v))"

definition formatIndexValue :: "(bytes \<Rightarrow> bytes) \<Rightarrow> (f64 \<Rightarrow> bytes) \<Rightarrow> 'j val \<Rightarrow> bytes option" where
  "formatIndexValue lower fmtf v = (if v = VNil then Some [] else map_option (\<lambda>s. lower (TrimSpace s)) (formatValue fmtf v))"

fun strings_Join :: "'a list list \<Rightarrow> 'a list \<Rightarrow> 'a list" where
  "strings_Join [] sep = []"
| "strings_Join [s] sep = s"
| "strings_Join (s # ss) sep = s @ sep @ strings_Join ss sep"

text \<open>A part whose column is missing in the row stays empty; the key is \<^const>\<open>None\<close> when a part never returns.\<close>

definition compositeKey :: "(bytes \<Rightarrow> bytes) \<Rightarrow> (f64 \<Rightarrow> bytes) \<Rightarrow> nat list \<Rightarrow> 'j val list \<Rightarrow> bytes option" where
  "compositeKey lower fmtf colIndex data =
     map_option (\<lambda>parts. strings_Join parts [0])
       (those (map (\<lambda>ci. if ci < length data then formatIndexValue lower fmtf (data ! ci) else Some []) colIndex))"

section \<open>Composite index\<close>

record CompositeIndex =
  ci_name :: string
  ci_columns :: "string list"
  ci_colIndex :: "nat list"
  ci_unique :: bool
  ci_keys :: "bytes list"
  ci_values :: "int list list"
  ci_reverse :: "int \<rightharpoonup> bytes"

definition NewCompositeIndex :: "string \<Rightarrow> string list \<Rightarrow> nat list \<Rightarrow> CompositeIndex" where
  "NewCompositeIndex name columns colIndex =
     \<lparr>ci_name = name, ci_columns = columns, ci_colIndex = colIndex, ci_unique = False, ci_keys = [], ci_values = [], ci_reverse = Map.empty\<rparr>"

definition Composite_Column :: "CompositeIndex \<Rightarrow> string" where "Composite_Column idx = strings_Join (ci_columns idx) '',''"

text \<open>An index without columns has no first column: a panic.\<close>

definition Composite_ColIndex :: "CompositeIndex \<Rightarrow> nat option" where
  "Composite_ColIndex idx = (case ci_colIndex idx of [] \<Rightarrow> None | c # _ \<Rightarrow> Some c)"

definition Composite_SetUnique :: "bool \<Rightarrow> CompositeIndex \<Rightarrow> CompositeIndex" where "Composite_SetUnique u idx = idx\<lparr>ci_unique := u\<rparr>"

fun rename_first :: "string \<Rightarrow> string \<Rightarrow> string list \<Rightarrow> string list" where
  "rename_first old new [] = []"
| "rename_first old new (c # cs) = (if c = old then new # cs else c # rename_first old new cs)"

definition Composite_RenameColumn :: "string \<Rightarrow> string \<Rightarrow> CompositeIndex \<Rightarrow> CompositeIndex" where
  "Composite_RenameColumn old new idx = idx\<lparr>ci_columns := rename_first old new (ci_columns idx)\<rparr>"

definition SearchStrings :: "bytes list \<Rightarrow> bytes \<Rightarrow> nat" where
  "SearchStrings keys v = sort_search (\<lambda>i. v \<le> keys ! i) 0 (length keys)"

definition Composite_Lookup :: "CompositeIndex \<Rightarrow> bytes \<Rightarrow> int list \<times> bool" where
  "Composite_Lookup idx v =
     (let i = SearchStrings (ci_keys idx) v
      in if length (ci_keys idx) \<le> i \<or> ci_keys idx ! i \<noteq> v then ([], False) else (ci_values idx ! i, True))"

definition insert_at :: "nat \<Rightarrow> 'a \<Rightarrow> 'a list \<Rightarrow> 'a list" where "insert_at i x xs = take i xs @ x # drop i xs"

definition remove_at :: "nat \<Rightarrow> 'a list \<Rightarrow> 'a list" where "remove_at i xs = take i xs @ drop (i + 1) xs"

definition Composite_Insert :: "bytes \<Rightarrow> int \<Rightarrow> CompositeIndex \<Rightarrow> CompositeIndex" where
  "Composite_Insert v rowPos idx =
     (let i = SearchStrings (ci_keys idx) v;
          idx = (if i < length (ci_keys idx) \<and> ci_keys idx ! i = v
                 then idx\<lparr>ci_values := (ci_values idx)[i := ci_values idx ! i @ [rowPos]]\<rparr>
                 else idx\<lparr>ci_keys := insert_at i v (ci_keys idx), ci_values := insert_at i [rowPos] (ci_values idx)\<rparr>)
      in idx\<lparr>ci_reverse := (ci_reverse idx)(rowPos \<mapsto> v)\<rparr>)"

definition Composite_Delete :: "int \<Rightarrow> CompositeIndex \<Rightarrow> CompositeIndex" where
  "Composite_Delete rowPos idx =
     (case ci_reverse idx rowPos of
        None \<Rightarrow> idx
      | Some key \<Rightarrow>
          let idx = idx\<lparr>ci_reverse := (ci_reverse idx)(rowPos := None)\<rparr>;
              i = SearchStrings (ci_keys idx) key
          in if i < length (ci_keys idx) \<and> ci_keys idx ! i = key
             then let idx = idx\<lparr>ci_values := (ci_values idx)[i := remove1 rowPos (ci_values idx ! i)]\<rparr>
                  in if length (ci_values idx ! i) = 0
                     then idx\<lparr>ci_keys := remove_at i (ci_keys idx), ci_values := remove_at i (ci_values idx)\<rparr>
                     else idx
             else idx)"

text \<open>Equal keys are next to each other after sorting; each run becomes one entry.\<close>

definition group_step :: "bytes \<times> int \<Rightarrow> bytes list \<times> int list list \<Rightarrow> bytes list \<times> int list list" where
  "group_step e kv =
     (case (e, kv) of ((key, pos), (keys, values)) \<Rightarrow>
        if keys = [] \<or> key \<noteq> last keys then (keys @ [key], values @ [[pos]])
        else (keys, values[length values - 1 := values ! (length values - 1) @ [pos]]))"

definition Composite_Rebuild ::
  "((bytes \<times> int) list \<Rightarrow> (bytes \<times> int) list) \<Rightarrow> (bytes \<Rightarrow> bytes) \<Rightarrow> (f64 \<Rightarrow> bytes) \<Rightarrow> 'j IndexableRow list
    \<Rightarrow> CompositeIndex \<Rightarrow> CompositeIndex option" where
  "Composite_Rebuild srt lower fmtf rows idx =
     (let key = compositeKey lower fmtf (ci_colIndex idx);
          entries = live_entries key 0 rows; (keys, values) = fold group_step (srt entries) ([], [])
      in if \<exists>row \<in> set rows. DeletedTx row = 0 \<and> key (row_Data row) = None then None
         else Some (idx\<lparr>ci_keys := keys, ci_values := values, ci_reverse := map_of (map (\<lambda>(k, p). (p, k)) entries)\<rparr>))"

section \<open>What an index promises\<close>

text \<open>
  An index is a map from row positions to what was stored for them; a lookup gives exactly the positions that match, each
  once. A position must be free when it is inserted.
\<close>

locale index_impl =
  fixes inv :: "'i \<Rightarrow> bool"
    and key_of :: "'i \<Rightarrow> int \<rightharpoonup> 'k"
    and stored :: "bytes \<Rightarrow> 'k"
    and hit :: "'k \<Rightarrow> bytes \<Rightarrow> bool"
    and lookup :: "'i \<Rightarrow> bytes \<Rightarrow> int list \<times> bool"
    and insert :: "bytes \<Rightarrow> int \<Rightarrow> 'i \<Rightarrow> 'i"
    and delete :: "int \<Rightarrow> 'i \<Rightarrow> 'i"
  assumes lookup_law: "inv i \<Longrightarrow> set (fst (lookup i v)) = {p. \<exists>k. key_of i p = Some k \<and> hit k v} \<and> distinct (fst (lookup i v))
      \<and> (snd (lookup i v) \<longleftrightarrow> fst (lookup i v) \<noteq> [])"
    and insert_law: "inv i \<Longrightarrow> key_of i p = None \<Longrightarrow> inv (insert v p i) \<and> key_of (insert v p i) = (key_of i)(p \<mapsto> stored v)"
    and delete_law: "inv i \<Longrightarrow> inv (delete p i) \<and> key_of (delete p i) = (key_of i)(p := None)"
begin

lemma replace_law: "inv i \<Longrightarrow> inv (insert v p (delete p i)) \<and> key_of (insert v p (delete p i)) = (key_of i)(p \<mapsto> stored v)"
  using delete_law [of i p] insert_law [of "delete p i" p v] by simp

lemma fold_insert:
  "inv i \<Longrightarrow> distinct (map snd es) \<Longrightarrow> (\<forall>p \<in> snd ` set es. key_of i p = None) \<Longrightarrow>
     inv (fold (\<lambda>(v, p). insert v p) es i) \<and>
     key_of (fold (\<lambda>(v, p). insert v p) es i) = key_of i ++ map_of (map (\<lambda>(v, p). (p, stored v)) es)"
proof (induction es arbitrary: i)
  case (Cons e es)
  obtain v p where e: "e = (v, p)" by fastforce
  have i: "inv (insert v p i)" "key_of (insert v p i) = (key_of i)(p \<mapsto> stored v)" using insert_law [of i p v] Cons.prems e by auto
  have "\<forall>q \<in> snd ` set es. key_of (insert v p i) q = None" using Cons.prems e i(2) by auto
  then have "inv (fold (\<lambda>(v, p). insert v p) es (insert v p i)) \<and> key_of (fold (\<lambda>(v, p). insert v p) es (insert v p i))
      = (key_of i)(p \<mapsto> stored v) ++ map_of (map (\<lambda>(v, p). (p, stored v)) es)" using Cons.IH [OF i(1)] Cons.prems(2) i(2) by (simp add: fun_upd_def)
  moreover have "map_of (map (\<lambda>(v, p). (p, stored v)) es) p = None"
    using Cons.prems(2) e by (force simp: map_of_eq_None_iff)
  ultimately show ?case using e by (auto simp: map_add_def fun_eq_iff split: option.splits)
qed simp

end

text \<open>The operations of a client, and the table they keep: which position has which key.\<close>

datatype index_op = Ins bytes int | Del int

fun index_spec :: "(bytes \<Rightarrow> 'k) \<Rightarrow> index_op \<Rightarrow> (int \<rightharpoonup> 'k) \<Rightarrow> int \<rightharpoonup> 'k" where
  "index_spec stored (Ins v p) m = m(p \<mapsto> stored v)"
| "index_spec stored (Del p) m = m(p := None)"

fun index_exec :: "(bytes \<Rightarrow> int \<Rightarrow> 'i \<Rightarrow> 'i) \<Rightarrow> (int \<Rightarrow> 'i \<Rightarrow> 'i) \<Rightarrow> index_op \<Rightarrow> 'i \<Rightarrow> 'i" where
  "index_exec ins del (Ins v p) i = ins v p i"
| "index_exec ins del (Del p) i = del p i"

fun free_inserts :: "index_op list \<Rightarrow> int set \<Rightarrow> bool" where
  "free_inserts [] used = True"
| "free_inserts (Ins v p # ops) used = (p \<notin> used \<and> free_inserts ops (Set.insert p used))"
| "free_inserts (Del p # ops) used = free_inserts ops (used - {p})"

context index_impl
begin

lemma run_law: "inv i \<Longrightarrow> free_inserts ops (dom (key_of i)) \<Longrightarrow>
    inv (fold (index_exec insert delete) ops i) \<and> key_of (fold (index_exec insert delete) ops i) = fold (index_spec stored) ops (key_of i)"
proof (induction ops arbitrary: i)
  case (Cons x ops)
  show ?case
  proof (cases x)
    case (Ins v p)
    then have l: "inv (insert v p i)" "key_of (insert v p i) = (key_of i)(p \<mapsto> stored v)" using Cons.prems insert_law [of i p v] by auto
    have "dom (key_of (insert v p i)) = Set.insert p (dom (key_of i))" unfolding l(2) by simp
    then have "free_inserts ops (dom (key_of (insert v p i)))" using Cons.prems(2) Ins by simp
    from Cons.IH [OF l(1) this] show ?thesis using Ins by (simp only: l(2) fold.simps comp_apply index_exec.simps index_spec.simps simp_thms)
  next
    case (Del p)
    have l: "inv (delete p i)" "key_of (delete p i) = (key_of i)(p := None)" using Cons.prems delete_law [of i p] by auto
    have "dom (key_of (delete p i)) = dom (key_of i) - {p}" unfolding l(2) by simp
    then have "free_inserts ops (dom (key_of (delete p i)))" using Cons.prems(2) Del by simp
    from Cons.IH [OF l(1) this] show ?thesis using Del by (simp only: l(2) fold.simps comp_apply index_exec.simps index_spec.simps simp_thms)
  qed
qed simp

lemma run_lookup:
  assumes "inv i" "free_inserts ops (dom (key_of i))"
  shows "set (fst (lookup (fold (index_exec insert delete) ops i) v)) = {p. \<exists>k. fold (index_spec stored) ops (key_of i) p = Some k \<and> hit k v}
    \<and> distinct (fst (lookup (fold (index_exec insert delete) ops i) v))
    \<and> (snd (lookup (fold (index_exec insert delete) ops i) v) \<longleftrightarrow> fst (lookup (fold (index_exec insert delete) ops i) v) \<noteq> [])"
  using run_law [OF assms] lookup_law by simp

end

section \<open>Lists of positions by key\<close>

text \<open>The common view of the three indexes: the positions of each key, none of them empty, and the reverse map.\<close>

definition multi_ok :: "(bytes \<rightharpoonup> int list) \<Rightarrow> (int \<rightharpoonup> bytes) \<Rightarrow> bool" where
  "multi_ok data r \<longleftrightarrow> (\<forall>k. set (or_nil (data k)) = {p. r p = Some k} \<and> distinct (or_nil (data k)) \<and> data k \<noteq> Some [])"

lemma multi_ok_empty [simp]: "multi_ok Map.empty Map.empty"
  by (simp add: multi_ok_def or_nil_def)

lemma multi_ok_insert: "multi_ok d r \<Longrightarrow> r p = None \<Longrightarrow> multi_ok (d(k \<mapsto> or_nil (d k) @ [p])) (r(p \<mapsto> k))"
  by (auto simp: multi_ok_def or_nil_def split: option.splits if_splits)

lemma multi_ok_delete:
  assumes "multi_ok d r" "r p = Some k" "d k = Some ps" "mset ps' = mset ps - {#p#}"
  shows "multi_ok (d(k := if ps' = [] then None else Some ps')) (r(p := None))"
proof -
  have ps: "set ps = {p. r p = Some k}" "distinct ps" using assms(1,3) by (auto simp: multi_ok_def or_nil_def dest!: spec [where x = k])
  have m: "mset ps' = mset (remove1 p ps)" using assms(4) by simp
  have "distinct ps'" using m ps(2) by (metis distinct_remove1 mset_eq_imp_distinct_iff)
  moreover have "set ps' = set ps - {p}" using mset_eq_setD [OF m] ps(2) by (simp add: set_remove1_eq)
  ultimately show ?thesis using assms(1,2) ps(1) by (auto simp: multi_ok_def or_nil_def)
qed

lemma multi_ok_mem: "multi_ok d r \<Longrightarrow> r p = Some k \<Longrightarrow> \<exists>ps. d k = Some ps \<and> p \<in> set ps"
  by (cases "d k") (auto simp: multi_ok_def or_nil_def dest!: spec [where x = k])

lemma multi_ok_lookup: "multi_ok d r \<Longrightarrow> set (or_nil (d v)) = {p. \<exists>k. r p = Some k \<and> k = v} \<and> distinct (or_nil (d v)) \<and> (d v \<noteq> None \<longleftrightarrow> or_nil (d v) \<noteq> [])"
  by (auto simp: multi_ok_def or_nil_def split: option.splits dest!: spec [where x = v])

lemma swap_remove_mset: "mset (swap_remove p ps) = mset ps - {#p#}"
proof (cases "p \<in> set ps")
  case True
  then obtain xs ys where ps: "ps = xs @ p # ys" "p \<notin> set xs" by (metis split_list_first)
  have t: "takeWhile (\<lambda>x. x \<noteq> p) ps = xs" unfolding ps(1) using ps(2) by (induction xs) auto
  show ?thesis
  proof (cases ys rule: rev_cases)
    case Nil
    then show ?thesis using t ps(1) by (simp add: swap_remove_def)
  next
    case (snoc zs z)
    then show ?thesis using t ps(1) by (simp add: swap_remove_def butlast_append)
  qed
next
  case False
  then have "takeWhile (\<lambda>x. x \<noteq> p) ps = ps" by (simp add: takeWhile_eq_all_conv) blast
  then show ?thesis using False by (simp only: swap_remove_def Let_def) simp
qed

section \<open>The hash index keeps its promise\<close>

definition hash_inv :: "HashIndex \<Rightarrow> bool" where "hash_inv idx = multi_ok (hi_data idx) (hi_reverse idx)"

lemma Hash_Delete_ok: "hash_inv idx \<Longrightarrow> hash_inv (Hash_Delete p idx) \<and> hi_reverse (Hash_Delete p idx) = (hi_reverse idx)(p := None)"
proof (cases "hi_reverse idx p")
  case (Some key)
  assume i: "hash_inv idx"
  obtain ps where ps: "hi_data idx key = Some ps" "p \<in> set ps" using multi_ok_mem [OF i [unfolded hash_inv_def] Some] by auto
  have "Hash_Delete p idx = idx\<lparr>hi_reverse := (hi_reverse idx)(p := None),
      hi_data := (hi_data idx)(key := if swap_remove p ps = [] then None else Some (swap_remove p ps))\<rparr>"
    using Some ps by (simp add: Hash_Delete_def or_nil_def Let_def)
  then show ?thesis
    using multi_ok_delete [OF i [unfolded hash_inv_def] Some ps(1) swap_remove_mset] by (simp add: hash_inv_def)
qed (simp add: Hash_Delete_def fun_upd_idem)

interpretation hash: index_impl hash_inv hi_reverse "\<lambda>v. v" "(=)" Hash_Lookup Hash_Insert Hash_Delete
proof
  show "hash_inv i \<Longrightarrow> set (fst (Hash_Lookup i v)) = {p. \<exists>k. hi_reverse i p = Some k \<and> k = v} \<and> distinct (fst (Hash_Lookup i v))
      \<and> (snd (Hash_Lookup i v) \<longleftrightarrow> fst (Hash_Lookup i v) \<noteq> [])" for i v
    using multi_ok_lookup [of "hi_data i" "hi_reverse i" v] by (auto simp: hash_inv_def Hash_Lookup_def or_nil_def split: option.splits)
  show "hash_inv (Hash_Insert v p i) \<and> hi_reverse (Hash_Insert v p i) = (hi_reverse i)(p \<mapsto> v)" if "hash_inv i" "hi_reverse i p = None" for i p v
    using that by (simp add: hash_inv_def Hash_Insert_def multi_ok_insert)
qed (rule Hash_Delete_ok)

section \<open>The B-tree index keeps its promise\<close>

text \<open>The documented behaviour of \<^verbatim>\<open>google/btree\<close>, for the trees \<open>good\<close> that its operations build.\<close>

definition gbtree_ok :: "'t gbtree \<Rightarrow> ('t \<Rightarrow> bool) \<Rightarrow> bool" where
  "gbtree_ok B good \<longleftrightarrow>
     good (gb_New B) \<and> gb_Ascend B (gb_New B) = [] \<and>
     (\<forall>t. good t \<longrightarrow>
        sorted_wrt (<) (map fst (gb_Ascend B t)) \<and> gb_Len B t = length (gb_Ascend B t)
        \<and> (\<forall>k. gb_Get B t k = map_option (\<lambda>a. (k, a)) (map_of (gb_Ascend B t) k))
        \<and> (\<forall>k. gb_AscendGreaterOrEqual B k t = filter (\<lambda>e. k \<le> fst e) (gb_Ascend B t))
        \<and> (\<forall>k a. good (gb_ReplaceOrInsert B (k, a) t) \<and> map_of (gb_Ascend B (gb_ReplaceOrInsert B (k, a) t)) = (map_of (gb_Ascend B t))(k \<mapsto> a))
        \<and> (\<forall>k. good (gb_Delete B k t) \<and> map_of (gb_Ascend B (gb_Delete B k t)) = (map_of (gb_Ascend B t))(k := None)))"

definition bt_addr :: "'t gbtree \<Rightarrow> ('t, 'c) BTreeIndex \<Rightarrow> bytes \<rightharpoonup> nat" where
  "bt_addr B idx = map_of (gb_Ascend B (bt_tree idx))"

definition bt_data :: "'t gbtree \<Rightarrow> ('t, 'c) BTreeIndex \<Rightarrow> bytes \<rightharpoonup> int list" where
  "bt_data B idx k = map_option (bt_store idx) (bt_addr B idx k)"

text \<open>Each entry has its own address below the next free one.\<close>

definition bt_alloc :: "'t gbtree \<Rightarrow> ('t \<Rightarrow> bool) \<Rightarrow> ('t, 'c) BTreeIndex \<Rightarrow> bool" where
  "bt_alloc B good idx \<longleftrightarrow> good (bt_tree idx) \<and> (\<forall>k a. bt_addr B idx k = Some a \<longrightarrow> a < bt_next idx)
     \<and> (\<forall>k k' a. bt_addr B idx k = Some a \<and> bt_addr B idx k' = Some a \<longrightarrow> k = k')"

definition bt_inv :: "'t gbtree \<Rightarrow> ('t \<Rightarrow> bool) \<Rightarrow> ('t, 'c) BTreeIndex \<Rightarrow> bool" where
  "bt_inv B good idx \<longleftrightarrow> bt_alloc B good idx \<and> multi_ok (bt_data B idx) (bt_reverse idx)"

lemma bt_Get: "gbtree_ok B good \<Longrightarrow> bt_alloc B good idx \<Longrightarrow> gb_Get B (bt_tree idx) k = map_option (\<lambda>a. (k, a)) (bt_addr B idx k)"
  by (simp add: gbtree_ok_def bt_alloc_def bt_addr_def)

lemma NewBTreeIndex_ok:
  assumes "gbtree_ok B good"
  shows "bt_inv B good (NewBTreeIndex B name column ci) \<and> bt_reverse (NewBTreeIndex B name column ci) = Map.empty"
proof -
  have a: "bt_addr B (NewBTreeIndex B name column ci) = Map.empty" using assms by (simp add: bt_addr_def NewBTreeIndex_def gbtree_ok_def)
  have d: "bt_data B (NewBTreeIndex B name column ci) = Map.empty" using a by (simp add: bt_data_def fun_eq_iff)
  have r: "bt_reverse (NewBTreeIndex B name column ci) = Map.empty" by (simp add: NewBTreeIndex_def)
  have "good (bt_tree (NewBTreeIndex B name column ci))" using assms by (simp add: NewBTreeIndex_def gbtree_ok_def)
  then show ?thesis unfolding bt_inv_def bt_alloc_def a d r by (simp add: NewBTreeIndex_def)
qed

lemma bt_new_entry_ok:
  assumes B: "gbtree_ok B good" and i: "bt_alloc B good idx" and None: "bt_addr B idx v = None"
  shows "bt_alloc B good (bt_new_entry B (v, ps) idx) \<and> bt_data B (bt_new_entry B (v, ps) idx) = (bt_data B idx)(v \<mapsto> ps)
    \<and> bt_addr B (bt_new_entry B (v, ps) idx) = (bt_addr B idx)(v \<mapsto> bt_next idx)"
proof -
  define j where "j = bt_new_entry B (v, ps) idx"
  have a: "bt_addr B j = (bt_addr B idx)(v \<mapsto> bt_next idx)" "good (bt_tree j)"
    using B i by (simp_all add: j_def bt_new_entry_def gbtree_ok_def bt_alloc_def bt_addr_def)
  have st: "bt_store j = (bt_store idx)(bt_next idx := ps)" "bt_next j = bt_next idx + 1" by (simp_all add: j_def bt_new_entry_def)
  have lt: "bt_addr B idx k = Some a \<Longrightarrow> a < bt_next idx" for k a using i by (simp add: bt_alloc_def)
  have "bt_data B j k = ((bt_data B idx)(v \<mapsto> ps)) k" for k
  proof (cases "k = v")
    case False
    then show ?thesis using lt [of k] unfolding bt_data_def a(1) st by (cases "bt_addr B idx k") (auto simp: bt_data_def)
  qed (unfold bt_data_def a(1) st, simp)
  then have "bt_data B j = (bt_data B idx)(v \<mapsto> ps)" ..
  moreover have "bt_alloc B good j"
    unfolding bt_alloc_def a(1) st using a(2) lt i by (auto simp: bt_alloc_def less_Suc_eq split: if_splits)
  ultimately show ?thesis using a(1) by (simp add: j_def)
qed

lemma bt_add_ok:
  assumes B: "gbtree_ok B good" and i: "bt_alloc B good idx"
  shows "bt_alloc B good (bt_add B v p idx) \<and> bt_data B (bt_add B v p idx) = (bt_data B idx)(v \<mapsto> or_nil (bt_data B idx v) @ [p])
    \<and> bt_reverse (bt_add B v p idx) = bt_reverse idx"
proof (cases "bt_addr B idx v")
  case None
  have add: "bt_add B v p idx = bt_new_entry B (v, [p]) idx" using bt_Get [OF B i, of v] None by (simp add: bt_add_def)
  have "bt_data B idx v = None" using None by (simp add: bt_data_def)
  then show ?thesis unfolding add using bt_new_entry_ok [OF B i None, of "[p]"] by (simp add: or_nil_def) (simp add: bt_new_entry_def)
next
  case (Some a)
  let ?i = "idx\<lparr>bt_store := (bt_store idx)(a := bt_store idx a @ [p])\<rparr>"
  have add: "bt_add B v p idx = ?i" using bt_Get [OF B i, of v] Some by (simp add: bt_add_def)
  have ad: "bt_addr B ?i = bt_addr B idx" by (simp add: bt_addr_def)
  have inj: "bt_addr B idx k \<noteq> Some a" if "k \<noteq> v" for k using i that Some unfolding bt_alloc_def by blast
  have "bt_data B ?i k = ((bt_data B idx)(v \<mapsto> bt_store idx a @ [p])) k" for k
  proof (cases "k = v")
    case False
    then show ?thesis using inj [OF False] unfolding bt_data_def ad by (cases "bt_addr B idx k") (simp_all add: bt_data_def)
  qed (use Some in \<open>simp add: bt_data_def ad\<close>)
  then have "bt_data B ?i = (bt_data B idx)(v \<mapsto> bt_store idx a @ [p])" ..
  moreover have "bt_alloc B good ?i" using i unfolding bt_alloc_def ad by simp
  ultimately show ?thesis unfolding add using Some by (simp add: or_nil_def bt_data_def)
qed

lemma BTree_Insert_ok:
  assumes "gbtree_ok B good" "bt_inv B good idx" "bt_reverse idx p = None"
  shows "bt_inv B good (BTree_Insert B v p idx) \<and> bt_reverse (BTree_Insert B v p idx) = (bt_reverse idx)(p \<mapsto> v)"
proof -
  note a = bt_add_ok [OF assms(1) assms(2) [unfolded bt_inv_def, THEN conjunct1], of v p]
  define i where "i = bt_add B v p idx"
  have e: "BTree_Insert B v p idx = i\<lparr>bt_reverse := (bt_reverse i)(p \<mapsto> v)\<rparr>" by (simp add: BTree_Insert_def i_def Let_def)
  have d: "bt_data B (i\<lparr>bt_reverse := r\<rparr>) = bt_data B i" "bt_alloc B good (i\<lparr>bt_reverse := r\<rparr>) = bt_alloc B good i" for r
    by (simp_all add: fun_eq_iff bt_data_def bt_addr_def bt_alloc_def)
  show ?thesis
    using a multi_ok_insert [of "bt_data B idx" "bt_reverse idx" p v] assms(2,3) unfolding e bt_inv_def d by (simp add: i_def)
qed

lemma BTree_Delete_ok:
  assumes B: "gbtree_ok B good" and i: "bt_inv B good idx"
  shows "bt_inv B good (BTree_Delete B p idx) \<and> bt_reverse (BTree_Delete B p idx) = (bt_reverse idx)(p := None)"
proof (cases "bt_reverse idx p")
  case (Some key)
  have al: "bt_alloc B good idx" and m: "multi_ok (bt_data B idx) (bt_reverse idx)" using i by (simp_all add: bt_inv_def)
  obtain a where a: "bt_addr B idx key = Some a" using multi_ok_mem [OF m Some] by (auto simp: bt_data_def)
  define ps where "ps = swap_remove p (bt_store idx a)"
  define j where "j = idx\<lparr>bt_reverse := (bt_reverse idx)(p := None), bt_storedCols := AList.delete p (bt_storedCols idx),
      bt_store := (bt_store idx)(a := ps), bt_tree := if ps = [] then gb_Delete B key (bt_tree idx) else bt_tree idx\<rparr>"
  have j: "BTree_Delete B p idx = j" using bt_Get [OF B al, of key] Some a by (simp add: BTree_Delete_def j_def ps_def Let_def)
  have ad: "bt_addr B j = (if ps = [] then (bt_addr B idx)(key := None) else bt_addr B idx)" "good (bt_tree j)"
    using B al by (simp_all add: j_def gbtree_ok_def bt_alloc_def bt_addr_def)
  have st: "bt_store j = (bt_store idx)(a := ps)" by (simp add: j_def)
  have inj: "bt_addr B idx k \<noteq> Some a" if "k \<noteq> key" for k using al that a unfolding bt_alloc_def by blast
  have "bt_data B j k = ((bt_data B idx)(key := if ps = [] then None else Some ps)) k" for k
  proof (cases "k = key")
    case False
    then show ?thesis using inj [OF False] unfolding bt_data_def ad(1) st by (cases "bt_addr B idx k") (simp_all add: bt_data_def)
  qed (use a in \<open>simp add: bt_data_def ad(1) st\<close>)
  then have "bt_data B j = (bt_data B idx)(key := if ps = [] then None else Some ps)" ..
  moreover have "bt_alloc B good j" using al ad(2) unfolding bt_alloc_def ad(1) by (auto simp: j_def split: if_splits)
  moreover have "multi_ok ((bt_data B idx)(key := if ps = [] then None else Some ps)) ((bt_reverse idx)(p := None))"
    by (rule multi_ok_delete [OF m Some, of "bt_store idx a"]) (use a in \<open>simp_all add: bt_data_def ps_def swap_remove_mset\<close>)
  ultimately show ?thesis unfolding j by (simp add: bt_inv_def j_def)
qed (use i in \<open>simp add: BTree_Delete_def fun_upd_idem\<close>)

lemma btree_index_impl:
  assumes B: "gbtree_ok B good"
  shows "index_impl (bt_inv B good) bt_reverse (\<lambda>v. v) (=) (BTree_Lookup B) (BTree_Insert B) (BTree_Delete B)"
proof
  fix i :: "('a, 'b) BTreeIndex" and v
  assume i: "bt_inv B good i"
  then have "fst (BTree_Lookup B i v) = or_nil (bt_data B i v) \<and> (snd (BTree_Lookup B i v) \<longleftrightarrow> bt_data B i v \<noteq> None)"
    using bt_Get [OF B, of i v] by (auto simp: bt_inv_def BTree_Lookup_def bt_data_def or_nil_def split: option.splits)
  then show "set (fst (BTree_Lookup B i v)) = {p. \<exists>k. bt_reverse i p = Some k \<and> k = v} \<and> distinct (fst (BTree_Lookup B i v))
      \<and> (snd (BTree_Lookup B i v) \<longleftrightarrow> fst (BTree_Lookup B i v) \<noteq> [])"
    using multi_ok_lookup [of "bt_data B i" "bt_reverse i" v] i by (simp add: bt_inv_def)
qed (rule BTree_Insert_ok [OF B], assumption, assumption, rule BTree_Delete_ok [OF B])

text \<open>A range is a sublist of the entries in the order of their keys.\<close>

lemma takeWhile_sorted:
  fixes high :: "'a::linorder"
  shows "sorted_wrt (<) (map fst es) \<Longrightarrow> takeWhile (\<lambda>e. \<not> high < fst e) es = filter (\<lambda>e. fst e \<le> high) es"
proof (induction es)
  case (Cons e es)
  show ?case
  proof (cases "high < fst e")
    case True
    then have "\<forall>x \<in> set es. \<not> fst x \<le> high" using Cons.prems by (auto simp: not_le dest: less_trans)
    then show ?thesis using True by simp
  qed (use Cons in simp)
qed simp

lemma sorted_groups:
  assumes "sorted_wrt (<) (map fst es)" "\<And>e. e \<in> set es \<Longrightarrow> distinct (f e) \<and> (\<forall>p \<in> set (f e). r p = Some (fst e))"
  shows "distinct (concat (map f es)) \<and> sorted (map (\<lambda>p. the (r p)) (concat (map f es)))"
  using assms
proof (induction es)
  case (Cons e es)
  have key: "\<exists>e' \<in> set es. r p = Some (fst e')" if "p \<in> set (concat (map f es))" for p using that Cons.prems(2) by force
  have lt: "fst e < fst e'" if "e' \<in> set es" for e' using Cons.prems(1) that by simp
  have "r p \<noteq> Some (fst e)" if "p \<in> set (concat (map f es))" for p
    using key [OF that] lt by (metis less_irrefl option.inject)
  then have "set (f e) \<inter> set (concat (map f es)) = {}" using Cons.prems(2) [of e] by fastforce
  moreover have "map (\<lambda>p. the (r p)) (f e) = replicate (length (f e)) (fst e)" using Cons.prems(2) [of e] by (intro replicate_eqI) auto
  moreover have "fst e \<le> the (r p)" if "p \<in> set (concat (map f es))" for p using key [OF that] lt by force
  ultimately show ?case using Cons by (auto simp: sorted_append distinct_append)
qed simp

lemma Range_ok:
  assumes B: "gbtree_ok B good" and i: "bt_inv B good idx"
  shows "set (Range B idx low high) = {p. \<exists>k. bt_reverse idx p = Some k \<and> low \<le> k \<and> k \<le> high} \<and> distinct (Range B idx low high)
    \<and> sorted (map (\<lambda>p. the (bt_reverse idx p)) (Range B idx low high))"
proof -
  define A where "A = gb_Ascend B (bt_tree idx)"
  define es where "es = filter (\<lambda>e. low \<le> fst e \<and> fst e \<le> high) A"
  have so: "sorted_wrt (<) (map fst A)" "gb_AscendGreaterOrEqual B low (bt_tree idx) = filter (\<lambda>e. low \<le> fst e) A"
    using B i by (simp_all add: gbtree_ok_def bt_inv_def bt_alloc_def A_def)
  have dist: "distinct (map fst A)" using so(1) by (simp add: strict_sorted_iff)
  have "sorted_wrt (<) (map fst (filter (\<lambda>e. low \<le> fst e) A))" using so(1) by (simp add: sorted_wrt_map sorted_wrt_filter)
  then have R: "Range B idx low high = concat (map (\<lambda>e. bt_store idx (snd e)) es)"
    unfolding Range_def so(2) by (simp add: takeWhile_sorted es_def filter_filter conj_commute)
  have d: "or_nil (bt_data B idx (fst e)) = bt_store idx (snd e)" if "e \<in> set A" for e
    using map_of_is_SomeI [OF dist, of "fst e" "snd e"] that by (simp add: bt_data_def bt_addr_def A_def or_nil_def)
  have m: "multi_ok (bt_data B idx) (bt_reverse idx)" using i by (simp add: bt_inv_def)
  have e: "set (bt_store idx (snd e)) = {p. bt_reverse idx p = Some (fst e)} \<and> distinct (bt_store idx (snd e))" if "e \<in> set A" for e
    using m d [OF that] unfolding multi_ok_def by metis
  have "\<exists>e \<in> set A. fst e = k" if k: "bt_reverse idx p = Some k" for p k
  proof -
    obtain a where "map_of A k = Some a" using multi_ok_mem [OF m k] by (auto simp: bt_data_def bt_addr_def A_def)
    then show ?thesis using map_of_SomeD by force
  qed
  then have "set (Range B idx low high) = {p. \<exists>k. bt_reverse idx p = Some k \<and> low \<le> k \<and> k \<le> high}"
    unfolding R es_def using e by force
  moreover have "sorted_wrt (<) (map fst es)" using so(1) by (simp add: es_def sorted_wrt_map sorted_wrt_filter)
  ultimately show ?thesis
    using sorted_groups [of es "\<lambda>e. bt_store idx (snd e)" "bt_reverse idx"] e unfolding R by (simp add: es_def)
qed

section \<open>The composite index keeps its promise\<close>

definition comp_inv :: "CompositeIndex \<Rightarrow> bool" where
  "comp_inv idx \<longleftrightarrow> sorted_wrt (<) (ci_keys idx) \<and> length (ci_keys idx) = length (ci_values idx)
     \<and> multi_ok (map_of (zip (ci_keys idx) (ci_values idx))) (ci_reverse idx)"

lemma map_of_zip_update:
  "length ks = length vs \<Longrightarrow> distinct ks \<Longrightarrow> i < length ks \<Longrightarrow> map_of (zip ks (vs[i := x])) = (map_of (zip ks vs))(ks ! i \<mapsto> x)"
proof (induction ks arbitrary: vs i)
  case (Cons k ks)
  then obtain v vs' where vs: "vs = v # vs'" by (cases vs) auto
  show ?case
  proof (cases i)
    case (Suc j)
    then have "ks ! j \<in> set ks" using Cons.prems by simp
    then have "k \<noteq> ks ! j" using Cons.prems by auto
    then show ?thesis using Cons Suc vs by (auto simp: fun_eq_iff)
  qed (use vs in \<open>simp add: fun_eq_iff\<close>)
qed simp

lemma zip_split: "length ks = length vs \<Longrightarrow> zip ks vs = zip (take i ks) (take i vs) @ zip (drop i ks) (drop i vs)"
  by (metis append_take_drop_id length_take zip_append)

lemma map_of_zip_insert_at:
  assumes "length ks = length vs" "k \<notin> set ks"
  shows "map_of (zip (insert_at i k ks) (insert_at i x vs)) = (map_of (zip ks vs))(k \<mapsto> x)"
proof -
  have z: "zip (insert_at i k ks) (insert_at i x vs) = zip (take i ks) (take i vs) @ (k, x) # zip (drop i ks) (drop i vs)"
    using assms(1) by (simp add: insert_at_def)
  have "k \<notin> set (take i ks)" using assms(2) in_set_takeD by fast
  then have "map_of (zip (take i ks) (take i vs)) k = None" using assms(1) by (simp add: map_of_zip_is_None)
  then show ?thesis unfolding z zip_split [OF assms(1), of i] by (auto simp: fun_eq_iff map_add_def split: option.splits)
qed

lemma map_of_zip_remove_at:
  assumes "length ks = length vs" "distinct ks" "i < length ks"
  shows "map_of (zip (remove_at i ks) (remove_at i vs)) = (map_of (zip ks vs))(ks ! i := None)"
proof -
  have ks: "ks = take i ks @ ks ! i # drop (Suc i) ks" and vs: "vs = take i vs @ vs ! i # drop (Suc i) vs"
    using assms id_take_nth_drop by (metis, metis)
  have z: "zip ks vs = zip (take i ks) (take i vs) @ (ks ! i, vs ! i) # zip (drop (Suc i) ks) (drop (Suc i) vs)"
    using zip_split [OF assms(1), of i] assms(1,3) by (simp add: Cons_nth_drop_Suc [symmetric])
  have r: "zip (remove_at i ks) (remove_at i vs) = zip (take i ks) (take i vs) @ zip (drop (Suc i) ks) (drop (Suc i) vs)"
    using assms(1) by (simp add: remove_at_def)
  have n: "ks ! i \<notin> set (take i ks)" "ks ! i \<notin> set (drop (Suc i) ks)" using assms(2) ks by (metis distinct_append not_distinct_conv_prefix disjoint_insert(1) list.set(2), metis distinct.simps(2) distinct_append)
  have "map_of (zip (take i ks) (take i vs)) (ks ! i) = None" "map_of (zip (drop (Suc i) ks) (drop (Suc i) vs)) (ks ! i) = None"
    using n assms(1) by (simp_all add: map_of_zip_is_None)
  then show ?thesis unfolding z r by (auto simp: fun_eq_iff map_add_def split: option.splits)
qed

lemma length_insert_at [simp]: "length (insert_at i x xs) = Suc (length xs)"
  by (simp add: insert_at_def)

lemma sorted_remove_at:
  assumes "sorted_wrt P xs"
  shows "sorted_wrt P (remove_at i xs)"
proof -
  have "sorted_wrt P (take i xs @ drop i xs)" using assms by simp
  then have "\<forall>x \<in> set (take i xs). \<forall>y \<in> set (drop i xs). P x y" unfolding sorted_wrt_append by blast
  moreover have "set (drop (i + 1) xs) \<subseteq> set (drop i xs)" by (rule set_drop_subset_set_drop) simp
  ultimately show ?thesis using assms unfolding remove_at_def sorted_wrt_append by (blast intro: sorted_wrt_take sorted_wrt_drop)
qed

lemma SearchStrings_mem:
  assumes "sorted_wrt (<) keys"
  shows "(SearchStrings keys v < length keys \<and> keys ! SearchStrings keys v = v) = (v \<in> set keys)"
    and "v \<notin> set keys \<Longrightarrow> sorted_wrt (<) (insert_at (SearchStrings keys v) v keys)"
  using insert_slot [OF assms, of v] by (simp_all add: SearchStrings_def insert_at_def)

lemma comp_found:
  fixes v :: bytes
  assumes "comp_inv idx"
  defines "i \<equiv> SearchStrings (ci_keys idx) v"
  shows "(i < length (ci_keys idx) \<and> ci_keys idx ! i = v) = (map_of (zip (ci_keys idx) (ci_values idx)) v \<noteq> None)"
    "i < length (ci_keys idx) \<Longrightarrow> ci_keys idx ! i = v \<Longrightarrow> map_of (zip (ci_keys idx) (ci_values idx)) v = Some (ci_values idx ! i)"
proof -
  have d: "sorted_wrt (<) (ci_keys idx)" "length (ci_keys idx) = length (ci_values idx)" "distinct (ci_keys idx)"
    using assms(1) by (auto simp: comp_inv_def strict_sorted_iff)
  show "(i < length (ci_keys idx) \<and> ci_keys idx ! i = v) = (map_of (zip (ci_keys idx) (ci_values idx)) v \<noteq> None)"
    unfolding i_def SearchStrings_mem(1) [OF d(1)] using d(2) by (simp add: map_of_zip_is_None)
  show "i < length (ci_keys idx) \<Longrightarrow> ci_keys idx ! i = v \<Longrightarrow> map_of (zip (ci_keys idx) (ci_values idx)) v = Some (ci_values idx ! i)"
    using map_of_zip_nth [OF d(2,3), of i] d(2) by simp
qed

lemma Composite_Insert_ok:
  assumes i: "comp_inv idx" and "ci_reverse idx p = None"
  shows "comp_inv (Composite_Insert v p idx) \<and> ci_reverse (Composite_Insert v p idx) = (ci_reverse idx)(p \<mapsto> v)"
proof -
  let ?i = "SearchStrings (ci_keys idx) v"
  have d: "sorted_wrt (<) (ci_keys idx)" "length (ci_keys idx) = length (ci_values idx)" "distinct (ci_keys idx)"
    using i by (auto simp: comp_inv_def strict_sorted_iff)
  have m: "multi_ok ((map_of (zip (ci_keys idx) (ci_values idx)))(v \<mapsto> or_nil (map_of (zip (ci_keys idx) (ci_values idx)) v) @ [p])) ((ci_reverse idx)(p \<mapsto> v))"
    using i assms(2) by (intro multi_ok_insert) (simp_all add: comp_inv_def)
  show ?thesis
  proof (cases "?i < length (ci_keys idx) \<and> ci_keys idx ! ?i = v")
    case True
    then show ?thesis using m comp_found(2) [OF i, of v] map_of_zip_update [OF d(2,3), of ?i "ci_values idx ! ?i @ [p]"] d
      by (simp add: Composite_Insert_def comp_inv_def or_nil_def Let_def)
  next
    case False
    then have n: "v \<notin> set (ci_keys idx)" using SearchStrings_mem(1) [OF d(1), of v] by simp
    then have "map_of (zip (ci_keys idx) (ci_values idx)) v = None" using d(2) by (simp add: map_of_zip_is_None)
    then have o: "or_nil (map_of (zip (ci_keys idx) (ci_values idx)) v) = []" by (simp only: or_nil_def option.case)
    have e: "Composite_Insert v p idx = idx\<lparr>ci_keys := insert_at ?i v (ci_keys idx), ci_values := insert_at ?i [p] (ci_values idx),
        ci_reverse := (ci_reverse idx)(p \<mapsto> v)\<rparr>" using False by (auto simp: Composite_Insert_def Let_def)
    show ?thesis using m SearchStrings_mem(2) [OF d(1) n] d(2) unfolding e o comp_inv_def
      by (simp add: map_of_zip_insert_at [OF d(2) n, of ?i "[p]"])
  qed
qed

lemma Composite_Delete_ok:
  assumes i: "comp_inv idx"
  shows "comp_inv (Composite_Delete p idx) \<and> ci_reverse (Composite_Delete p idx) = (ci_reverse idx)(p := None)"
proof (cases "ci_reverse idx p")
  case (Some key)
  let ?i = "SearchStrings (ci_keys idx) key"
  let ?ps = "remove1 p (ci_values idx ! ?i)"
  have d: "sorted_wrt (<) (ci_keys idx)" "length (ci_keys idx) = length (ci_values idx)" "distinct (ci_keys idx)"
    and m: "multi_ok (map_of (zip (ci_keys idx) (ci_values idx))) (ci_reverse idx)"
    using i by (auto simp: comp_inv_def strict_sorted_iff)
  have f: "?i < length (ci_keys idx)" "ci_keys idx ! ?i = key" using comp_found(1) [OF i, of key] multi_ok_mem [OF m Some] by auto
  have m': "multi_ok ((map_of (zip (ci_keys idx) (ci_values idx)))(key := if ?ps = [] then None else Some ?ps)) ((ci_reverse idx)(p := None))"
    using multi_ok_delete [OF m Some comp_found(2) [OF i f]] by simp
  have del: "Composite_Delete p idx = (if ?ps = []
      then idx\<lparr>ci_reverse := (ci_reverse idx)(p := None), ci_keys := remove_at ?i (ci_keys idx), ci_values := remove_at ?i ((ci_values idx)[?i := ?ps])\<rparr>
      else idx\<lparr>ci_reverse := (ci_reverse idx)(p := None), ci_values := (ci_values idx)[?i := ?ps]\<rparr>)"
    using Some f d(2) by (simp add: Composite_Delete_def Let_def)
  have r: "remove_at ?i ((ci_values idx)[?i := ?ps]) = remove_at ?i (ci_values idx)" by (simp add: remove_at_def)
  have so: "sorted_wrt (<) (remove_at ?i (ci_keys idx))"
    using d(1) by (rule sorted_remove_at)
  show ?thesis
  proof (cases "?ps = []")
    case True
    then show ?thesis using m' so map_of_zip_remove_at [OF d(2,3) f(1)] f(2) d(2) unfolding del r
      by (simp add: comp_inv_def) (simp add: remove_at_def)
  next
    case False
    then show ?thesis using m' map_of_zip_update [OF d(2,3) f(1), of ?ps] f(2) d unfolding del by (simp add: comp_inv_def)
  qed
qed (use i in \<open>simp add: Composite_Delete_def fun_upd_idem\<close>)

interpretation composite: index_impl comp_inv ci_reverse "\<lambda>v. v" "(=)" Composite_Lookup Composite_Insert Composite_Delete
proof
  fix i v
  assume i: "comp_inv i"
  then have "fst (Composite_Lookup i v) = or_nil (map_of (zip (ci_keys i) (ci_values i)) v)
      \<and> (snd (Composite_Lookup i v) \<longleftrightarrow> map_of (zip (ci_keys i) (ci_values i)) v \<noteq> None)"
    using comp_found [OF i, of v] by (auto simp: Composite_Lookup_def or_nil_def Let_def split: option.splits)
  then show "set (fst (Composite_Lookup i v)) = {p. \<exists>k. ci_reverse i p = Some k \<and> k = v} \<and> distinct (fst (Composite_Lookup i v))
      \<and> (snd (Composite_Lookup i v) \<longleftrightarrow> fst (Composite_Lookup i v) \<noteq> [])"
    using multi_ok_lookup [of "map_of (zip (ci_keys i) (ci_values i))" "ci_reverse i" v] i by (simp add: comp_inv_def)
qed (use Composite_Insert_ok Composite_Delete_ok in auto)

section \<open>Rebuilding\<close>

text \<open>The key that the row at a position has in a rebuilt index.\<close>

definition row_key :: "('j val list \<Rightarrow> bytes option) \<Rightarrow> 'j IndexableRow list \<Rightarrow> int \<rightharpoonup> bytes" where
  "row_key key rows p =
     (if 0 \<le> p \<and> nat p < length rows \<and> DeletedTx (rows ! nat p) = 0 then key (row_Data (rows ! nat p)) else None)"

lemma row_key_Nil [simp]: "row_key key [] p = None"
  by (simp add: row_key_def)

lemma row_key_Cons:
  "row_key key (r # rows) p = (if p = 0 then if DeletedTx r = 0 then key (row_Data r) else None else row_key key rows (p - 1))"
proof -
  have "nat p = Suc (nat (p - 1))" if "0 < p" using that by simp
  then show ?thesis by (cases "0 < p") (auto simp: row_key_def)
qed

lemma row_key_neg: "p < 0 \<Longrightarrow> row_key key rows p = None"
  by (simp add: row_key_def)

lemma live_entries_ok:
  "distinct (map snd (live_entries key pos rows)) \<and> (\<forall>e \<in> set (live_entries key pos rows). pos \<le> snd e)
   \<and> map_of (map (\<lambda>(k, p). (p, k)) (live_entries key pos rows)) = (\<lambda>p. row_key key rows (p - pos))"
proof (induction rows arbitrary: pos)
  case (Cons r rows)
  define es where "es = live_entries key (pos + 1) rows"
  have IH: "distinct (map snd es)" "\<forall>e \<in> set es. pos + 1 \<le> snd e" "map_of (map (\<lambda>(k, p). (p, k)) es) = (\<lambda>p. row_key key rows (p - (pos + 1)))"
    using Cons.IH [of "pos + 1"] by (simp_all add: es_def)
  define k where "k = (if DeletedTx r = 0 then key (row_Data r) else None)"
  have e: "live_entries key pos (r # rows) = (case k of None \<Rightarrow> es | Some k \<Rightarrow> (k, pos) # es)"
    by (auto simp: k_def es_def split: option.splits)
  have "row_key key (r # rows) (p - pos) = (if p = pos then k else row_key key rows (p - (pos + 1)))" for p
    by (auto simp: row_key_Cons k_def algebra_simps)
  moreover have "row_key key rows (pos - (pos + 1)) = None" by (rule row_key_neg) simp
  moreover have "pos \<notin> snd ` set es" using IH(2) by fastforce
  ultimately show ?case unfolding e using IH by (cases k) (auto simp: fun_eq_iff)
qed simp

definition sort_ok :: "((bytes \<times> int) list \<Rightarrow> (bytes \<times> int) list) \<Rightarrow> bool" where
  "sort_ok srt \<longleftrightarrow> (\<forall>es. mset (srt es) = mset es \<and> sorted (map fst (srt es)))"

lemma srt_entries:
  assumes "sort_ok srt"
  shows "distinct (map snd (srt (live_entries key 0 rows))) \<and> map_of (map (\<lambda>(k, p). (p, k)) (srt (live_entries key 0 rows))) = row_key key rows"
proof -
  define es where "es = live_entries key 0 rows"
  have m: "mset (srt es) = mset es" using assms by (simp add: sort_ok_def)
  have d: "distinct (map snd es)" "map_of (map (\<lambda>(k, p). (p, k)) es) = row_key key rows" using live_entries_ok [of key 0 rows] by (simp_all add: es_def)
  have "mset (map snd (srt es)) = mset (map snd es)" using m by simp
  then have ds: "distinct (map snd (srt es))" using d(1) mset_eq_imp_distinct_iff by blast
  have f: "map fst (map (\<lambda>(k, p). (p, k)) xs) = map snd xs" for xs :: "(bytes \<times> int) list" by (induction xs) auto
  have "map_of (map (\<lambda>(k, p). (p, k)) (srt es)) = map_of (map (\<lambda>(k, p). (p, k)) es)"
    by (subst map_of_inject_set) (simp_all only: f ds d(1) set_map mset_eq_setD [OF m])
  then show ?thesis using ds d(2) by (simp add: es_def)
qed

lemma Hash_Rebuild_ok:
  "hash_inv (Hash_Rebuild fmt rows idx) \<and> hi_reverse (Hash_Rebuild fmt rows idx) = row_key (column_key fmt (hi_colIndex idx)) rows"
proof -
  let ?es = "live_entries (column_key fmt (hi_colIndex idx)) 0 rows"
  let ?i = "idx\<lparr>hi_data := Map.empty, hi_reverse := Map.empty\<rparr>"
  have "Hash_Rebuild fmt rows idx = fold (\<lambda>(v, p). Hash_Insert v p) ?es ?i"
    unfolding Hash_Rebuild_def by (rule arg_cong [where f = "\<lambda>f. fold f ?es ?i"]) (simp add: fun_eq_iff Hash_Insert_def)
  moreover have "hash_inv ?i" by (simp add: hash_inv_def)
  ultimately show ?thesis
    using hash.fold_insert [of ?i ?es] live_entries_ok [of "column_key fmt (hi_colIndex idx)" 0 rows] by simp
qed

lemma BTree_Rebuild_ok:
  assumes B: "gbtree_ok B good" and s: "sort_ok srt"
  shows "bt_inv B good (BTree_Rebuild B srt fmt rows idx) \<and> bt_reverse (BTree_Rebuild B srt fmt rows idx) = row_key (column_key fmt (bt_colIndex idx)) rows"
proof -
  let ?es = "srt (live_entries (column_key fmt (bt_colIndex idx)) 0 rows)"
  let ?i = "idx\<lparr>bt_tree := gb_New B, bt_reverse := Map.empty\<rparr>"
  have e: "BTree_Rebuild B srt fmt rows idx = fold (\<lambda>(v, p). BTree_Insert B v p) ?es ?i"
    unfolding BTree_Rebuild_def by (rule arg_cong [where f = "\<lambda>f. fold f ?es ?i"]) (simp add: fun_eq_iff BTree_Insert_def)
  have a: "bt_addr B ?i = Map.empty" "good (gb_New B)" using B by (simp_all add: bt_addr_def gbtree_ok_def)
  then have d: "bt_data B ?i = Map.empty" unfolding fun_eq_iff bt_data_def by simp
  have "bt_inv B good ?i" unfolding bt_inv_def bt_alloc_def a(1) d using a(2) by simp
  then show ?thesis
    using index_impl.fold_insert [OF btree_index_impl [OF B], of ?i ?es] srt_entries [OF s, of "column_key fmt (bt_colIndex idx)" rows]
    unfolding e by simp
qed

lemma group_runs_ok:
  assumes "sorted (map fst es)"
  shows "case fold group_step es ([], []) of (keys, vals) \<Rightarrow>
    sorted_wrt (<) keys \<and> length keys = length vals \<and> set keys = fst ` set es \<and> (es \<noteq> [] \<longrightarrow> last keys = fst (last es))
    \<and> map_of (zip keys vals) = (\<lambda>k. if k \<in> fst ` set es then Some (map snd (filter (\<lambda>e. fst e = k) es)) else None)"
  using assms
proof (induction es rule: rev_induct)
  case (snoc e es)
  obtain k p where e: "e = (k, p)" by fastforce
  obtain keys vals where f: "fold group_step es ([], []) = (keys, vals)" by fastforce
  have so: "sorted (map fst es)" "\<forall>x \<in> set es. fst x \<le> k" using snoc.prems e by (auto simp: sorted_append)
  have IH: "sorted_wrt (<) keys" "length keys = length vals" "set keys = fst ` set es" "es \<noteq> [] \<longrightarrow> last keys = fst (last es)"
    "map_of (zip keys vals) = (\<lambda>k. if k \<in> fst ` set es then Some (map snd (filter (\<lambda>e. fst e = k) es)) else None)"
    using snoc.IH [OF so(1)] by (simp_all add: f)
  show ?case
  proof (cases "keys = [] \<or> k \<noteq> last keys")
    case True
    then have n: "k \<notin> fst ` set es"
    proof -
      have "x < k" if "x \<in> set keys" for x
      proof -
        have ne: "keys \<noteq> []" using that by auto
        then have "x \<le> last keys" using that IH(1) by (induction keys rule: rev_induct) (auto simp: sorted_wrt_append)
        moreover have "last keys \<in> fst ` set es" using last_in_set [OF ne] IH(3) by simp
        ultimately show ?thesis using so(2) True ne by force
      qed
      then show ?thesis using IH(3) by blast
    qed
    have "group_step e (keys, vals) = (keys @ [k], vals @ [[p]])" using True e by (simp add: group_step_def)
    moreover have "\<forall>x \<in> set keys. x < k" using IH(3) so(2) n by force
    moreover have "filter (\<lambda>e. fst e = k) es = []" using n by (force simp: filter_empty_conv)
    ultimately show ?thesis using IH e n by (auto simp: f sorted_wrt_append fun_eq_iff map_add_def split: option.splits)
  next
    case False
    let ?n = "length vals - 1"
    have g: "group_step e (keys, vals) = (keys, vals[?n := vals ! ?n @ [p]])" using False e by (simp add: group_step_def)
    have k: "keys ! ?n = k" "?n < length keys" using False IH(2) by (auto simp: last_conv_nth simp flip: length_greater_0_conv)
    have d: "distinct keys" using IH(1) by (simp add: strict_sorted_iff)
    have mem: "k \<in> fst ` set es" using k nth_mem IH(3) by metis
    have "map_of (zip keys vals) k = Some (vals ! ?n)" using map_of_zip_nth [OF IH(2) d, of ?n] k IH(2) by simp
    then have "vals ! ?n = map snd (filter (\<lambda>e. fst e = k) es)" using IH(5) mem by simp
    then have "map_of (zip keys (vals[?n := vals ! ?n @ [p]])) = (map_of (zip keys vals))(k \<mapsto> map snd (filter (\<lambda>e. fst e = k) es) @ [p])"
      using map_of_zip_update [OF IH(2) d k(2)] k(1) by simp
    moreover have F: "fold group_step (es @ [e]) ([], []) = (keys, vals[?n := vals ! ?n @ [p]])" using f g by simp
    ultimately show ?thesis unfolding F prod.case using IH e mem False by (auto simp: fun_eq_iff)
  qed
qed simp

lemma Composite_Rebuild_ok:
  assumes s: "sort_ok srt" and r: "Composite_Rebuild srt lower fmtf rows idx = Some idx'"
  shows "comp_inv idx' \<and> ci_reverse idx' = row_key (compositeKey lower fmtf (ci_colIndex idx)) rows"
proof -
  define es where "es = live_entries (compositeKey lower fmtf (ci_colIndex idx)) 0 rows"
  obtain keys vals where f: "fold group_step (srt es) ([], []) = (keys, vals)" by fastforce
  have i: "idx' = idx\<lparr>ci_keys := keys, ci_values := vals, ci_reverse := map_of (map (\<lambda>(k, p). (p, k)) es)\<rparr>"
    using r f by (auto simp: Composite_Rebuild_def es_def Let_def split: if_splits)
  have e: "distinct (map snd es)" "map_of (map (\<lambda>(k, p). (p, k)) es) = row_key (compositeKey lower fmtf (ci_colIndex idx)) rows"
    using live_entries_ok [of _ 0 rows] by (simp_all add: es_def)
  have s': "mset (srt es) = mset es" "sorted (map fst (srt es))" using s by (simp_all add: sort_ok_def)
  have g: "sorted_wrt (<) keys" "length keys = length vals"
    "map_of (zip keys vals) = (\<lambda>k. if k \<in> fst ` set es then Some (map snd (filter (\<lambda>e. fst e = k) (srt es))) else None)"
    using group_runs_ok [OF s'(2)] mset_eq_setD [OF s'(1)] by (simp_all add: f)
  have rv: "(map_of (map (\<lambda>(k, p). (p, k)) es) p = Some k) = ((k, p) \<in> set es)" for k p
  proof -
    have "map fst (map (\<lambda>(k, p). (p, k)) es) = map snd es" by (induction es) auto
    then have "distinct (map fst (map (\<lambda>(k, p). (p, k)) es))" using e(1) by (simp only:)
    then show ?thesis by (subst map_of_eq_Some_iff) (assumption, force)
  qed
  have ds: "distinct (map snd (srt es))" using e(1) s'(1) by (metis mset_eq_imp_distinct_iff mset_map)
  have set_ps: "set (or_nil (map_of (zip keys vals) k)) = {p. (k, p) \<in> set es}" for k
    using mset_eq_setD [OF s'(1)] by (force simp: g(3) or_nil_def)
  have "distinct (map snd (filter Q (srt es)))" for Q using ds by (simp add: distinct_map inj_on_def)
  then have "distinct (or_nil (map_of (zip keys vals) k))" "map_of (zip keys vals) k \<noteq> Some []" for k
    using mset_eq_setD [OF s'(1)] by (auto simp: g(3) or_nil_def filter_empty_conv)
  then have "multi_ok (map_of (zip keys vals)) (map_of (map (\<lambda>(k, p). (p, k)) es))" unfolding multi_ok_def using set_ps rv by simp
  then show ?thesis using g e(2) by (simp add: i comp_inv_def)
qed

section \<open>Properties\<close>

text \<open>A red-black tree of the library behaves as \<^verbatim>\<open>google/btree\<close> does.\<close>

definition rbt_gb :: "(bytes, nat) rbt gbtree" where
  "rbt_gb = \<lparr>gb_New = RBT.empty, gb_Get = (\<lambda>t k. map_option (\<lambda>a. (k, a)) (RBT.lookup t k)), gb_ReplaceOrInsert = (\<lambda>(k, a). RBT.insert k a),
     gb_Delete = RBT.delete, gb_Len = (\<lambda>t. length (RBT.entries t)), gb_Ascend = RBT.entries,
     gb_AscendGreaterOrEqual = (\<lambda>k t. filter (\<lambda>e. k \<le> fst e) (RBT.entries t))\<rparr>"

lemma rbt_gb_ok: "gbtree_ok rbt_gb (\<lambda>_. True)"
proof -
  have "sorted_wrt (<) (map fst (RBT.entries t))" for t :: "(bytes, nat) rbt"
    using RBT.sorted_entries [of t] RBT.distinct_entries [of t] by (simp add: strict_sorted_iff)
  moreover have "RBT.entries (RBT.empty :: (bytes, nat) rbt) = []"
    using RBT.map_of_entries [of "RBT.empty :: (bytes, nat) rbt"] by (simp del: RBT.map_of_entries)
  ultimately show ?thesis by (simp add: gbtree_ok_def rbt_gb_def RBT.map_of_entries)
qed

lemma sort_ok_sort_key: "sort_ok (sort_key fst)"
  by (simp add: sort_ok_def)


definition demo_ops :: "index_op list" where
  "demo_ops = [Ins (ascii ''9'') 1, Ins (ascii ''10'') 2, Ins (ascii ''9'') 3, Del 1]"

lemma demo_ops_simps:
  "free_inserts demo_ops {}" "fold (index_spec (\<lambda>v. v)) demo_ops Map.empty = [3 \<mapsto> ascii ''9'', 2 \<mapsto> ascii ''10'']"
  by (auto simp: demo_ops_def fun_eq_iff)

lemma demo_keys: "ascii ''9'' = [57]" "ascii ''10'' = [49, 48]" "ascii ''20'' = [50, 48]"
  by code_simp+


text \<open>
  C8: A rebuilt index holds exactly the live rows. After \<^verbatim>\<open>Rebuild\<close>, whatever the index held before and however the
  sort orders equal keys, a lookup returns exactly the positions of the rows that are not deleted and whose key is the
  value: the printed column for hash and B-tree index, the joined columns for the composite index.
\<close>

theorem Rebuild_correct:
  assumes "sort_ok srt" "gbtree_ok B good" "Composite_Rebuild srt lower fmtf rows c = Some c'"
  shows "\<forall>(r, key) \<in> {(Hash_Lookup (Hash_Rebuild fmt rows h) v, column_key fmt (hi_colIndex h)),
        (BTree_Lookup B (BTree_Rebuild B srt fmt rows b) v, column_key fmt (bt_colIndex b)),
        (Composite_Lookup c' v, compositeKey lower fmtf (ci_colIndex c))}.
      set (fst r) = {p. 0 \<le> p \<and> nat p < length rows \<and> DeletedTx (rows ! nat p) = 0 \<and> key (row_Data (rows ! nat p)) = Some v}
      \<and> distinct (fst r) \<and> (snd r \<longleftrightarrow> fst r \<noteq> [])"
proof -
  have k: "{p. \<exists>k. row_key key rows p = Some k \<and> k = v}
      = {p. 0 \<le> p \<and> nat p < length rows \<and> DeletedTx (rows ! nat p) = 0 \<and> key (row_Data (rows ! nat p)) = Some v}" for key
    by (auto simp: row_key_def split: if_splits)
  note h = Hash_Rebuild_ok [of fmt rows h] and b = BTree_Rebuild_ok [OF assms(2,1), of fmt rows b] and c = Composite_Rebuild_ok [OF assms(1,3)]
  show ?thesis
    using hash.lookup_law [OF h [THEN conjunct1], of v] composite.lookup_law [OF c [THEN conjunct1], of v]
      index_impl.lookup_law [OF btree_index_impl [OF assms(2)] b [THEN conjunct1], of v]
    unfolding h [THEN conjunct2] b [THEN conjunct2] c [THEN conjunct2] k by simp
qed

definition demo_rows :: "unit IndexableRow list" where
  "demo_rows = [\<lparr>DeletedTx = 0, row_Data = [VString (ascii ''9'')]\<rparr>, \<lparr>DeletedTx = 4, row_Data = [VString (ascii ''9'')]\<rparr>,
     \<lparr>DeletedTx = 0, row_Data = [VNil]\<rparr>]"

lemma demo_rebuild: "Composite_Rebuild (sort_key fst) id (\<lambda>_. []) demo_rows (NewCompositeIndex ''i'' [''a''] [0]) \<noteq> None"
  by (simp add: Composite_Rebuild_def demo_rows_def NewCompositeIndex_def compositeKey_def formatIndexValue_def formatValue_def Let_def split_def)

theorem Rebuild_correct_witness:
  "set (fst (Hash_Lookup (Hash_Rebuild no_fmt demo_rows (NewHash ''i'' ''c'' 0)) (ascii ''9''))) = {0}"
proof -
  obtain c' where c: "Composite_Rebuild (sort_key fst) id (\<lambda>_. []) demo_rows (NewCompositeIndex ''i'' [''a''] [0]) = Some c'"
    using demo_rebuild by auto
  have "set (fst (Hash_Lookup (Hash_Rebuild no_fmt demo_rows (NewHash ''i'' ''c'' 0)) (ascii ''9''))) =
      {p. 0 \<le> p \<and> nat p < length demo_rows \<and> DeletedTx (demo_rows ! nat p) = 0
        \<and> column_key no_fmt 0 (row_Data (demo_rows ! nat p)) = Some (ascii ''9'')}"
    using Rebuild_correct [OF sort_ok_sort_key rbt_gb_ok c, where h = "NewHash ''i'' ''c'' 0" and fmt = no_fmt and v = "ascii ''9''"
        and b = "NewBTreeIndex rbt_gb ''i'' ''c'' 0 :: ((bytes, nat) rbt, unit) BTreeIndex"] by (simp add: NewHash_def)
  also have "\<dots> = {0}"
    by (auto simp: demo_rows_def less_Suc_eq numeral_3_eq_3 nat_eq_iff nth_Cons' column_key_def ValueToIndexKey_def sprint_v_def demo_keys split: if_splits)
  finally show ?thesis .
qed

section \<open>Limits of the indexes\<close>

text \<open>Keys are compared as texts: the row with the number nine is not in the range up to twenty.\<close>

lemma Range_compares_texts:
  assumes "gbtree_ok B good" "bt_inv B good idx" "bt_reverse idx p = Some (print_int 9)"
  shows "p \<notin> set (Range B idx low (print_int 20))"
proof -
  have "print_int 9 = [57]" "print_int 20 = [50, 48]" by code_simp+
  then have "\<not> print_int 9 \<le> print_int 20" by simp
  then show ?thesis using Range_ok [OF assms(1,2), of low "print_int 20"] assms(3) by auto
qed

text \<open>The columns stored for index-only scans survive a rebuild, although the positions of the rows change.\<close>

lemma bt_storedCols_add [simp]: "bt_storedCols (bt_add B v q i) = bt_storedCols i"
  by (simp add: bt_add_def bt_new_entry_def split: option.splits)

lemma bt_storedCols_fold:
  "bt_storedCols (fold (\<lambda>(key, pos) idx. let idx = bt_add B key pos idx in idx\<lparr>bt_reverse := (bt_reverse idx)(pos \<mapsto> key)\<rparr>) es i) = bt_storedCols i"
  by (induction es arbitrary: i) (simp_all add: Let_def split_beta)

lemma Rebuild_keeps_stored_columns: "GetStoredColumns p (BTree_Rebuild B srt fmt rows idx) = GetStoredColumns p idx"
  by (simp add: GetStoredColumns_def BTree_Rebuild_def bt_storedCols_fold)

text \<open>\<^verbatim>\<open>formatAny\<close> never returns for a vector or an object, so such a column makes \<^verbatim>\<open>Rebuild\<close> of a composite index never return.\<close>

definition printable :: "'j val \<Rightarrow> bool" where
  "printable v = (case v of VString _ \<Rightarrow> True | VInt _ \<Rightarrow> True | VInt64 _ \<Rightarrow> True | VBool _ \<Rightarrow> True | _ \<Rightarrow> False)"

lemma formatAny_returns:
  assumes "formatAny v = Some s"
  shows "printable v"
proof (rule formatAny.raw_induct [OF _ assms, where P = "\<lambda>v s. printable v"])
  fix f :: "'a val \<Rightarrow> bytes option" and v y
  assume IH: "\<And>x y. f x = Some y \<Longrightarrow> printable x"
  assume "Option.bind
       (case v of
          VString s \<Rightarrow> Some s
        | VInt i \<Rightarrow> Some (print_int (sint i))
        | VInt64 i \<Rightarrow> Some (print_int (sint i))
        | VBool b \<Rightarrow> Some (if b then ascii ''1'' else ascii ''0'')
        | _ \<Rightarrow> Option.bind (f v) (\<lambda>s. Some (TrimSpace (TrimLeftMinus (TrimSpace s)))))
       (\<lambda>raw. let s = TrimSpace (TrimLeftMinus (TrimSpace raw)) in Some (if s = [] then ascii ''0'' else s)) = Some y"
  then show "printable v" using IH [of v] by (cases v) (auto simp: printable_def bind_eq_Some_conv)
qed

lemma Composite_Rebuild_diverges:
  assumes "row \<in> set rows" "DeletedTx row = 0" "c \<in> set (ci_colIndex idx)" "c < length (row_Data row)" "row_Data row ! c \<in> range VVector \<union> range VMap"
  shows "Composite_Rebuild srt lower fmtf rows idx = None"
proof -
  have "\<not> printable (row_Data row ! c)" using assms(5) by (auto simp: printable_def)
  then have "formatAny (row_Data row ! c) = None" using formatAny_returns by (cases "formatAny (row_Data row ! c)") blast+
  then have "formatIndexValue lower fmtf (row_Data row ! c) = None" using assms(5) by (auto simp: formatIndexValue_def formatValue_def)
  moreover have "those xs = None" if "None \<in> set xs" for xs :: "bytes option list" using that by (induction xs) (auto split: option.splits)
  ultimately have "compositeKey lower fmtf (ci_colIndex idx) (row_Data row) = None" using assms(3,4) by (force simp: compositeKey_def)
  then show ?thesis using assms(1,2) by (auto simp: Composite_Rebuild_def Let_def split: prod.splits)
qed

section \<open>Saving and loading a B-tree index\<close>

lemma bt_load_ok:
  assumes B: "gbtree_ok B good"
  shows "bt_alloc B good idx \<Longrightarrow> distinct (map fst es) \<Longrightarrow> (\<forall>k \<in> fst ` set es. bt_addr B idx k = None) \<Longrightarrow>
    bt_alloc B good (fold (bt_new_entry B) es idx) \<and> bt_data B (fold (bt_new_entry B) es idx) = bt_data B idx ++ map_of es"
proof (induction es arbitrary: idx)
  case (Cons e es)
  obtain k ps where e: "e = (k, ps)" by fastforce
  have "bt_addr B idx k = None" using Cons.prems(3) e by simp
  note n = bt_new_entry_ok [OF B Cons.prems(1) this, of ps]
  have "\<forall>k' \<in> fst ` set es. bt_addr B (bt_new_entry B (k, ps) idx) k' = None"
    using Cons.prems(2,3) e n by auto
  with Cons.IH [OF n [THEN conjunct1]] Cons.prems(2) n have "bt_alloc B good (fold (bt_new_entry B) es (bt_new_entry B (k, ps) idx))"
    "bt_data B (fold (bt_new_entry B) es (bt_new_entry B (k, ps) idx)) = (bt_data B idx)(k \<mapsto> ps) ++ map_of es"
    by (auto simp: fun_upd_def)
  moreover have "map_of es k = None" using Cons.prems(2) e by (simp add: map_of_eq_None_iff)
  ultimately show ?case using e by (auto simp: fun_eq_iff map_add_def split: option.splits)
qed simp

lemma bt_new_entry_fold [simp]:
  "bt_reverse (fold (bt_new_entry B) es idx) = bt_reverse idx" "bt_storedCols (fold (bt_new_entry B) es idx) = bt_storedCols idx"
  "bt_name (fold (bt_new_entry B) es idx) = bt_name idx" "bt_column (fold (bt_new_entry B) es idx) = bt_column idx"
  "bt_colIndex (fold (bt_new_entry B) es idx) = bt_colIndex idx"
  by (induction es arbitrary: idx) (simp_all add: bt_new_entry_def)

text \<open>
  A B-tree index that is saved and loaded again holds the same keys and positions in new entries, and the same stored columns;
  that the index is unique is lost.
\<close>

lemma LoadBTreeIndex_Save:
  assumes B: "gbtree_ok B good" and i: "bt_inv B good idx"
  defines "idx' \<equiv> LoadBTreeIndex B (BTree_Save B idx)"
  shows "bt_inv B good idx' \<and> bt_data B idx' = bt_data B idx \<and> bt_reverse idx' = bt_reverse idx
    \<and> bt_storedCols idx' = bt_storedCols idx \<and> bt_name idx' = bt_name idx \<and> bt_column idx' = bt_column idx \<and> bt_colIndex idx' = bt_colIndex idx"
proof -
  define A where "A = gb_Ascend B (bt_tree idx)"
  let ?i = "\<lparr>bt_tree = gb_New B, bt_store = (\<lambda>_. []), bt_next = 0, bt_name = bt_name idx, bt_column = bt_column idx, bt_colIndex = bt_colIndex idx,
        bt_unique = False, bt_reverse = bt_reverse idx, bt_storedCols = bt_storedCols idx\<rparr>"
  let ?es = "map (\<lambda>e. (fst e, bt_store idx (snd e))) A"
  have l: "idx' = fold (bt_new_entry B) ?es ?i"
    by (simp add: idx'_def LoadBTreeIndex_def BTree_Save_def A_def zip_map_map zip_same_conv_map comp_def)
  have a: "bt_addr B ?i = Map.empty" "good (gb_New B)" using B by (simp_all add: bt_addr_def gbtree_ok_def)
  have d: "bt_data B ?i = Map.empty" unfolding fun_eq_iff bt_data_def a(1) by simp
  have al: "bt_alloc B good ?i" unfolding bt_alloc_def a(1) using a(2) by simp
  have "distinct (map fst A)" using B i by (simp add: gbtree_ok_def bt_inv_def bt_alloc_def A_def strict_sorted_iff)
  then have "bt_alloc B good idx'" "bt_data B idx' = map_of ?es"
    using bt_load_ok [OF B al, of ?es] unfolding l a(1) d by (simp_all add: comp_def)
  moreover have "map_of (map (\<lambda>e. (fst e, f (snd e))) xs) = (\<lambda>k. map_option f (map_of xs k))" for f and xs :: "(bytes \<times> nat) list"
    by (induction xs) (auto simp: fun_eq_iff)
  ultimately have "bt_alloc B good idx'" "bt_data B idx' = bt_data B idx" by (simp_all add: bt_data_def bt_addr_def A_def fun_eq_iff)
  then show ?thesis using i by (simp add: bt_inv_def) (simp add: l)
qed

end
