(* ===== verification/Gin.thy ===== *)
theory Gin
  imports Index
begin

text \<open>
  The inverted index of \<^verbatim>\<open>index/gin_index.go\<close>, for texts and for JSON documents.

  A row is indexed under the tokens of its value. The tokens of a text are split at ASCII separators, so they are split by
  bytes. Lower case, the printing of values, and \<^verbatim>\<open>json.Unmarshal\<close> are parameters (\<open>gin_env\<close>). Results that the source
  collects in a Go map come in no particular order; the model lists them in the order of the first token, and the claims are
  about the set of positions.
\<close>

section \<open>Tokens\<close>

definition is_sep :: "8 word \<Rightarrow> bool" where
  "is_sep b \<longleftrightarrow> b \<in> {32, 44, 46, 33, 63, 59, 58}"

text \<open>\<^verbatim>\<open>strings.FieldsFunc\<close>: the maximal stretches without separators.\<close>

function fields :: "bytes \<Rightarrow> bytes list" where
  "fields s =
     (let s = dropWhile is_sep s
      in if s = [] then [] else takeWhile (\<lambda>b. \<not> is_sep b) s # fields (dropWhile (\<lambda>b. \<not> is_sep b) s))"
  by pat_completeness simp
termination
proof (relation "measure length")
  fix s x :: bytes
  assume x: "x = dropWhile is_sep s" "x \<noteq> []"
  then have "\<not> is_sep (hd x)" using hd_dropWhile by metis
  then have "length (dropWhile (\<lambda>b. \<not> is_sep b) x) < length x" using x(2) by (cases x) (simp_all add: le_imp_less_Suc length_dropWhile_le)
  also have "length x \<le> length s" unfolding x(1) by (rule length_dropWhile_le)
  finally show "(dropWhile (\<lambda>b. \<not> is_sep b) x, s) \<in> measure length" by simp
qed simp

declare fields.simps [simp del]

definition tokenize :: "bytes \<Rightarrow> bytes list" where "tokenize s = fields s"

datatype json = JNull | JBool bool | JNumber f64 | JString bytes | JArray "json list" | JObject "(bytes \<times> json) list"

record 'j gin_env =
  env_lower :: "bytes \<Rightarrow> bytes"
  env_fmt :: "'j val \<Rightarrow> bytes"
  env_json :: "bytes \<Rightarrow> json option"
  env_fmt_json :: "json \<Rightarrow> bytes"

fun extract_tokens :: "'j gin_env \<Rightarrow> json \<Rightarrow> bytes list" where
  "extract_tokens E (JObject kvs) =
     concat (map (\<lambda>(k, v). (ascii ''key:'' @ env_lower E k) # env_lower E (env_fmt_json E v) # extract_tokens E v) kvs)"
| "extract_tokens E (JArray items) = concat (map (\<lambda>v. env_lower E (env_fmt_json E v) # extract_tokens E v) items)"
| "extract_tokens E v = [env_lower E (env_fmt_json E v)]"

definition tokenizeJSONB :: "'j gin_env \<Rightarrow> bytes \<Rightarrow> bytes list" where
  "tokenizeJSONB E s =
     (let s = TrimSpace s
      in if \<not> HasPrefix s (ascii ''{'') \<and> \<not> HasPrefix s (ascii ''['') then tokenize s
         else case env_json E s of None \<Rightarrow> tokenize s | Some v \<Rightarrow> extract_tokens E v)"

definition gin_valueToString :: "'j gin_env \<Rightarrow> 'j val \<Rightarrow> bytes" where
  "gin_valueToString E v =
     (if v = VNil then []
      else TrimSpace (env_lower E (filter (\<lambda>b. b \<noteq> 34) (filter (\<lambda>b. b \<noteq> 93) (filter (\<lambda>b. b \<noteq> 91) (sprint_v (env_fmt E) (Raw v)))))))"

section \<open>The index\<close>

record GINIndex =
  gi_name :: string
  gi_column :: string
  gi_colIndex :: nat
  gi_unique :: bool
  gi_jsonb :: bool
  gi_data :: "bytes \<rightharpoonup> int list"
  gi_reverse :: "int \<rightharpoonup> bytes list"
  gi_jsonValues :: "int \<rightharpoonup> bytes"

definition NewGINIndex :: "string \<Rightarrow> string \<Rightarrow> nat \<Rightarrow> GINIndex" where
  "NewGINIndex name column colIndex =
     \<lparr>gi_name = name, gi_column = column, gi_colIndex = colIndex, gi_unique = False, gi_jsonb = False, gi_data = Map.empty,
      gi_reverse = Map.empty, gi_jsonValues = Map.empty\<rparr>"

definition NewGINJSONBIndex :: "string \<Rightarrow> string \<Rightarrow> nat \<Rightarrow> GINIndex" where
  "NewGINJSONBIndex name column colIndex =
     \<lparr>gi_name = name, gi_column = column, gi_colIndex = colIndex, gi_unique = False, gi_jsonb = True, gi_data = Map.empty,
      gi_reverse = Map.empty, gi_jsonValues = Map.empty\<rparr>"

definition GIN_SetUnique :: "bool \<Rightarrow> GINIndex \<Rightarrow> GINIndex" where "GIN_SetUnique u g = g\<lparr>gi_unique := u\<rparr>"

definition GIN_RenameColumn :: "string \<Rightarrow> string \<Rightarrow> GINIndex \<Rightarrow> GINIndex" where "GIN_RenameColumn old new g = g\<lparr>gi_column := new\<rparr>"

definition append_token :: "int \<Rightarrow> bytes \<Rightarrow> GINIndex \<Rightarrow> GINIndex" where
  "append_token rowID token g = g\<lparr>gi_data := (gi_data g)(token \<mapsto> or_nil (gi_data g token) @ [rowID])\<rparr>"

definition addLocked :: "'j gin_env \<Rightarrow> int \<Rightarrow> 'j val \<Rightarrow> GINIndex \<Rightarrow> GINIndex" where
  "addLocked E rowID v g =
     (if gi_jsonb g
      then let s = env_lower E (TrimSpace (sprint_v (env_fmt E) (Raw v)));
               tokens = tokenizeJSONB E s
           in fold (append_token rowID) tokens
                (g\<lparr>gi_jsonValues := (gi_jsonValues g)(rowID \<mapsto> s), gi_reverse := (gi_reverse g)(rowID \<mapsto> tokens)\<rparr>)
      else let tokens = tokenize (env_lower E (gin_valueToString E v))
           in fold (append_token rowID) tokens (g\<lparr>gi_reverse := (gi_reverse g)(rowID \<mapsto> tokens)\<rparr>))"

definition GIN_Insert :: "'j gin_env \<Rightarrow> bytes \<Rightarrow> int \<Rightarrow> GINIndex \<Rightarrow> GINIndex" where
  "GIN_Insert E v rowPos g = addLocked E rowPos (VString v) g"

definition remove_token :: "int \<Rightarrow> bytes \<Rightarrow> GINIndex \<Rightarrow> GINIndex" where
  "remove_token rowID token g =
     (let ps = or_nil (gi_data g token);
          data = (if rowID \<in> set ps then (gi_data g)(token \<mapsto> remove1 rowID ps) else gi_data g)
      in g\<lparr>gi_data := if or_nil (data token) = [] then data(token := None) else data\<rparr>)"

definition GIN_Remove :: "int \<Rightarrow> GINIndex \<Rightarrow> GINIndex" where
  "GIN_Remove rowID g =
     (let g = (case gi_reverse g rowID of
                 None \<Rightarrow> g
               | Some tokens \<Rightarrow> let g = fold (remove_token rowID) tokens g in g\<lparr>gi_reverse := (gi_reverse g)(rowID := None)\<rparr>)
      in g\<lparr>gi_jsonValues := (gi_jsonValues g)(rowID := None)\<rparr>)"

text \<open>A row that is too short for the column is an index out of range.\<close>

fun gin_rebuild :: "'j gin_env \<Rightarrow> int \<Rightarrow> 'j IndexableRow list \<Rightarrow> GINIndex \<Rightarrow> GINIndex option" where
  "gin_rebuild E i [] g = Some g"
| "gin_rebuild E i (row # rows) g =
     (if DeletedTx row = 0
      then if gi_colIndex g < length (row_Data row)
           then gin_rebuild E (i + 1) rows (addLocked E i (row_Data row ! gi_colIndex g) g)
           else None
      else gin_rebuild E (i + 1) rows g)"

definition GIN_Rebuild :: "'j gin_env \<Rightarrow> 'j IndexableRow list \<Rightarrow> GINIndex \<Rightarrow> GINIndex option" where
  "GIN_Rebuild E rows g = gin_rebuild E 0 rows (g\<lparr>gi_data := Map.empty, gi_reverse := Map.empty, gi_jsonValues := Map.empty\<rparr>)"

section \<open>Searching\<close>

text \<open>The positions of the first token, of which those are kept that occur under every other token.\<close>

definition intersect_tokens :: "GINIndex \<Rightarrow> bytes list \<Rightarrow> int list" where
  "intersect_tokens g tokens =
     (case tokens of
        [] \<Rightarrow> []
      | t # ts \<Rightarrow> fold (\<lambda>token result. filter (\<lambda>pos. pos \<in> set (or_nil (gi_data g token))) result) ts (remdups (or_nil (gi_data g t))))"

definition GIN_Lookup :: "'j gin_env \<Rightarrow> GINIndex \<Rightarrow> bytes \<Rightarrow> int list \<times> bool" where
  "GIN_Lookup E g v =
     (let tokens = tokenize (env_lower E v)
      in if length tokens = 0 then ([], False) else let ids = intersect_tokens g tokens in (ids, 0 < length ids))"

definition GIN_Search :: "'j gin_env \<Rightarrow> GINIndex \<Rightarrow> bytes \<Rightarrow> int list" where
  "GIN_Search E g query =
     (let queryTokens = (if gi_jsonb g then tokenizeJSONB E (env_lower E query) else tokenize (env_lower E query))
      in if length queryTokens = 0 then [] else intersect_tokens g queryTokens)"

fun dedup_from :: "int \<Rightarrow> int list \<Rightarrow> int list" where
  "dedup_from x [] = [x]"
| "dedup_from x (y # ys) = (if y \<noteq> x then x # dedup_from y ys else dedup_from x ys)"

definition deduplicateSorted :: "int list \<Rightarrow> int list" where
  "deduplicateSorted a = (case a of [] \<Rightarrow> [] | x # xs \<Rightarrow> dedup_from x xs)"

fun intersectSorted :: "int list \<Rightarrow> int list \<Rightarrow> int list" where
  "intersectSorted (x # xs) (y # ys) =
     (if x = y then x # intersectSorted xs ys else if x < y then intersectSorted xs (y # ys) else intersectSorted (x # xs) ys)"
| "intersectSorted _ _ = []"

definition SearchJSONBContains :: "'j gin_env \<Rightarrow> GINIndex \<Rightarrow> bytes \<Rightarrow> int list" where
  "SearchJSONBContains E g query =
     (if \<not> gi_jsonb g then []
      else let queryTokens = tokenizeJSONB E (env_lower E query); sorted_list = (\<lambda>t. deduplicateSorted (sort (or_nil (gi_data g t))))
           in case queryTokens of
                [] \<Rightarrow> []
              | t # ts \<Rightarrow>
                  if \<exists>token \<in> set queryTokens. length (or_nil (gi_data g token)) = 0 then []
                  else fold (\<lambda>token candidates. if length candidates = 0 then candidates else intersectSorted candidates (sorted_list token))
                         ts (sorted_list t))"

definition SearchJSONBHasKey :: "'j gin_env \<Rightarrow> GINIndex \<Rightarrow> bytes \<Rightarrow> int list" where
  "SearchJSONBHasKey E g key = (if \<not> gi_jsonb g then [] else or_nil (gi_data g (ascii ''key:'' @ env_lower E key)))"

section \<open>The index keeps its promise\<close>

text \<open>A position occurs under a token as often as the token occurs among the tokens of the position.\<close>

definition gin_inv :: "GINIndex \<Rightarrow> bool" where
  "gin_inv g \<longleftrightarrow> (\<forall>t p. count_list (or_nil (gi_data g t)) p = count_list (or_nil (gi_reverse g p)) t) \<and> (\<forall>t. gi_data g t \<noteq> Some [])"

lemma gin_new_inv: "gi_data g = Map.empty \<Longrightarrow> gi_reverse g = Map.empty \<Longrightarrow> gin_inv g"
  by (simp add: gin_inv_def or_nil_def)

lemma gin_mem:
  assumes "gin_inv g"
  shows "p \<in> set (or_nil (gi_data g t)) \<longleftrightarrow> t \<in> set (or_nil (gi_reverse g p))"
proof -
  have "count_list (or_nil (gi_data g t)) p = count_list (or_nil (gi_reverse g p)) t" using assms by (simp add: gin_inv_def)
  then show ?thesis by (metis count_list_0_iff)
qed

lemma append_tokens:
  "count_list (or_nil (gi_data (fold (append_token r) ts g) t)) p = count_list (or_nil (gi_data g t)) p + (if p = r then count_list ts t else 0)
   \<and> ((\<forall>t. gi_data g t \<noteq> Some []) \<longrightarrow> gi_data (fold (append_token r) ts g) t \<noteq> Some [])
   \<and> gi_reverse (fold (append_token r) ts g) = gi_reverse g \<and> gi_jsonb (fold (append_token r) ts g) = gi_jsonb g
   \<and> gi_colIndex (fold (append_token r) ts g) = gi_colIndex g"
proof (induction ts arbitrary: g)
  case (Cons x ts)
  have "count_list (or_nil (gi_data (append_token r x g) t)) p = count_list (or_nil (gi_data g t)) p + (if p = r \<and> t = x then 1 else 0)"
    by (simp add: append_token_def or_nil_def)
  moreover have "(\<forall>t. gi_data g t \<noteq> Some []) \<longrightarrow> (\<forall>t. gi_data (append_token r x g) t \<noteq> Some [])" by (simp add: append_token_def)
  moreover have "gi_reverse (append_token r x g) = gi_reverse g" "gi_jsonb (append_token r x g) = gi_jsonb g" "gi_colIndex (append_token r x g) = gi_colIndex g"
    by (simp_all add: append_token_def)
  ultimately show ?case using Cons.IH [of "append_token r x g"] by auto
qed simp

lemma count_remove1: "count_list (remove1 r xs) p = count_list xs p - (if p = r then 1 else 0)"
  by (induction xs) (auto simp: count_list_0_iff)

lemma remove_token_step:
  assumes "\<forall>t. gi_data g t \<noteq> Some []"
  shows "count_list (or_nil (gi_data (remove_token r x g) t)) p = count_list (or_nil (gi_data g t)) p - (if p = r \<and> t = x then 1 else 0)
    \<and> gi_data (remove_token r x g) t \<noteq> Some []"
proof -
  let ?ps = "or_nil (gi_data g x)"
  have d: "gi_data (remove_token r x g) = (gi_data g)(x := if remove1 r ?ps = [] then None else Some (remove1 r ?ps))"
  proof (cases "r \<in> set ?ps")
    case True
    then show ?thesis by (auto simp: remove_token_def Let_def or_nil_def)
  next
    case False
    then have "remove1 r ?ps = ?ps" by (simp add: remove1_idem)
    then show ?thesis using False assms by (auto simp: remove_token_def Let_def or_nil_def fun_eq_iff split: option.splits)
  qed
  show ?thesis
  proof (cases "t = x")
    case True
    have "or_nil (gi_data (remove_token r x g) x) = remove1 r ?ps" unfolding d by (simp add: or_nil_def)
    then show ?thesis using True count_remove1 [of r ?ps p] by (simp add: d)
  qed (use assms in \<open>simp add: d\<close>)
qed

lemma remove_tokens:
  "(\<forall>t. gi_data g t \<noteq> Some []) \<Longrightarrow>
   count_list (or_nil (gi_data (fold (remove_token r) ts g) t)) p = count_list (or_nil (gi_data g t)) p - (if p = r then count_list ts t else 0)
   \<and> gi_data (fold (remove_token r) ts g) t \<noteq> Some []
   \<and> gi_reverse (fold (remove_token r) ts g) = gi_reverse g \<and> gi_jsonb (fold (remove_token r) ts g) = gi_jsonb g"
proof (induction ts arbitrary: g)
  case (Cons x ts)
  have "\<forall>t. gi_data (remove_token r x g) t \<noteq> Some []" using remove_token_step [OF Cons.prems] by blast
  moreover have "gi_reverse (remove_token r x g) = gi_reverse g" "gi_jsonb (remove_token r x g) = gi_jsonb g" by (simp_all add: remove_token_def Let_def)
  ultimately show ?case using Cons.IH [of "remove_token r x g"] remove_token_step [OF Cons.prems, of r x t p] by auto
qed simp

text \<open>The tokens under which a value is indexed.\<close>

definition gin_tokens :: "'j gin_env \<Rightarrow> bool \<Rightarrow> 'j val \<Rightarrow> bytes list" where
  "gin_tokens E jsonb v =
     (if jsonb then tokenizeJSONB E (env_lower E (TrimSpace (sprint_v (env_fmt E) (Raw v))))
      else tokenize (env_lower E (gin_valueToString E v)))"

lemma addLocked_ok:
  assumes i: "gin_inv g" and "gi_reverse g r = None"
  shows "gin_inv (addLocked E r v g) \<and> gi_reverse (addLocked E r v g) = (gi_reverse g)(r \<mapsto> gin_tokens E (gi_jsonb g) v)
    \<and> gi_jsonb (addLocked E r v g) = gi_jsonb g \<and> gi_colIndex (addLocked E r v g) = gi_colIndex g"
proof -
  obtain g' where a: "addLocked E r v g = fold (append_token r) (gin_tokens E (gi_jsonb g) v) g'" "gi_data g' = gi_data g"
      "gi_reverse g' = (gi_reverse g)(r \<mapsto> gin_tokens E (gi_jsonb g) v)" "gi_jsonb g' = gi_jsonb g" "gi_colIndex g' = gi_colIndex g"
  proof (cases "gi_jsonb g")
    case True
    then show ?thesis
      by (intro that [of "g\<lparr>gi_jsonValues := (gi_jsonValues g)(r \<mapsto> env_lower E (TrimSpace (sprint_v (env_fmt E) (Raw v)))), gi_reverse := (gi_reverse g)(r \<mapsto> gin_tokens E True v)\<rparr>"])
        (simp_all add: addLocked_def gin_tokens_def Let_def)
  next
    case False
    then show ?thesis
      by (intro that [of "g\<lparr>gi_reverse := (gi_reverse g)(r \<mapsto> gin_tokens E False v)\<rparr>"]) (simp_all add: addLocked_def gin_tokens_def Let_def)
  qed
  have z: "count_list (or_nil (gi_data g t)) r = 0" for t using i assms(2) by (simp add: gin_inv_def or_nil_def)
  have "gin_inv (addLocked E r v g)"
    using i append_tokens [of r _ g'] z unfolding gin_inv_def a by (simp add: or_nil_def)
  then show ?thesis using append_tokens [of r _ g'] unfolding a by simp
qed

lemma GIN_Remove_ok:
  assumes i: "gin_inv g"
  shows "gin_inv (GIN_Remove r g) \<and> gi_reverse (GIN_Remove r g) = (gi_reverse g)(r := None) \<and> gi_jsonb (GIN_Remove r g) = gi_jsonb g"
proof (cases "gi_reverse g r")
  case None
  then show ?thesis using i by (simp add: GIN_Remove_def gin_inv_def fun_upd_idem)
next
  case (Some ts)
  have ne: "\<forall>t. gi_data g t \<noteq> Some []" and c: "count_list (or_nil (gi_data g t)) r = count_list ts t" for t
    using i Some by (auto simp: gin_inv_def or_nil_def)
  show ?thesis
    using i Some c remove_tokens [OF ne, of r ts] unfolding gin_inv_def by (simp add: GIN_Remove_def Let_def) (simp add: or_nil_def)
qed

lemma intersect_tokens_ok:
  assumes "ts \<noteq> []"
  shows "set (intersect_tokens g ts) = {p. \<forall>t \<in> set ts. p \<in> set (or_nil (gi_data g t))} \<and> distinct (intersect_tokens g ts)"
proof -
  have "set (fold (\<lambda>token result. filter (\<lambda>pos. pos \<in> set (or_nil (gi_data g token))) result) us xs) = {p \<in> set xs. \<forall>t \<in> set us. p \<in> set (or_nil (gi_data g t))}
      \<and> (distinct xs \<longrightarrow> distinct (fold (\<lambda>token result. filter (\<lambda>pos. pos \<in> set (or_nil (gi_data g token))) result) us xs))" for us xs
    by (induction us arbitrary: xs) auto
  then show ?thesis using assms by (cases ts) (auto simp: intersect_tokens_def)
qed

definition gin_hit :: "'j gin_env \<Rightarrow> bytes list \<Rightarrow> bytes \<Rightarrow> bool" where
  "gin_hit E tokens v \<longleftrightarrow> tokenize (env_lower E v) \<noteq> [] \<and> set (tokenize (env_lower E v)) \<subseteq> set tokens"

interpretation gin: index_impl "\<lambda>g. gin_inv g \<and> gi_jsonb g = mode" gi_reverse "\<lambda>v. gin_tokens E mode (VString v)" "gin_hit E" "GIN_Lookup E"
  "GIN_Insert E" GIN_Remove for E :: "'j gin_env" and mode
proof
  fix g v
  assume g: "gin_inv g \<and> gi_jsonb g = mode"
  let ?q = "tokenize (env_lower E v)"
  have "{p. \<forall>t \<in> set ?q. p \<in> set (or_nil (gi_data g t))} = {p. \<exists>k. gi_reverse g p = Some k \<and> set ?q \<subseteq> set k}" if "?q \<noteq> []"
  proof -
    have "(\<forall>t \<in> set ?q. t \<in> set (or_nil (gi_reverse g p))) = (\<exists>k. gi_reverse g p = Some k \<and> set ?q \<subseteq> set k)" for p
      using that by (cases "gi_reverse g p") (auto simp: or_nil_def)
    then show ?thesis using gin_mem [of g] g by simp
  qed
  then show "set (fst (GIN_Lookup E g v)) = {p. \<exists>k. gi_reverse g p = Some k \<and> gin_hit E k v} \<and> distinct (fst (GIN_Lookup E g v))
      \<and> (snd (GIN_Lookup E g v) \<longleftrightarrow> fst (GIN_Lookup E g v) \<noteq> [])"
    using intersect_tokens_ok [of ?q g] by (cases "?q = []") (simp_all add: GIN_Lookup_def gin_hit_def Let_def)
qed (use addLocked_ok GIN_Remove_ok in \<open>auto simp: GIN_Insert_def\<close>)

lemma dedup_from_ok: "sorted (x # xs) \<Longrightarrow> sorted_wrt (<) (dedup_from x xs) \<and> set (dedup_from x xs) = insert x (set xs)"
proof (induction x xs rule: dedup_from.induct)
  case (2 x y ys)
  show ?case
  proof (cases "y = x")
    case False
    then have "x < y" using 2(3) by simp
    then have "\<forall>z \<in> insert y (set ys). x < z" using 2(3) by auto
    then show ?thesis using False 2 by auto
  qed (use 2 in auto)
qed simp

lemma deduplicateSorted_ok: "sorted_wrt (<) (deduplicateSorted (sort xs)) \<and> set (deduplicateSorted (sort xs)) = set xs"
proof (cases "sort xs")
  case Nil
  then have "xs = []" by (metis set_empty set_sort)
  then show ?thesis by (simp add: deduplicateSorted_def)
next
  case (Cons y ys)
  then have "sorted (y # ys)" "insert y (set ys) = set xs" by (metis sorted_sort, metis list.set(2) set_sort)
  then show ?thesis using dedup_from_ok [of y ys] Cons by (simp add: deduplicateSorted_def)
qed

lemma intersectSorted_set: "sorted_wrt (<) xs \<Longrightarrow> sorted_wrt (<) ys \<Longrightarrow> set (intersectSorted xs ys) = set xs \<inter> set ys"
  by (induction xs ys rule: intersectSorted.induct) (auto dest: less_trans less_asym)

lemma intersectSorted_sorted: "sorted_wrt (<) xs \<Longrightarrow> sorted_wrt (<) ys \<Longrightarrow> sorted_wrt (<) (intersectSorted xs ys)"
  by (induction xs ys rule: intersectSorted.induct) (auto simp: intersectSorted_set)

lemma intersect_fold:
  assumes "\<And>t. sorted_wrt (<) (f t)"
  shows "sorted_wrt (<) cs \<Longrightarrow>
    sorted_wrt (<) (fold (\<lambda>t cs. if length cs = 0 then cs else intersectSorted cs (f t)) ts cs)
    \<and> set (fold (\<lambda>t cs. if length cs = 0 then cs else intersectSorted cs (f t)) ts cs) = {p \<in> set cs. \<forall>t \<in> set ts. p \<in> set (f t)}"
proof (induction ts arbitrary: cs)
  case (Cons t ts)
  let ?cs = "if length cs = 0 then cs else intersectSorted cs (f t)"
  have "sorted_wrt (<) ?cs" "set ?cs = set cs \<inter> set (f t)" using Cons.prems assms [of t] by (auto simp: intersectSorted_set intersectSorted_sorted)
  then show ?case using Cons.IH [of ?cs] by auto
qed simp

lemma SearchJSONBContains_ok:
  fixes E :: "'j gin_env" and query :: bytes
  assumes "gi_jsonb g" "gin_inv g"
  defines "q \<equiv> tokenizeJSONB E (env_lower E query)"
  shows "set (SearchJSONBContains E g query) = {p. q \<noteq> [] \<and> set q \<subseteq> set (or_nil (gi_reverse g p))} \<and> sorted_wrt (<) (SearchJSONBContains E g query)"
proof (cases q)
  case Nil
  then show ?thesis using assms(1) by (simp add: SearchJSONBContains_def q_def Let_def)
next
  case (Cons t ts)
  let ?L = "\<lambda>t. deduplicateSorted (sort (or_nil (gi_data g t)))"
  note f = intersect_fold [of ?L "?L t" ts] and L = deduplicateSorted_ok
  have sub: "{p. q \<noteq> [] \<and> set q \<subseteq> set (or_nil (gi_reverse g p))} = {p. \<forall>t \<in> set q. p \<in> set (or_nil (gi_data g t))}"
    using Cons gin_mem [OF assms(2)] by auto
  show ?thesis
  proof (cases "\<exists>token \<in> set q. length (or_nil (gi_data g token)) = 0")
    case True
    then have "{p. \<forall>t \<in> set q. p \<in> set (or_nil (gi_data g t))} = {}" by force
    then show ?thesis unfolding sub using True Cons assms(1) by (simp add: SearchJSONBContains_def q_def [symmetric] Let_def)
  next
    case False
    then have "SearchJSONBContains E g query = fold (\<lambda>t cs. if length cs = 0 then cs else intersectSorted cs (?L t)) ts (?L t)"
      using Cons assms(1) by (simp add: SearchJSONBContains_def q_def [symmetric] Let_def)
    then show ?thesis unfolding sub using f L Cons by auto
  qed
qed

lemma GIN_Search_ok:
  fixes E :: "'j gin_env" and query :: bytes
  assumes "gin_inv g"
  defines "q \<equiv> (if gi_jsonb g then tokenizeJSONB E (env_lower E query) else tokenize (env_lower E query))"
  shows "set (GIN_Search E g query) = {p. q \<noteq> [] \<and> set q \<subseteq> set (or_nil (gi_reverse g p))} \<and> distinct (GIN_Search E g query)"
proof (cases "q = []")
  case False
  then show ?thesis
    using intersect_tokens_ok [OF False, of g] gin_mem [OF assms(1)] by (auto simp: GIN_Search_def q_def [symmetric] Let_def)
qed (simp add: GIN_Search_def q_def [symmetric] Let_def)


definition demo_env :: "unit gin_env" where
  "demo_env = \<lparr>env_lower = id, env_fmt = no_fmt, env_json = (\<lambda>_. None), env_fmt_json = (\<lambda>_. [])\<rparr>"

definition gin_demo_ops :: "index_op list" where
  "gin_demo_ops = [Ins (ascii ''a b, c'') 1, Ins (ascii ''b'') 2, Ins (ascii ''c b'') 3, Del 3]"

lemma gin_demo_ascii: "ascii ''a b, c'' = [97, 32, 98, 44, 32, 99]" "ascii ''c b'' = [99, 32, 98]" "ascii ''a'' = [97]" "ascii ''b'' = [98]" "ascii ''c'' = [99]"
  by code_simp+

lemma gin_demo_trim: "TrimSpace [97, 32, 98, 44, 32, 99] = [97, 32, 98, 44, 32, 99]" "TrimSpace [98] = [98]" "TrimSpace [99, 32, 98] = [99, 32, 98]"
  by (simp_all add: TrimSpace_def rune_chunks.simps decode_rune_def is_space_def Let_def)

lemma gin_demo_tokens:
  "gin_tokens demo_env False (VString (ascii ''a b, c'')) = [ascii ''a'', ascii ''b'', ascii ''c'']"
  "gin_tokens demo_env False (VString (ascii ''b'')) = [ascii ''b'']" "tokenize (env_lower demo_env (ascii ''c b'')) = [ascii ''c'', ascii ''b'']"
  by (simp_all add: gin_demo_ascii gin_tokens_def gin_valueToString_def demo_env_def sprint_v_def gin_demo_trim tokenize_def fields.simps is_sep_def Let_def)


section \<open>Rebuilding\<close>

lemma gin_rebuild_ok:
  "gin_inv g \<Longrightarrow> (\<forall>p \<ge> i. gi_reverse g p = None) \<Longrightarrow> gin_rebuild E i rows g = Some g' \<Longrightarrow>
     gin_inv g' \<and> (\<forall>p. gi_reverse g' p = (if p < i then gi_reverse g p else
       (if nat (p - i) < length rows \<and> DeletedTx (rows ! nat (p - i)) = 0
        then Some (gin_tokens E (gi_jsonb g) (row_Data (rows ! nat (p - i)) ! gi_colIndex g)) else None)))"
proof (induction rows arbitrary: i g)
  case (Cons row rows)
  have nat: "nat (p - i) = Suc (nat (p - (i + 1)))" if "i < p" for p using that by simp
  show ?case
  proof (cases "DeletedTx row = 0")
    case True
    note a = addLocked_ok [OF Cons.prems(1), of i E "row_Data row ! gi_colIndex g"]
    let ?g = "addLocked E i (row_Data row ! gi_colIndex g) g"
    have "gi_reverse g i = None" using Cons.prems(2) by simp
    then have g: "gin_inv ?g" "gi_reverse ?g = (gi_reverse g)(i \<mapsto> gin_tokens E (gi_jsonb g) (row_Data row ! gi_colIndex g))"
      "gi_jsonb ?g = gi_jsonb g" "gi_colIndex ?g = gi_colIndex g" using a by simp_all
    have "\<forall>p \<ge> i + 1. gi_reverse ?g p = None" using Cons.prems(2) g(2) by simp
    moreover have "gin_rebuild E (i + 1) rows ?g = Some g'" using Cons.prems(3) True by (simp split: if_splits)
    ultimately have "gin_inv g' \<and> (\<forall>p. gi_reverse g' p = (if p < i + 1 then gi_reverse ?g p else
       (if nat (p - (i + 1)) < length rows \<and> DeletedTx (rows ! nat (p - (i + 1))) = 0
        then Some (gin_tokens E (gi_jsonb ?g) (row_Data (rows ! nat (p - (i + 1))) ! gi_colIndex ?g)) else None)))"
      by (rule Cons.IH [OF g(1)])
    then show ?thesis using nat True by (auto simp: g not_less le_less)
  next
    case False
    then have "gin_rebuild E (i + 1) rows g = Some g'" "\<forall>p \<ge> i + 1. gi_reverse g p = None" using Cons.prems(2,3) by simp_all
    then have "gin_inv g' \<and> (\<forall>p. gi_reverse g' p = (if p < i + 1 then gi_reverse g p else
       (if nat (p - (i + 1)) < length rows \<and> DeletedTx (rows ! nat (p - (i + 1))) = 0
        then Some (gin_tokens E (gi_jsonb g) (row_Data (rows ! nat (p - (i + 1))) ! gi_colIndex g)) else None)))"
      using Cons.IH [OF Cons.prems(1)] by blast
    moreover have "gi_reverse g i = None" using Cons.prems(2) by simp
    ultimately show ?thesis using nat False by (auto simp: not_less le_less)
  qed
qed auto

text \<open>A rebuilt index holds exactly the live rows under the tokens of their values.\<close>

lemma GIN_Rebuild_ok:
  assumes "GIN_Rebuild E rows g = Some g'"
  shows "gin_inv g' \<and> gi_reverse g' p = (if 0 \<le> p \<and> nat p < length rows \<and> DeletedTx (rows ! nat p) = 0
      then Some (gin_tokens E (gi_jsonb g) (row_Data (rows ! nat p) ! gi_colIndex g)) else None)"
  using gin_rebuild_ok [of "g\<lparr>gi_data := Map.empty, gi_reverse := Map.empty, gi_jsonValues := Map.empty\<rparr>" 0 E rows g'] assms
  by (auto simp: GIN_Rebuild_def gin_new_inv)

end
