(* ===== verification/Gist.thy ===== *)
theory Gist
  imports Index
begin

unbundle bit_operations_syntax

text \<open>
  The range index of \<^verbatim>\<open>index/gist_index.go\<close>: an R-tree over one-dimensional intervals. Modelled are building the tree from
  rows (\<^verbatim>\<open>Rebuild\<close>), the three searches, the removal of a row, and the conversion for the file.

  In these operations every node has its own part of a slice, so the tree is a value. \<^verbatim>\<open>Add\<close> is not modelled: its splits
  leave two nodes with overlapping slices. \<^verbatim>\<open>sort.Slice\<close> is a parameter of which only is used that it permutes; reading
  numbers with \<^verbatim>\<open>fmt.Sscanf\<close> is a parameter.
\<close>

section \<open>Intervals\<close>

record MBR =
  mbr_Min :: f64
  mbr_Max :: f64

definition neg_inf :: f64 where "neg_inf = 0xFFF0000000000000"
definition pos_inf :: f64 where "pos_inf = 0x7FF0000000000000"

definition math_Min :: "f64 \<Rightarrow> f64 \<Rightarrow> f64" where
  "math_Min x y =
     (if x = neg_inf \<or> y = neg_inf then neg_inf
      else if f64_nan x \<or> f64_nan y then quiet_nan
      else if f64_zero x \<and> f64_eq x y then if f64_neg x then x else y
      else if f64_less x y then x else y)"

definition math_Max :: "f64 \<Rightarrow> f64 \<Rightarrow> f64" where
  "math_Max x y =
     (if x = pos_inf \<or> y = pos_inf then pos_inf
      else if f64_nan x \<or> f64_nan y then quiet_nan
      else if f64_zero x \<and> f64_eq x y then if f64_neg x then y else x
      else if f64_less y x then x else y)"

definition mbrUnion :: "MBR \<Rightarrow> MBR \<Rightarrow> MBR" where
  "mbrUnion a b = \<lparr>mbr_Min = math_Min (mbr_Min a) (mbr_Min b), mbr_Max = math_Max (mbr_Max a) (mbr_Max b)\<rparr>"

definition mbrContains :: "MBR \<Rightarrow> f64 \<Rightarrow> f64 \<Rightarrow> bool" where
  "mbrContains m qmin qmax \<longleftrightarrow> f64_le (mbr_Min m) qmin \<and> f64_le qmax (mbr_Max m)"

definition mbrOverlaps :: "MBR \<Rightarrow> f64 \<Rightarrow> f64 \<Rightarrow> bool" where
  "mbrOverlaps m qmin qmax \<longleftrightarrow> f64_le (mbr_Min m) qmax \<and> f64_le qmin (mbr_Max m)"

section \<open>The tree\<close>

record gistEntry =
  ge_Key :: bytes
  ge_Pos :: int
  ge_Min :: f64
  ge_Max :: f64

datatype rtreeNode = Leaf (node_MBR: MBR) "gistEntry list" | Inner (node_MBR: MBR) "rtreeNode list"

definition entry_mbr :: "gistEntry \<Rightarrow> MBR" where
  "entry_mbr e = \<lparr>mbr_Min = ge_Min e, mbr_Max = ge_Max e\<rparr>"

fun updateMBR :: "rtreeNode \<Rightarrow> rtreeNode" where
  "updateMBR (Leaf m es) = Leaf (case es of [] \<Rightarrow> m | e # es' \<Rightarrow> fold (\<lambda>e m. mbrUnion m (entry_mbr e)) es' (entry_mbr e)) es"
| "updateMBR (Inner m cs) = Inner (case cs of [] \<Rightarrow> m | c # cs' \<Rightarrow> fold (\<lambda>c m. mbrUnion m (node_MBR c)) cs' (node_MBR c)) cs"

definition zero_mbr :: MBR where "zero_mbr = \<lparr>mbr_Min = 0, mbr_Max = 0\<rparr>"

record GiSTIndex =
  gs_name :: string
  gs_column :: string
  gs_colIndex :: nat
  gs_unique :: bool
  gs_root :: rtreeNode

definition NewGiSTIndex :: "string \<Rightarrow> string \<Rightarrow> nat \<Rightarrow> GiSTIndex" where
  "NewGiSTIndex name column colIndex =
     \<lparr>gs_name = name, gs_column = column, gs_colIndex = colIndex, gs_unique = False, gs_root = Leaf zero_mbr []\<rparr>"

definition GiST_SetUnique :: "bool \<Rightarrow> GiSTIndex \<Rightarrow> GiSTIndex" where "GiST_SetUnique u g = g\<lparr>gs_unique := u\<rparr>"

definition GiST_RenameColumn :: "string \<Rightarrow> string \<Rightarrow> GiSTIndex \<Rightarrow> GiSTIndex" where "GiST_RenameColumn old new g = g\<lparr>gs_column := new\<rparr>"

section \<open>Building\<close>

definition rtreeCapacity :: nat where "rtreeCapacity = 4"

text \<open>The number of parts of a given size is rounded up; lengths of slices are exact as floats.\<close>

definition chunk_size :: "nat \<Rightarrow> nat" where "chunk_size n = (n + (rtreeCapacity - 1)) div rtreeCapacity"

function chunks :: "nat \<Rightarrow> 'a list \<Rightarrow> 'a list list" where
  "chunks k xs = (if xs = [] \<or> k = 0 then [] else take k xs # chunks k (drop k xs))"
  by pat_completeness simp
termination by (relation "measure (\<lambda>(k, xs). length xs)") auto

declare chunks.simps [simp del]

lemma chunks_Nil [simp]: "chunks k [] = []"
  by (simp add: chunks.simps)

lemma chunks_props: "0 < k \<Longrightarrow> concat (chunks k xs) = xs \<and> (\<forall>c \<in> set (chunks k xs). c \<noteq> [] \<and> length c \<le> k)"
proof (induction k xs rule: chunks.induct)
  case (1 k xs)
  then show ?case by (cases "xs = []") (auto simp: chunks.simps [of k xs])
qed

lemma chunks_length: "0 < k \<Longrightarrow> length xs \<le> k * n \<Longrightarrow> length (chunks k xs) \<le> n"
proof (induction n arbitrary: xs)
  case (Suc n)
  then have "length (chunks k (drop k xs)) \<le> n" by (cases "xs = []") auto
  then show ?case using Suc.prems by (simp add: chunks.simps [of k xs])
qed simp

lemma four_chunks: "rtreeCapacity < n \<Longrightarrow> length xs = n \<Longrightarrow> length (chunks (chunk_size n) xs) \<le> rtreeCapacity"
  by (rule chunks_length) (auto simp: chunk_size_def rtreeCapacity_def)

function buildInternal :: "(rtreeNode list \<Rightarrow> rtreeNode list) \<Rightarrow> rtreeNode list \<Rightarrow> rtreeNode" where
  "buildInternal srtN cs =
     (let children = srtN cs
      in if length children \<le> rtreeCapacity then updateMBR (Inner zero_mbr children)
         else let parents = map (\<lambda>chunk. updateMBR (Inner zero_mbr chunk)) (chunks (chunk_size (length children)) children)
              in if length parents \<le> rtreeCapacity then updateMBR (Inner zero_mbr parents) else buildInternal srtN parents)"
  by pat_completeness simp
termination
proof (relation "{}", simp)
  fix srtN :: "rtreeNode list \<Rightarrow> rtreeNode list" and cs children parents
  assume "\<not> length children \<le> rtreeCapacity"
    "parents = map (\<lambda>chunk. updateMBR (Inner zero_mbr chunk)) (chunks (chunk_size (length children)) children)" "\<not> length parents \<le> rtreeCapacity"
  then have False using four_chunks [of "length children" children] by simp
  then show "((srtN, parents), (srtN, cs)) \<in> {}" ..
qed

text \<open>Each part has at most four entries, so the recursion is never taken.\<close>

function bulkLoad :: "(gistEntry list \<Rightarrow> gistEntry list) \<Rightarrow> (rtreeNode list \<Rightarrow> rtreeNode list) \<Rightarrow> gistEntry list \<Rightarrow> rtreeNode" where
  "bulkLoad srtE srtN es =
     (let entries = srtE es
      in if length entries \<le> rtreeCapacity then updateMBR (Leaf zero_mbr entries)
         else let chunkSize = min (chunk_size (length entries)) rtreeCapacity;
                  children = map (\<lambda>chunk. if length chunk \<le> rtreeCapacity then updateMBR (Leaf zero_mbr chunk) else bulkLoad srtE srtN chunk)
                    (chunks chunkSize entries)
              in if length children \<le> rtreeCapacity then updateMBR (Inner zero_mbr children) else buildInternal srtN children)"
  by pat_completeness simp
termination
proof (relation "{}", simp)
  fix srtE :: "gistEntry list \<Rightarrow> gistEntry list" and srtN :: "rtreeNode list \<Rightarrow> rtreeNode list" and es entries chunkSize chunk
  assume "\<not> length entries \<le> rtreeCapacity" "chunkSize = min (chunk_size (length entries)) rtreeCapacity" "chunk \<in> set (chunks chunkSize entries)"
    "\<not> length chunk \<le> rtreeCapacity"
  moreover from this have "0 < chunkSize" by (auto simp: chunk_size_def rtreeCapacity_def)
  ultimately have False using chunks_props [of chunkSize entries] by auto
  then show "((srtE, srtN, chunk), (srtE, srtN, es)) \<in> {}" ..
qed

declare buildInternal.simps [simp del] bulkLoad.simps [simp del]

definition gistValueToString :: "('j val \<Rightarrow> bytes) \<Rightarrow> 'j val \<Rightarrow> bytes" where
  "gistValueToString fmt v = (if v = VNil then [] else sprint_v fmt (Raw v))"

text \<open>The two calls of \<^verbatim>\<open>fmt.Sscanf\<close>: how many numbers were read, whether without an error, and the numbers.\<close>

record scanner =
  scan_range :: "bytes \<Rightarrow> nat \<times> bool \<times> f64 \<times> f64"
  scan_number :: "bytes \<Rightarrow> nat \<times> bool \<times> f64"

definition gistParseRange :: "scanner \<Rightarrow> bytes \<Rightarrow> f64 \<times> f64" where
  "gistParseRange sc s =
     (case scan_range sc s of (n, ok, mn, mx) \<Rightarrow>
        if \<not> ok \<or> n < 1
        then (case scan_number sc s of (f, ok, mn) \<Rightarrow> if ok \<and> f = 1 then (mn, mn) else (0, 0))
        else if n = 1 then (mn, mn) else (mn, mx))"

definition gist_entry :: "('j val \<Rightarrow> bytes) \<Rightarrow> scanner \<Rightarrow> int \<Rightarrow> 'j val \<Rightarrow> gistEntry" where
  "gist_entry fmt sc i v =
     (let s = gistValueToString fmt v; r = gistParseRange sc s in \<lparr>ge_Key = s, ge_Pos = i, ge_Min = fst r, ge_Max = snd r\<rparr>)"

text \<open>The entries of the rows that are not deleted; a row that is too short for the column is an index out of range.\<close>

fun gist_entries :: "('j val \<Rightarrow> bytes) \<Rightarrow> scanner \<Rightarrow> nat \<Rightarrow> int \<Rightarrow> 'j IndexableRow list \<Rightarrow> gistEntry list option" where
  "gist_entries fmt sc ci i [] = Some []"
| "gist_entries fmt sc ci i (row # rows) =
     (if DeletedTx row = 0
      then if ci < length (row_Data row)
           then map_option (\<lambda>es. gist_entry fmt sc i (row_Data row ! ci) # es) (gist_entries fmt sc ci (i + 1) rows)
           else None
      else gist_entries fmt sc ci (i + 1) rows)"

definition GiST_Rebuild ::
  "(gistEntry list \<Rightarrow> gistEntry list) \<Rightarrow> (rtreeNode list \<Rightarrow> rtreeNode list) \<Rightarrow> ('j val \<Rightarrow> bytes) \<Rightarrow> scanner \<Rightarrow> 'j IndexableRow list
    \<Rightarrow> GiSTIndex \<Rightarrow> GiSTIndex option" where
  "GiST_Rebuild srtE srtN fmt sc rows g =
     map_option (\<lambda>entries. g\<lparr>gs_root := if length entries = 0 then Leaf zero_mbr [] else bulkLoad srtE srtN entries\<rparr>)
       (gist_entries fmt sc (gs_colIndex g) 0 rows)"

section \<open>Removing and searching\<close>

fun removeNode :: "int \<Rightarrow> rtreeNode \<Rightarrow> rtreeNode \<times> bool"
  and remove_child :: "int \<Rightarrow> rtreeNode list \<Rightarrow> rtreeNode list \<times> bool" where
  "removeNode rowID (Leaf m es) =
     (let i = length (takeWhile (\<lambda>e. ge_Pos e \<noteq> rowID) es)
      in if i < length es then (updateMBR (Leaf m (remove_at i es)), True) else (Leaf m es, False))"
| "removeNode rowID (Inner m cs) =
     (case remove_child rowID cs of (cs', True) \<Rightarrow> (updateMBR (Inner m cs'), True) | (cs', False) \<Rightarrow> (Inner m cs', False))"
| "remove_child rowID [] = ([], False)"
| "remove_child rowID (c # cs) =
     (case removeNode rowID c of
        (c', True) \<Rightarrow> (c' # cs, True)
      | (c', False) \<Rightarrow> (case remove_child rowID cs of (cs', ok) \<Rightarrow> (c' # cs', ok)))"

definition GiST_Remove :: "int \<Rightarrow> GiSTIndex \<Rightarrow> GiSTIndex" where
  "GiST_Remove rowID g = g\<lparr>gs_root := fst (removeNode rowID (gs_root g))\<rparr>"

fun lookupNode :: "bytes \<Rightarrow> rtreeNode \<Rightarrow> int list" where
  "lookupNode v (Leaf m es) = map ge_Pos (filter (\<lambda>e. ge_Key e = v) es)"
| "lookupNode v (Inner m cs) = concat (map (lookupNode v) cs)"

definition GiST_Lookup :: "GiSTIndex \<Rightarrow> bytes \<Rightarrow> int list \<times> bool" where
  "GiST_Lookup g v = (let result = lookupNode v (gs_root g) in (result, 0 < length result))"

fun searchRangeNode :: "f64 \<Rightarrow> f64 \<Rightarrow> rtreeNode \<Rightarrow> int list" where
  "searchRangeNode mn mx (Leaf m es) = map ge_Pos (filter (\<lambda>e. f64_le mn (ge_Max e) \<and> f64_le (ge_Min e) mx) es)"
| "searchRangeNode mn mx (Inner m cs) =
     concat (map (\<lambda>c. if mbrContains (node_MBR c) mn mx \<or> mbrOverlaps (node_MBR c) mn mx then searchRangeNode mn mx c else []) cs)"

definition SearchRange :: "GiSTIndex \<Rightarrow> f64 \<Rightarrow> f64 \<Rightarrow> int list" where
  "SearchRange g mn mx = searchRangeNode mn mx (gs_root g)"

fun searchOverlapNode :: "f64 \<Rightarrow> f64 \<Rightarrow> rtreeNode \<Rightarrow> int list" where
  "searchOverlapNode qmin qmax (Leaf m es) = map ge_Pos (filter (\<lambda>e. f64_le (ge_Min e) qmax \<and> f64_le qmin (ge_Max e)) es)"
| "searchOverlapNode qmin qmax (Inner m cs) =
     concat (map (\<lambda>c. if mbrOverlaps (node_MBR c) qmin qmax then searchOverlapNode qmin qmax c else []) cs)"

definition SearchOverlap :: "GiSTIndex \<Rightarrow> f64 \<Rightarrow> f64 \<Rightarrow> int list" where
  "SearchOverlap g qmin qmax = searchOverlapNode qmin qmax (gs_root g)"

section \<open>The file\<close>

datatype rtreeNodeSerial = Serial MBR "rtreeNodeSerial list" "gistEntry list" bool

fun serializeTree :: "rtreeNode \<Rightarrow> rtreeNodeSerial" where
  "serializeTree (Leaf m es) = Serial m [] es True"
| "serializeTree (Inner m cs) = Serial m (map serializeTree cs) [] False"

fun deserializeTree :: "rtreeNodeSerial \<Rightarrow> rtreeNode" where
  "deserializeTree (Serial m cs es isLeaf) = (if isLeaf then Leaf m es else Inner m (map deserializeTree cs))"

section \<open>Numbers and intervals\<close>

lemma f64_magnitude:
  assumes "\<not> f64_nan x"
  shows "unat (x AND 0x7FFFFFFFFFFFFFFF) \<le> 0x7FF0000000000000"
proof -
  define y where "y = take_bit 63 x"
  have m: "(0x7FFFFFFFFFFFFFFF :: f64) = Bit_Operations.mask 63" "(0x7FF :: f64) = Bit_Operations.mask 11" "(0xFFFFFFFFFFFFF :: f64) = Bit_Operations.mask 52"
    by (simp_all add: mask_eq_exp_minus_1)
  have e: "f64_exp x = unat (drop_bit 52 y)" by (simp add: f64_exp_def m(2) y_def drop_bit_take_bit flip: take_bit_eq_mask)
  have f: "f64_frac x = unat (take_bit 52 y)" by (simp add: f64_frac_def m(3) y_def flip: take_bit_eq_mask)
  have "unat y = unat (drop_bit 52 y) * 2 ^ 52 + unat (take_bit 52 y)"
    by (simp add: drop_bit_eq_div take_bit_eq_mod unat_div_distrib unat_mod_distrib)
  moreover have "unat (take_bit 52 y) < 2 ^ 52" by (simp add: take_bit_eq_mod unat_mod_distrib)
  moreover have "unat (drop_bit 52 y) < 2 ^ 11"
  proof -
    have "drop_bit 52 y = take_bit 11 (drop_bit 52 x)" by (simp add: y_def drop_bit_take_bit)
    then show ?thesis by (simp add: take_bit_eq_mod unat_mod_distrib)
  qed
  ultimately have "unat y \<le> 0x7FF0000000000000" using assms e f by (cases "f64_exp x = 0x7FF") (auto simp: f64_nan_def)
  then show ?thesis by (simp add: y_def m(1) take_bit_eq_mask)
qed

lemma f64_inf_bounds:
  assumes "\<not> f64_nan x"
  shows "f64_le neg_inf x \<and> f64_le x pos_inf"
proof -
  let ?u = "uint (x AND 0x7FFFFFFFFFFFFFFF)"
  have "nat ?u \<le> 0x7FF0000000000000" using f64_magnitude [OF assms] by (simp only: unat_eq_nat_uint)
  then have "?u \<le> 0x7FF0000000000000" "0 \<le> ?u" by (simp_all only: nat_le_iff of_nat_numeral uint_ge_0)
  moreover have "\<not> f64_nan neg_inf" "\<not> f64_nan pos_inf" "f64_key neg_inf = - 0x7FF0000000000000" "f64_key pos_inf = 0x7FF0000000000000"
    by (simp_all add: f64_nan_def f64_exp_def f64_frac_def f64_key_def f64_signed_def f64_neg_def neg_inf_def pos_inf_def bit_iff_odd_drop_bit)
  moreover have "f64_key x = ?u \<or> f64_key x = - ?u" by (simp add: f64_key_def f64_signed_def)
  ultimately show ?thesis using assms unfolding f64_le_def by (smt (verit))
qed

lemma f64_le_trans: "f64_le x y \<Longrightarrow> f64_le y z \<Longrightarrow> f64_le x z"
  by (auto simp: f64_le_def)

lemma f64_le_refl: "\<not> f64_nan x \<Longrightarrow> f64_le x x"
  by (simp add: f64_le_def)

lemma math_Min_le: "\<not> f64_nan x \<Longrightarrow> \<not> f64_nan y \<Longrightarrow> f64_le (math_Min x y) x \<and> f64_le (math_Min x y) y"
  using f64_inf_bounds [of x] f64_inf_bounds [of y] by (auto simp: math_Min_def f64_le_def f64_less_def f64_eq_def)

lemma math_Max_ge: "\<not> f64_nan x \<Longrightarrow> \<not> f64_nan y \<Longrightarrow> f64_le x (math_Max x y) \<and> f64_le y (math_Max x y)"
  using f64_inf_bounds [of x] f64_inf_bounds [of y] by (auto simp: math_Max_def f64_le_def f64_less_def f64_eq_def)

definition proper :: "MBR \<Rightarrow> bool" where
  "proper m \<longleftrightarrow> \<not> f64_nan (mbr_Min m) \<and> \<not> f64_nan (mbr_Max m)"

definition within :: "MBR \<Rightarrow> MBR \<Rightarrow> bool" where
  "within a b \<longleftrightarrow> f64_le (mbr_Min b) (mbr_Min a) \<and> f64_le (mbr_Max a) (mbr_Max b)"

lemma within_trans: "within a b \<Longrightarrow> within b c \<Longrightarrow> within a c"
  by (auto simp: within_def intro: f64_le_trans)

lemma within_proper: "within a b \<Longrightarrow> proper a \<and> proper b"
  by (simp add: within_def f64_le_def proper_def)

lemma mbrUnion_within: "proper a \<Longrightarrow> proper b \<Longrightarrow> within a (mbrUnion a b) \<and> within b (mbrUnion a b)"
  using math_Min_le math_Max_ge by (simp add: proper_def within_def mbrUnion_def)

lemma fold_mbrUnion:
  "proper m \<Longrightarrow> (\<forall>x \<in> set xs. proper (f x)) \<Longrightarrow>
     within m (fold (\<lambda>x m. mbrUnion m (f x)) xs m) \<and> (\<forall>x \<in> set xs. within (f x) (fold (\<lambda>x m. mbrUnion m (f x)) xs m))"
proof (induction xs arbitrary: m)
  case Nil
  then show ?case by (simp add: within_def proper_def f64_le_refl)
next
  case (Cons x xs)
  have u: "within m (mbrUnion m (f x))" "within (f x) (mbrUnion m (f x))" using mbrUnion_within Cons.prems by auto
  have "proper (mbrUnion m (f x))" using within_proper [OF u(1)] by simp
  then show ?case using Cons.IH [of "mbrUnion m (f x)"] Cons.prems u by (auto intro: within_trans)
qed

section \<open>Trees cover their entries\<close>

fun node_entries :: "rtreeNode \<Rightarrow> gistEntry list" where
  "node_entries (Leaf m es) = es"
| "node_entries (Inner m cs) = concat (map node_entries cs)"

fun tree_ok :: "rtreeNode \<Rightarrow> bool" where
  "tree_ok (Leaf m es) \<longleftrightarrow> proper m \<and> (\<forall>e \<in> set es. within (entry_mbr e) m)"
| "tree_ok (Inner m cs) \<longleftrightarrow> proper m \<and> (\<forall>c \<in> set cs. tree_ok c \<and> within (node_MBR c) m)"

lemma tree_ok_proper: "tree_ok t \<Longrightarrow> proper (node_MBR t)"
  by (cases t) auto

lemma tree_ok_covers: "tree_ok t \<Longrightarrow> e \<in> set (node_entries t) \<Longrightarrow> within (entry_mbr e) (node_MBR t)"
proof (induction t)
  case (Inner m cs)
  then show ?case by (auto intro: within_trans)
qed auto

lemma proper_zero_mbr: "proper zero_mbr"
  by (simp add: proper_def zero_mbr_def f64_nan_def f64_exp_def f64_frac_def)

lemma updateMBR_entries [simp]: "node_entries (updateMBR t) = node_entries t"
  by (cases t) simp_all

lemma updateMBR_Leaf:
  assumes "proper m" "\<forall>e \<in> set es. proper (entry_mbr e)"
  shows "tree_ok (updateMBR (Leaf m es))"
proof (cases es)
  case (Cons e es')
  then have "proper (entry_mbr e)" "\<forall>e \<in> set es'. proper (entry_mbr e)" using assms by auto
  from fold_mbrUnion [OF this] show ?thesis using Cons by (auto dest: within_proper)
qed (use assms in simp)

lemma updateMBR_Inner:
  assumes "proper m" "\<forall>c \<in> set cs. tree_ok c"
  shows "tree_ok (updateMBR (Inner m cs))"
proof (cases cs)
  case (Cons c cs')
  then have "proper (node_MBR c)" "\<forall>c \<in> set cs'. proper (node_MBR c)" using assms tree_ok_proper by auto
  from fold_mbrUnion [OF this] show ?thesis using Cons assms(2) by (auto dest: within_proper)
qed (use assms in simp)

declare updateMBR.simps [simp del]

lemma buildInternal_ok:
  assumes "\<And>xs. mset (srtN xs) = mset xs" "\<forall>c \<in> set cs. tree_ok c"
  shows "tree_ok (buildInternal srtN cs) \<and> mset (node_entries (buildInternal srtN cs)) = mset (concat (map node_entries cs))"
proof -
  define children where "children = srtN cs"
  have ch: "\<forall>c \<in> set children. tree_ok c" "mset (concat (map node_entries children)) = mset (concat (map node_entries cs))"
    using assms mset_eq_setD [OF assms(1) [of cs]] by (auto simp: children_def mset_concat simp flip: sum_mset_sum_list)
  define parents where "parents = map (\<lambda>chunk. updateMBR (Inner zero_mbr chunk)) (chunks (chunk_size (length children)) children)"
  show ?thesis
  proof (cases "length children \<le> rtreeCapacity")
    case True
    then have "buildInternal srtN cs = updateMBR (Inner zero_mbr children)" by (simp add: buildInternal.simps children_def Let_def)
    then show ?thesis using ch updateMBR_Inner [OF proper_zero_mbr ch(1)] by simp
  next
    case False
    have p: "length parents \<le> rtreeCapacity" using four_chunks [of "length children" children] False by (simp add: parents_def)
    have "0 < chunk_size (length children)" using False by (simp add: chunk_size_def rtreeCapacity_def div_greater_zero_iff)
    then have c: "concat (chunks (chunk_size (length children)) children) = children" by (rule chunks_props [THEN conjunct1])
    have "set children = (\<Union>chunk \<in> set (chunks (chunk_size (length children)) children). set chunk)" by (metis c set_concat)
    then have "\<forall>chunk \<in> set (chunks (chunk_size (length children)) children). \<forall>c \<in> set chunk. tree_ok c" using ch(1) by blast
    then have ok: "\<forall>q \<in> set parents. tree_ok q" by (auto simp: parents_def intro!: updateMBR_Inner proper_zero_mbr)
    have "concat (map node_entries parents) = concat (map node_entries (concat (chunks (chunk_size (length children)) children)))"
    proof -
      have "concat (map (\<lambda>ch. concat (map node_entries ch)) css) = concat (map node_entries (concat css))" for css by (induction css) auto
      then show ?thesis by (simp add: parents_def comp_def)
    qed
    then have "concat (map node_entries parents) = concat (map node_entries children)" by (simp only: c)
    moreover have "buildInternal srtN cs = updateMBR (Inner zero_mbr parents)"
      using False p by (subst buildInternal.simps) (simp add: children_def [symmetric] parents_def [symmetric] Let_def)
    ultimately show ?thesis using ch(2) updateMBR_Inner [OF proper_zero_mbr ok] by simp
  qed
qed

lemma bulkLoad_ok:
  assumes "\<And>xs. mset (srtE xs) = mset xs" "\<And>xs. mset (srtN xs) = mset xs" "\<forall>e \<in> set es. proper (entry_mbr e)"
  shows "tree_ok (bulkLoad srtE srtN es) \<and> mset (node_entries (bulkLoad srtE srtN es)) = mset es"
proof -
  define entries where "entries = srtE es"
  have en: "\<forall>e \<in> set entries. proper (entry_mbr e)" "mset entries = mset es"
    using assms(1,3) mset_eq_setD [OF assms(1) [of es]] by (simp_all add: entries_def)
  define k where "k = min (chunk_size (length entries)) rtreeCapacity"
  define children where "children = map (\<lambda>chunk. updateMBR (Leaf zero_mbr chunk)) (chunks k entries)"
  show ?thesis
  proof (cases "length entries \<le> rtreeCapacity")
    case True
    then have "bulkLoad srtE srtN es = updateMBR (Leaf zero_mbr entries)" by (simp add: bulkLoad.simps entries_def Let_def)
    then show ?thesis using en updateMBR_Leaf [OF proper_zero_mbr en(1)] by simp
  next
    case False
    then have k: "0 < k" "k \<le> rtreeCapacity" by (auto simp: k_def chunk_size_def rtreeCapacity_def)
    note c = chunks_props [OF k(1), of entries]
    have b: "bulkLoad srtE srtN es = (if length children \<le> rtreeCapacity then updateMBR (Inner zero_mbr children) else buildInternal srtN children)"
    proof -
      have "map (\<lambda>chunk. if length chunk \<le> rtreeCapacity then updateMBR (Leaf zero_mbr chunk) else bulkLoad srtE srtN chunk) (chunks k entries) = children"
        unfolding children_def using c k(2) by (intro map_cong) auto
      moreover have "length (chunks k entries) = length children" by (simp add: children_def)
      ultimately show ?thesis using False by (subst bulkLoad.simps) (simp add: entries_def [symmetric] k_def [symmetric] Let_def)
    qed
    have "set entries = (\<Union>chunk \<in> set (chunks k entries). set chunk)" by (metis c set_concat)
    then have "\<forall>chunk \<in> set (chunks k entries). \<forall>e \<in> set chunk. proper (entry_mbr e)" using en(1) by blast
    then have ok: "\<forall>q \<in> set children. tree_ok q" by (auto simp: children_def intro!: updateMBR_Leaf proper_zero_mbr)
    have "concat (map node_entries children) = entries" using c by (simp add: children_def comp_def)
    then show ?thesis
      unfolding b using ok en(2) buildInternal_ok [OF assms(2) ok] updateMBR_Inner [OF proper_zero_mbr ok] by simp
  qed
qed

section \<open>Removing and searching\<close>

text \<open>The first entry at the position goes.\<close>

definition drop_pos :: "int \<Rightarrow> gistEntry list \<Rightarrow> gistEntry list" where
  "drop_pos r es = (let i = length (takeWhile (\<lambda>e. ge_Pos e \<noteq> r) es) in if i < length es then remove_at i es else es)"

lemma takeWhile_lt: "length (takeWhile (\<lambda>e. ge_Pos e \<noteq> r) es) < length es \<longleftrightarrow> r \<in> ge_Pos ` set es"
  by (induction es) auto

lemma drop_pos_Nil [simp]: "drop_pos r [] = []"
  by (simp add: drop_pos_def)

lemma drop_pos_Cons [simp]: "drop_pos r (e # es) = (if ge_Pos e = r then es else e # drop_pos r es)"
  by (simp add: drop_pos_def remove_at_def Let_def)

lemma drop_pos_append: "drop_pos r (xs @ ys) = (if r \<in> ge_Pos ` set xs then drop_pos r xs @ ys else xs @ drop_pos r ys)"
  by (induction xs) auto

lemma drop_pos_set: "distinct (map ge_Pos es) \<Longrightarrow> set (drop_pos r es) = {e \<in> set es. ge_Pos e \<noteq> r} \<and> distinct (map ge_Pos (drop_pos r es))"
  by (induction es) (auto simp: image_iff)

lemma set_drop_pos: "set (drop_pos r es) \<subseteq> set es"
  by (induction es) auto

lemma entry_proper: "within (entry_mbr e) m \<Longrightarrow> proper (entry_mbr e)"
  by (simp add: within_proper)

lemma removeNode_ok:
  "tree_ok t \<Longrightarrow> tree_ok (fst (removeNode r t)) \<and> node_entries (fst (removeNode r t)) = drop_pos r (node_entries t)
     \<and> (snd (removeNode r t) \<longleftrightarrow> r \<in> ge_Pos ` set (node_entries t)) \<and> (\<not> snd (removeNode r t) \<longrightarrow> fst (removeNode r t) = t)"
  "(\<forall>c \<in> set cs. tree_ok c) \<Longrightarrow> (\<forall>c \<in> set (fst (remove_child r cs)). tree_ok c)
     \<and> concat (map node_entries (fst (remove_child r cs))) = drop_pos r (concat (map node_entries cs))
     \<and> (snd (remove_child r cs) \<longleftrightarrow> r \<in> ge_Pos ` set (concat (map node_entries cs)))
     \<and> (\<not> snd (remove_child r cs) \<longrightarrow> fst (remove_child r cs) = cs)"
proof (induction r t and r cs rule: removeNode_remove_child.induct)
  case (1 r m es)
  have "tree_ok (updateMBR (Leaf m (drop_pos r es)))"
    using 1 set_drop_pos [of r es] by (intro updateMBR_Leaf) (auto intro: entry_proper)
  then show ?case using 1 takeWhile_lt [of r es] by (auto simp: drop_pos_def Let_def)
next
  case (2 r m cs)
  have cs: "\<forall>c \<in> set cs. tree_ok c" using 2 by simp
  obtain cs' ok where c: "remove_child r cs = (cs', ok)" by fastforce
  have IH: "\<forall>c \<in> set cs'. tree_ok c" "concat (map node_entries cs') = drop_pos r (concat (map node_entries cs))"
    "ok \<longleftrightarrow> r \<in> ge_Pos ` set (concat (map node_entries cs))" "\<not> ok \<Longrightarrow> cs' = cs" using 2(1) [OF cs] c by auto
  then show ?case using 2(2) c updateMBR_Inner [of m cs'] by (cases ok) auto
next
  case (4 r c cs)
  obtain c' ok where c: "removeNode r c = (c', ok)" by fastforce
  have IH: "tree_ok c'" "node_entries c' = drop_pos r (node_entries c)" "ok \<longleftrightarrow> r \<in> ge_Pos ` set (node_entries c)"
      "\<not> ok \<Longrightarrow> c' = c" using 4(1) 4(3) c by auto
  show ?case
  proof (cases ok)
    case True
    then show ?thesis using c IH 4(3) by (simp add: drop_pos_append image_Un)
  next
    case False
    then have same: "c' = c" using IH(4) by simp
    obtain cs' ok' where c2: "remove_child r cs = (cs', ok')" by fastforce
    have "(\<forall>c \<in> set cs'. tree_ok c) \<and> concat (map node_entries cs') = drop_pos r (concat (map node_entries cs))
        \<and> (ok' \<longleftrightarrow> r \<in> ge_Pos ` set (concat (map node_entries cs))) \<and> (\<not> ok' \<longrightarrow> cs' = cs)"
      using 4(2) c False 4(3) c2 by auto
    then show ?thesis using c c2 False IH same 4(3) by (simp add: drop_pos_append image_Un)
  qed
qed simp

lemma overlaps_covered:
  assumes "within (entry_mbr e) m" "f64_le mn (ge_Max e)" "f64_le (ge_Min e) mx"
  shows "mbrOverlaps m mn mx"
  using assms by (auto simp: within_def entry_mbr_def mbrOverlaps_def intro: f64_le_trans)

lemma pruned_empty:
  "tree_ok c \<Longrightarrow> \<not> mbrOverlaps (node_MBR c) mn mx \<Longrightarrow> filter (\<lambda>e. f64_le mn (ge_Max e) \<and> f64_le (ge_Min e) mx) (node_entries c) = []"
  unfolding filter_empty_conv using overlaps_covered [OF tree_ok_covers] by blast

text \<open>Pruning by the bounding intervals loses nothing: the searches see every entry.\<close>

lemma searchRange_all: "tree_ok t \<Longrightarrow> searchRangeNode mn mx t = map ge_Pos (filter (\<lambda>e. f64_le mn (ge_Max e) \<and> f64_le (ge_Min e) mx) (node_entries t))"
proof (induction t)
  case (Inner m cs)
  have "(if mbrContains (node_MBR c) mn mx \<or> mbrOverlaps (node_MBR c) mn mx then searchRangeNode mn mx c else [])
      = map ge_Pos (filter (\<lambda>e. f64_le mn (ge_Max e) \<and> f64_le (ge_Min e) mx) (node_entries c))" if c: "c \<in> set cs" for c
  proof (cases "mbrContains (node_MBR c) mn mx \<or> mbrOverlaps (node_MBR c) mn mx")
    case False
    then show ?thesis using pruned_empty [of c mn mx] Inner.prems c by simp
  qed (use Inner c in auto)
  then show ?case by (simp add: filter_concat map_concat comp_def cong: map_cong)
qed simp

lemma searchOverlap_all: "tree_ok t \<Longrightarrow> searchOverlapNode mn mx t = map ge_Pos (filter (\<lambda>e. f64_le mn (ge_Max e) \<and> f64_le (ge_Min e) mx) (node_entries t))"
proof (induction t)
  case (Inner m cs)
  have "(if mbrOverlaps (node_MBR c) mn mx then searchOverlapNode mn mx c else [])
      = map ge_Pos (filter (\<lambda>e. f64_le mn (ge_Max e) \<and> f64_le (ge_Min e) mx) (node_entries c))" if c: "c \<in> set cs" for c
  proof (cases "mbrOverlaps (node_MBR c) mn mx")
    case False
    then show ?thesis using pruned_empty [of c mn mx] Inner.prems c by simp
  qed (use Inner c in auto)
  then show ?case by (simp add: filter_concat map_concat comp_def cong: map_cong)
qed (simp add: conj_commute)

lemma lookup_all: "lookupNode v t = map ge_Pos (filter (\<lambda>e. ge_Key e = v) (node_entries t))"
  by (induction t) (simp_all add: filter_concat map_concat comp_def cong: map_cong)

section \<open>The index of a table\<close>

text \<open>The entry of the row at a position.\<close>

definition gist_at :: "('j val \<Rightarrow> bytes) \<Rightarrow> scanner \<Rightarrow> nat \<Rightarrow> 'j IndexableRow list \<Rightarrow> int \<rightharpoonup> gistEntry" where
  "gist_at fmt sc ci rows p =
     (if 0 \<le> p \<and> nat p < length rows \<and> DeletedTx (rows ! nat p) = 0 then Some (gist_entry fmt sc p (row_Data (rows ! nat p) ! ci)) else None)"

lemma gist_entry_Pos [simp]: "ge_Pos (gist_entry fmt sc p v) = p"
  by (simp add: gist_entry_def Let_def)

lemma gist_entries_ok:
  "gist_entries fmt sc ci i rows = Some es \<Longrightarrow> distinct (map ge_Pos es) \<and> (\<forall>e \<in> set es. i \<le> ge_Pos e)
     \<and> (\<forall>e. e \<in> set es \<longleftrightarrow> (\<exists>k < length rows. DeletedTx (rows ! k) = 0 \<and> e = gist_entry fmt sc (i + int k) (row_Data (rows ! k) ! ci)))"
proof (induction rows arbitrary: i es)
  case (Cons row rows)
  define Q where "Q e row p \<longleftrightarrow> DeletedTx row = 0 \<and> e = gist_entry fmt sc p (row_Data row ! ci)" for e and row :: "'a IndexableRow" and p
  have split: "(\<exists>k < length (row # rows). Q e ((row # rows) ! k) (i + int k)) = (Q e row i \<or> (\<exists>k < length rows. Q e (rows ! k) (i + 1 + int k)))" for e
    by (simp add: Ex_less_Suc2 ac_simps)
  show ?case
  proof (cases "DeletedTx row = 0")
    case True
    then obtain es' where es: "gist_entries fmt sc ci (i + 1) rows = Some es'" "es = gist_entry fmt sc i (row_Data row ! ci) # es'"
      using Cons.prems by (auto split: if_splits)
    note IH = Cons.IH [OF es(1), folded Q_def]
    have "i \<notin> ge_Pos ` set es'" using IH by force
    moreover have "e \<in> set es \<longleftrightarrow> (\<exists>k < length (row # rows). Q e ((row # rows) ! k) (i + int k))" for e
      unfolding split using IH es(2) True by (simp add: Q_def)
    moreover have "\<forall>e \<in> set es. i \<le> ge_Pos e" using IH es(2) by force
    ultimately show ?thesis using IH es(2) unfolding Q_def by simp
  next
    case False
    then have es: "gist_entries fmt sc ci (i + 1) rows = Some es" using Cons.prems by simp
    note IH = Cons.IH [OF es, folded Q_def]
    have "e \<in> set es \<longleftrightarrow> (\<exists>k < length (row # rows). Q e ((row # rows) ! k) (i + int k))" for e
      unfolding split using IH False by (simp add: Q_def)
    moreover have "\<forall>e \<in> set es. i \<le> ge_Pos e" using IH by force
    ultimately show ?thesis using IH unfolding Q_def by simp
  qed
qed simp

lemma gist_entries_at:
  assumes "gist_entries fmt sc ci 0 rows = Some es"
  shows "distinct (map ge_Pos es)" "e \<in> set es \<longleftrightarrow> gist_at fmt sc ci rows (ge_Pos e) = Some e"
proof -
  note g = gist_entries_ok [OF assms]
  show "distinct (map ge_Pos es)" using g by blast
  have "e \<in> set es \<longleftrightarrow> (\<exists>k < length rows. DeletedTx (rows ! k) = 0 \<and> e = gist_entry fmt sc (int k) (row_Data (rows ! k) ! ci))" using g by simp
  also have "\<dots> \<longleftrightarrow> gist_at fmt sc ci rows (ge_Pos e) = Some e"
  proof
    assume "\<exists>k < length rows. DeletedTx (rows ! k) = 0 \<and> e = gist_entry fmt sc (int k) (row_Data (rows ! k) ! ci)"
    then obtain k where "k < length rows" "DeletedTx (rows ! k) = 0" "e = gist_entry fmt sc (int k) (row_Data (rows ! k) ! ci)" by blast
    then show "gist_at fmt sc ci rows (ge_Pos e) = Some e" by (simp add: gist_at_def)
  next
    assume "gist_at fmt sc ci rows (ge_Pos e) = Some e"
    then show "\<exists>k < length rows. DeletedTx (rows ! k) = 0 \<and> e = gist_entry fmt sc (int k) (row_Data (rows ! k) ! ci)"
      by (intro exI [of _ "nat (ge_Pos e)"]) (simp add: gist_at_def split: if_splits)
  qed
  finally show "e \<in> set es \<longleftrightarrow> gist_at fmt sc ci rows (ge_Pos e) = Some e" .
qed

lemma GiST_Removes:
  "tree_ok (gs_root g) \<Longrightarrow> distinct (map ge_Pos (node_entries (gs_root g))) \<Longrightarrow>
     tree_ok (gs_root (fold GiST_Remove rs g)) \<and> distinct (map ge_Pos (node_entries (gs_root (fold GiST_Remove rs g))))
     \<and> set (node_entries (gs_root (fold GiST_Remove rs g))) = {e \<in> set (node_entries (gs_root g)). ge_Pos e \<notin> set rs}"
proof (induction rs arbitrary: g)
  case (Cons r rs)
  have g: "tree_ok (gs_root (GiST_Remove r g))" "node_entries (gs_root (GiST_Remove r g)) = drop_pos r (node_entries (gs_root g))"
    using removeNode_ok(1) [OF Cons.prems(1), of r] by (simp_all add: GiST_Remove_def)
  have d: "set (node_entries (gs_root (GiST_Remove r g))) = {e \<in> set (node_entries (gs_root g)). ge_Pos e \<noteq> r}"
    "distinct (map ge_Pos (node_entries (gs_root (GiST_Remove r g))))" unfolding g(2) using drop_pos_set [OF Cons.prems(2), of r] by simp_all
  then show ?case using Cons.IH [OF g(1) d(2)] by auto
qed simp


definition demo_scan :: scanner where
  "demo_scan = \<lparr>scan_range = (\<lambda>_. (0, False, 0, 0)), scan_number = (\<lambda>s. (1, True, if s = ascii ''a'' then 0 else 0x3FF0000000000000))\<rparr>"

definition gist_rows :: "unit IndexableRow list" where
  "gist_rows = [\<lparr>DeletedTx = 0, row_Data = [VString (ascii ''b'')]\<rparr>, \<lparr>DeletedTx = 0, row_Data = [VString (ascii ''a'')]\<rparr>,
     \<lparr>DeletedTx = 7, row_Data = [VString (ascii ''a'')]\<rparr>, \<lparr>DeletedTx = 0, row_Data = [VString (ascii ''a'')]\<rparr>]"

lemma demo_parse: "gistParseRange demo_scan s = (if s = ascii ''a'' then (0, 0) else (0x3FF0000000000000, 0x3FF0000000000000))"
  by (simp add: gistParseRange_def demo_scan_def)

lemma demo_numbers: "\<not> f64_nan 0" "\<not> f64_nan 0x3FF0000000000000" "f64_le 0 0" "\<not> f64_le 0x3FF0000000000000 0"
  by (simp_all add: f64_nan_def f64_exp_def f64_frac_def f64_le_def f64_key_def f64_signed_def f64_neg_def bit_iff_odd_drop_bit)

lemma demo_at:
  "gist_at no_fmt demo_scan (gs_colIndex (NewGiSTIndex ''i'' ''c'' 0)) gist_rows p =
     (if p = 0 then Some (gist_entry no_fmt demo_scan 0 (VString (ascii ''b'')))
      else if p = 1 \<or> p = 3 then Some (gist_entry no_fmt demo_scan p (VString (ascii ''a''))) else None)"
proof -
  consider "p = 0" | "p = 1" | "p = 2" | "p = 3" | "p \<notin> {0, 1, 2, 3}" by blast
  then show ?thesis
  proof cases
    case 5
    then have "\<not> (0 \<le> p \<and> nat p < length gist_rows)" by (auto simp: gist_rows_def)
    then show ?thesis using 5 unfolding gist_at_def by auto
  qed (simp_all add: gist_at_def gist_rows_def NewGiSTIndex_def)
qed


text \<open>A tree is read back from its file form.\<close>

lemma deserialize_serialize: "deserializeTree (serializeTree t) = t"
  by (induction t) (simp_all add: map_idI)

text \<open>An entry whose bound is NaN makes the bounding interval of its leaf NaN, and hides all its neighbours from the searches.\<close>

lemma nan_hides_subtree:
  assumes "f64_nan (mbr_Min (node_MBR c))"
  shows "searchRangeNode mn mx (Inner m [c]) = []" "searchOverlapNode mn mx (Inner m [c]) = []"
  using assms by (simp_all add: mbrContains_def mbrOverlaps_def f64_le_def)

lemma nan_poisons_union: "f64_nan (mbr_Min b) \<Longrightarrow> mbr_Min a \<noteq> neg_inf \<Longrightarrow> f64_nan (mbr_Min (mbrUnion a b))"
proof -
  have "\<not> f64_nan neg_inf" "f64_nan quiet_nan" by (simp_all add: f64_nan_def f64_exp_def f64_frac_def neg_inf_def quiet_nan_def)
  then show "f64_nan (mbr_Min b) \<Longrightarrow> mbr_Min a \<noteq> neg_inf \<Longrightarrow> f64_nan (mbr_Min (mbrUnion a b))" by (auto simp: mbrUnion_def math_Min_def)
qed

end
