(* ===== verification/Spec2Isabelle.thy ===== *)
theory Spec2Isabelle
  imports Vdb_Prelude Page Fsm Crypto Wal_Log Wal_Sync Heap BufferPool Locks TxManager Eval_Vm Partition Bitmap Like Index Gin Gist
begin

text \<open>
  \<^bold>\<open>VaultDB: the storage engine.\<close>

  VaultDB is a relational database server in Go. This development models its storage layer, the code
  under \<^verbatim>\<open>src/server/internal/core\<close>, and proves what the layers above rely on. A table is a heap file
  of slotted pages (package \<^verbatim>\<open>storage/heap\<close>, \<^verbatim>\<open>storage/page\<close>) with a free space map (\<^verbatim>\<open>storage/fsm\<close>);
  pages are cached in a buffer pool (\<^verbatim>\<open>storage/buffer_pool.go\<close>) that flushes the write-ahead log
  (\<^verbatim>\<open>wal\<close>) before it writes a page; pages and log records may be encrypted (\<^verbatim>\<open>crypto\<close>); rows, pages and
  tables are locked (\<^verbatim>\<open>storage/lock_manager.go\<close>, \<^verbatim>\<open>page_lock.go\<close>, \<^verbatim>\<open>lwlock.go\<close>, \<^verbatim>\<open>predicate.go\<close>,
  \<^verbatim>\<open>deadlock.go\<close>). Above the storage, transactions buffer their writes and validate what they read when they commit
  (\<^verbatim>\<open>txmanager\<close>); rows are encoded as tuples (\<^verbatim>\<open>storage/binary_encoding.go\<close>), and conditions are compiled to a stack machine that
  evaluates them on rows and on encoded tuples (\<^verbatim>\<open>executor/eval/vm\<close>), with LIKE in \<^verbatim>\<open>executor/eval/like.go\<close>; partitions
  (\<^verbatim>\<open>storage/partition.go\<close>) and indexes (\<^verbatim>\<open>index\<close>) narrow down the rows to look at.

  \<^bold>\<open>Conventions.\<close> A Go byte slice is an \<^typ>\<open>8 word list\<close>; fixed-width integers are words where
  wrap-around matters; a panic or a loop that does not end is \<^const>\<open>None\<close>; an error value is the left part of a sum. The
  outcome of every system call (a short write, a failed fsync, a crash) is an argument, so the theorems hold for
  all outcomes. Goroutines that interleave are step relations whose steps are what happens under one mutex or in one
  atomic instruction. The AEAD cipher, JSON, google/btree, the formatting and scanning
  of numbers by \<^verbatim>\<open>fmt\<close> and the order in which \<^verbatim>\<open>sort.Slice\<close> leaves equal elements are arguments, with named hypotheses where a theorem
  relies on them.

  \<^bold>\<open>The theories.\<close>

  \<^item> \<open>Vdb_Prelude\<close>: word types, little-endian codecs, slices; \<open>Crc32\<close>: \<^verbatim>\<open>hash/crc32\<close>.
  \<^item> \<open>Page\<close> (\<^verbatim>\<open>page/page.go\<close>, \<^verbatim>\<open>page/itemptr.go\<close>): the slotted page. The abstraction is the list of slots,
    each dead or a tuple; insertion, redo insertion, deletion and compaction are shown to act on it as they
    should, for every page that satisfies the invariant, with the checksum round trip.
  \<^item> \<open>Fsm\<close> (\<^verbatim>\<open>fsm/fsm.go\<close>): the free space tree refines a list of categories; search finds the first fit.
  \<^item> \<open>Crypto\<close> (\<^verbatim>\<open>crypto/manager.go\<close>, \<^verbatim>\<open>dek.go\<close>, \<^verbatim>\<open>tde.go\<close>): key versions and rotation over an abstract AEAD.
  \<^item> \<open>Wal_Payload\<close>, \<open>Wal_Record\<close>, \<open>Wal_Log\<close> (\<^verbatim>\<open>wal/wal.go\<close>, \<^verbatim>\<open>recovery.go\<close>, \<^verbatim>\<open>group_commit.go\<close>,
    \<^verbatim>\<open>write_behind.go\<close>, \<^verbatim>\<open>pitr.go\<close>): encoding of payloads and records, append with every failure of the file
    system, crash and recovery. \<open>Wal_Sync\<close>: the protocol by which concurrent committers share an fsync.
  \<^item> \<open>Heap\<close> (\<^verbatim>\<open>heap/heapfile.go\<close>, \<^verbatim>\<open>mmap_unix.go\<close>): segments, encrypted pages, allocation. The locale \<open>page_store\<close>
    is the interface the buffer pool uses; it is interpreted on the heap files.
  \<^item> \<open>BufferPool\<close> (\<^verbatim>\<open>buffer_pool.go\<close>): the pool with clock eviction refines a plain store of pages and never
    writes a page before the log that describes it.
  \<^item> \<open>Locks\<close>: row locks, deadlock detection, spin locks, striped page locks, predicate locks.
  \<^item> \<open>Lock_Order\<close>: goroutines that lock mutexes one after the other do not deadlock when all follow one order; \<open>Locks\<close> uses it for
    the locks of a table.
  \<^item> \<open>TxManager\<close> (\<^verbatim>\<open>txmanager/manager.go\<close>, \<^verbatim>\<open>ssi.go\<close>, \<^verbatim>\<open>predicate_lock.go\<close>): the buffer of a transaction with its spill file
    and savepoints refines a list of operations; a commit fails and applies nothing if a table was written after the transaction
    first touched it, and otherwise applies the buffered operations.
  \<^item> \<open>Float64\<close>: comparison and arithmetic of \<^verbatim>\<open>float64\<close> on the bits, IEEE 754 binary64.
  \<^item> \<open>Row_Codec\<close>: encoding and decoding of rows are inverse, and the offsets in a tuple are where readers expect them.
  \<^item> \<open>Eval_Vm\<close>: compiled code computes what the expression means, on decoded rows and directly on encoded tuples; typed
    expressions give a value of their type or the error for division by zero; when the stack is exceeded the machine panics.
  \<^item> \<open>Partition\<close>: for range partitions whose keys, bounds and literals are of one kind, pruning never drops the partition
    of a row the condition selects. \<open>Bitmap\<close>: the page bitmap refines a
    set of row positions.
  \<^item> \<open>Like\<close>: LIKE and ILIKE decide the language of the pattern, whatever is in the shared cache of compiled patterns.
  \<^item> \<open>Index\<close> (\<^verbatim>\<open>index/hash_index.go\<close>, \<^verbatim>\<open>composite.go\<close>, \<^verbatim>\<open>btree.go\<close>): three indexes behind one locale, \<open>index_impl\<close>; a lookup after
    insertions at free positions and deletions gives the positions stored under the key, and a rebuild those of the live rows.
  \<^item> \<open>Gin\<close> (\<^verbatim>\<open>index/gin_index.go\<close>): the inverted index finds the rows that contain all tokens of the query.
  \<^item> \<open>Gist\<close> (\<^verbatim>\<open>index/gist_index.go\<close>): an R-tree over intervals, built from a table and then pruned by removals, answers range
    queries exactly as long as no bound is NaN.

  \<^bold>\<open>Bounds and fuel.\<close> Loops are structural, or have a termination proof, or are partial functions into
  \<^typ>\<open>'a option\<close> whose results are proved to be \<^const>\<open>Some\<close>. The depth-first search of the deadlock detector has fuel;
  the number of transactions is proved to be enough. The eviction loop runs \<open>2 * capacity\<close> steps as in the source.

  \<^bold>\<open>Not modelled.\<close> The parser, the query executor, full-text search; the page storage engine that combines the parts, the
  manager of the indexes of a table, expression and partial indexes; insertion into the range index, whose splits leave nodes with slices of one
  array, so that a later append to one node overwrites an entry of another; saving and loading of the composite, inverted and range indexes as JSON files. The network servers, the
  cluster code, authentication, backup, configuration, the WebAssembly runtime, the embedding services and
  the clients, which are I/O or wrap other systems; waiting times and memory mapping as such.
\<close>

end
